(* ===== verification/Prelude.thy ===== *)
theory Prelude
  imports Main "HOL-Library.Word" "HOL-Library.Monad_Syntax"
begin

text \<open>
  Shared vocabulary of the development: the machine integer types, the two kinds of
  abnormal termination of the C code as the value \<^term>\<open>None\<close> of an option, the counting
  loops of the code as folds over index lists, and the generic lemmas on lists, words and
  options that the component theories use.

  Throughout, a C function whose body contains \<^verbatim>\<open>assert\<close> (or an access the language leaves
  undefined) is a function into \<^typ>\<open>'a option\<close>: \<^term>\<open>None\<close> means that the process
  aborts there, and the \<^theory_text>\<open>do\<close>-notation threads that outcome through the callers.
\<close>

unbundle bit_operations_syntax

type_synonym u8 = "8 word"
type_synonym u16 = "16 word"
type_synonym u32 = "32 word"
type_synonym u64 = "64 word"

text \<open>A C string is the list of its bytes before the terminating zero.\<close>

type_synonym c_string = "u8 list"

named_theorems abort_simps \<open>evaluation of operations that cannot abort on valid arguments\<close>
named_theorems abs_simps \<open>the effect of an operation on the abstract value of its object\<close>


text \<open>The return codes shared by all components (slurm/slurm_errno.h).\<close>

definition SLURM_SUCCESS :: int where
  "SLURM_SUCCESS = 0"

definition SLURM_ERROR :: int where
  "SLURM_ERROR = -1"

text \<open>The value that stands for none, and the flag of a BlueGene cluster (slurm/slurm.h.in, slurm/slurmdb.h).\<close>

definition NO_VAL :: u32 where
  "NO_VAL = 0xfffffffe"

definition CLUSTER_FLAG_BG :: u32 where
  "CLUSTER_FLAG_BG = 0x00000001"


section \<open>Assertions and loops\<close>

definition assertC :: "bool \<Rightarrow> unit option" where
  "assertC P = (if P then Some () else None)"

lemma assertC_True [simp]: "P \<Longrightarrow> assertC P = Some ()"
  by (simp add: assertC_def)

lemma assertC_False [simp]: "\<not> P \<Longrightarrow> assertC P = None"
  by (simp add: assertC_def)

lemma assertC_bind_Some [simp]:
  "Option.bind (assertC P) f = Some x \<longleftrightarrow> P \<and> f () = Some x"
  by (simp add: assertC_def)

text \<open>A \<^verbatim>\<open>for\<close> loop whose body updates a state and may abort.\<close>

fun forM :: "'i list \<Rightarrow> ('i \<Rightarrow> 's \<Rightarrow> 's option) \<Rightarrow> 's \<Rightarrow> 's option" where
  "forM [] f s = Some s"
| "forM (i # is) f s = (case f i s of None \<Rightarrow> None | Some s' \<Rightarrow> forM is f s')"

lemma forM_append:
  "forM (xs @ ys) f s = (case forM xs f s of None \<Rightarrow> None | Some s' \<Rightarrow> forM ys f s')"
  by (induction xs arbitrary: s) (auto split: option.splits)

lemma forM_map: "forM (map g xs) f s = forM xs (\<lambda>x. f (g x)) s"
  by (induction xs arbitrary: s) (auto split: option.splits)

lemma forM_cong: "(\<And>x s. x \<in> set xs \<Longrightarrow> f x s = g x s) \<Longrightarrow> forM xs f s = forM xs g s"
  by (induction xs arbitrary: s) (auto split: option.splits)

text \<open>A loop whose body is guarded by a test that does not depend on the state.\<close>

lemma forM_filter:
  assumes "\<And>i. i \<in> set is \<Longrightarrow> test i = Some (P i)"
  shows "forM is (\<lambda>i s. do { t \<leftarrow> test i; if t then f i s else Some s }) s = forM (filter P is) f s"
  using assms by (induction "is" arbitrary: s) (auto split: option.splits)

lemma filter_upt_sorted:
  assumes "A \<subseteq> {..<n}"
  shows "filter (\<lambda>i. i \<in> A) [0..<n] = sorted_list_of_set A"
proof -
  have "set (filter (\<lambda>i. i \<in> A) [0..<n]) = A" using assms by auto
  moreover have "sorted (filter (\<lambda>i. i \<in> A) [0..<n])" "distinct (filter (\<lambda>i. i \<in> A) [0..<n])"
    by (simp_all add: sorted_wrt_filter)
  ultimately show ?thesis by (metis sorted_list_of_set.idem_if_sorted_distinct)
qed

lemma forM_invariant:
  assumes "forM is f s = Some s'" and "P s"
    and "\<And>i s s'. i \<in> set is \<Longrightarrow> f i s = Some s' \<Longrightarrow> P s \<Longrightarrow> P s'"
  shows "P s'"
  using assms
proof (induction "is" arbitrary: s)
  case (Cons i "is")
  then obtain s1 where "f i s = Some s1" "forM is f s1 = Some s'" by (auto split: option.splits)
  with Cons show ?case by (metis list.set_intros)
qed simp

text \<open>A loop over the indices of an array is a loop over its elements.\<close>

lemma forM_drop:
  "forM [k..<length vs] (\<lambda>i s. if i < length vs then f (vs ! i) s else None) s = forM (drop k vs) f s"
proof (induction "length vs - k" arbitrary: k s)
  case (Suc d)
  then have "k < length vs" by simp
  then have "[k..<length vs] = k # [Suc k..<length vs]" "drop k vs = vs ! k # drop (Suc k) vs"
    by (simp_all add: upt_conv_Cons Cons_nth_drop_Suc)
  with Suc show ?case by (auto split: option.splits)
qed simp

lemma forM_nth:
  "forM [0..<length vs] (\<lambda>i s. if i < length vs then f (vs ! i) s else None) s = forM vs f s"
  using forM_drop [of 0] by simp

text \<open>A loop that never aborts on the states it meets is the fold of its pure body.\<close>

lemma forM_fold:
  assumes "I s"
    and "\<And>i s. i \<in> set is \<Longrightarrow> I s \<Longrightarrow> f i s = Some (g i s) \<and> I (g i s)"
  shows "forM is f s = Some (fold g is s) \<and> I (fold g is s)"
  using assms by (induction "is" arbitrary: s) auto

text \<open>A loop that returns at the first index satisfying its test.\<close>

fun existsM :: "'i list \<Rightarrow> ('i \<Rightarrow> bool option) \<Rightarrow> bool option" where
  "existsM [] p = Some False"
| "existsM (i # is) p = do { t \<leftarrow> p i; if t then Some True else existsM is p }"

lemma existsM_Bex:
  "(\<And>i. i \<in> set is \<Longrightarrow> p i = Some (q i)) \<Longrightarrow> existsM is p = Some (\<exists>i \<in> set is. q i)"
  by (induction "is") auto

text \<open>A loop that stops at the first index satisfying its test and keeps that index.\<close>

fun findM :: "'i list \<Rightarrow> ('i \<Rightarrow> bool option) \<Rightarrow> 'i option option" where
  "findM [] p = Some None"
| "findM (i # is) p = do { t \<leftarrow> p i; if t then Some (Some i) else findM is p }"

lemma findM_find:
  "(\<And>i. i \<in> set is \<Longrightarrow> p i = Some (q i)) \<Longrightarrow> findM is p = Some (find q is)"
  by (induction "is") auto

lemma find_append: "find q (xs @ ys) = (case find q xs of None \<Rightarrow> find q ys | Some i \<Rightarrow> Some i)"
  by (induction xs) auto

lemma find_upt_Some:
  "find q [a..<e] = Some i \<Longrightarrow> a \<le> i \<and> i < e \<and> q i \<and> (\<forall>j. a \<le> j \<longrightarrow> j < i \<longrightarrow> \<not> q j)"
proof -
  assume "find q [a..<e] = Some i"
  then obtain k where k: "k < e - a" "i = a + k" "q (a + k)" "\<forall>j<k. \<not> q (a + j)"
    by (auto simp: find_Some_iff)
  moreover have "\<not> q j" if "a \<le> j" "j < i" for j
    using k(4) that k(2) by (metis le_Suc_ex nat_add_left_cancel_less)
  ultimately show ?thesis by auto
qed

lemma find_rev_upt_Some:
  "find q (rev [0..<e]) = Some i \<Longrightarrow> i < e \<and> q i \<and> (\<forall>j. i < j \<longrightarrow> j < e \<longrightarrow> \<not> q j)"
  by (induction e) (auto split: if_splits simp: less_Suc_eq)

lemma takeWhile_upt:
  assumes "a \<le> c" and "\<And>i. a \<le> i \<Longrightarrow> i < c \<Longrightarrow> P i" and "\<not> P c"
  shows "takeWhile P [a..<e] = [a..<min c e]"
proof (cases "c < e")
  case True
  then have "[a..<e] = [a..<c] @ c # [Suc c..<e]"
    using assms(1) by (metis less_imp_le_nat upt_add_eq_append upt_conv_Cons le_add_diff_inverse)
  moreover have "takeWhile P ([a..<c] @ c # [Suc c..<e]) = [a..<c]"
    using assms(2,3) by (subst takeWhile_append2) auto
  ultimately show ?thesis using True by simp
next
  case False
  then show ?thesis using assms(2) by (auto simp: takeWhile_eq_all_conv min_def)
qed

text \<open>Reading an array; outside its bounds the access is undefined.\<close>

definition readA :: "'v list \<Rightarrow> nat \<Rightarrow> 'v option" where
  "readA xs i = (if i < length xs then Some (xs ! i) else None)"

lemma readA_in [simp]: "i < length xs \<Longrightarrow> readA xs i = Some (xs ! i)"
  by (simp add: readA_def)

lemma readA_Some_iff: "readA xs i = Some x \<longleftrightarrow> i < length xs \<and> xs ! i = x"
  by (auto simp: readA_def)

text \<open>An array behind a pointer that may be NULL, read and written.\<close>

definition deref :: "'v list option \<Rightarrow> nat \<Rightarrow> 'v option" where
  "deref p i = do { xs \<leftarrow> p; readA xs i }"

definition store :: "'v list option \<Rightarrow> nat \<Rightarrow> 'v \<Rightarrow> 'v list option option" where
  "store p i v = do { xs \<leftarrow> p; assertC (i < length xs); Some (Some (xs[i := v])) }"

lemma deref_Some [simp]: "i < length xs \<Longrightarrow> deref (Some xs) i = Some (xs ! i)"
  by (simp add: deref_def)

lemma store_Some [simp]: "i < length xs \<Longrightarrow> store (Some xs) i v = Some (Some (xs[i := v]))"
  by (simp add: store_def)

text \<open>A \<^verbatim>\<open>for\<close> loop with a second condition, tested before every iteration.\<close>

fun for_while :: "'i list \<Rightarrow> ('s \<Rightarrow> bool) \<Rightarrow> ('i \<Rightarrow> 's \<Rightarrow> 's) \<Rightarrow> 's \<Rightarrow> 's" where
  "for_while [] g f s = s"
| "for_while (i # is) g f s = (if g s then for_while is g f (f i s) else s)"

lemma for_while_upt:
  assumes "a \<le> e" and "P a s"
    and "\<And>i s. a \<le> i \<Longrightarrow> i < e \<Longrightarrow> g s \<Longrightarrow> P i s \<Longrightarrow> P (Suc i) (f i s)"
  shows "\<exists>k. a \<le> k \<and> k \<le> e \<and> P k (for_while [a..<e] g f s) \<and> (k < e \<longrightarrow> \<not> g (for_while [a..<e] g f s))"
  using assms
proof (induction "e - a" arbitrary: a s)
  case (Suc d)
  then have u: "[a..<e] = a # [Suc a..<e]" by (simp add: upt_conv_Cons)
  show ?case
  proof (cases "g s")
    case True
    have "\<exists>k. Suc a \<le> k \<and> k \<le> e \<and> P k (for_while [Suc a..<e] g f (f a s)) \<and>
        (k < e \<longrightarrow> \<not> g (for_while [Suc a..<e] g f (f a s)))"
      using Suc.hyps(2) Suc.prems True by (intro Suc.hyps(1)) auto
    then obtain k where "Suc a \<le> k" "k \<le> e" "P k (for_while [Suc a..<e] g f (f a s))"
        "k < e \<longrightarrow> \<not> g (for_while [Suc a..<e] g f (f a s))" by blast
    then show ?thesis using True u by (intro exI [of _ k]) auto
  next
    case False
    then show ?thesis using Suc.prems u by (intro exI [of _ a]) auto
  qed
qed (intro exI, auto)

lemma for_while_0:
  assumes "P 0 s" and "\<And>i s. i < e \<Longrightarrow> g s \<Longrightarrow> P i s \<Longrightarrow> P (Suc i) (f i s)"
  shows "\<exists>k\<le>e. P k (for_while [0..<e] g f s) \<and> (k < e \<longrightarrow> \<not> g (for_while [0..<e] g f s))"
  using for_while_upt [of 0 e P s g f] assms by simp

lemma for_while_inv:
  assumes "P s" and "\<And>i s. i \<in> set is \<Longrightarrow> g s \<Longrightarrow> P s \<Longrightarrow> P (f i s)"
  shows "P (for_while is g f s)"
  using assms by (induction "is" arbitrary: s) auto

lemma for_while_sim:
  assumes "\<And>s. g' (h s) = g s" and "\<And>i s. f' i (h s) = h (f i s)"
  shows "for_while is g' f' (h s) = h (for_while is g f s)"
  using assms by (induction "is" arbitrary: s) auto

text \<open>The remainder of C's truncating division by a positive divisor.\<close>

definition crem :: "int \<Rightarrow> int \<Rightarrow> int" where
  "crem a m = (if a < 0 then - ((- a) mod m) else a mod m)"

lemma crem_normalized:
  assumes "0 < m"
  shows "(if crem a m < 0 then crem a m + m else crem a m) = a mod m"
proof (cases "a < 0")
  case True
  have "0 \<le> (- a) mod m" "0 \<le> a mod m" using assms by simp_all
  moreover have "a mod m = (if (- a) mod m = 0 then 0 else m - (- a) mod m)"
    using zmod_zminus1_eq_if [of "- a" m] by simp
  ultimately show ?thesis using True by (cases "(- a) mod m = 0") (simp_all add: crem_def)
qed (use assms in \<open>simp add: crem_def not_less\<close>)

text \<open>The values a counter takes in \<^verbatim>\<open>for (i = 0; i < n; i += k)\<close>.\<close>

definition steps :: "nat \<Rightarrow> nat \<Rightarrow> nat list" where
  "steps k n = map (\<lambda>j. k * j) [0..<(n + k - 1) div k]"

lemma ceil_div_less_iff: "0 < (k::nat) \<Longrightarrow> j < (n + k - 1) div k \<longleftrightarrow> k * j < n"
proof -
  assume k: "0 < k"
  have "j < (n + k - 1) div k \<longleftrightarrow> Suc j \<le> (n + k - 1) div k"
    by auto
  also have "\<dots> \<longleftrightarrow> Suc j * k \<le> n + k - 1"
    using k by (rule less_eq_div_iff_mult_less_eq)
  also have "\<dots> \<longleftrightarrow> k * j < n"
    using k by (auto simp: algebra_simps)
  finally show ?thesis .
qed

lemma set_steps: "0 < k \<Longrightarrow> set (steps k n) = {i. i < n \<and> i mod k = 0}"
proof -
  assume k: "0 < k"
  have "i \<in> set (steps k n) \<longleftrightarrow> i < n \<and> i mod k = 0" for i
  proof
    assume "i \<in> set (steps k n)"
    then obtain j where j: "j < (n + k - 1) div k" "i = k * j"
      by (auto simp: steps_def)
    with ceil_div_less_iff [OF k, of j n] show "i < n \<and> i mod k = 0" by simp
  next
    assume "i < n \<and> i mod k = 0"
    then have "i = k * (i div k)" and "k * (i div k) < n" by auto
    with ceil_div_less_iff [OF k, of "i div k" n] have "i div k < (n + k - 1) div k" by simp
    with \<open>i = k * (i div k)\<close> show "i \<in> set (steps k n)" by (auto simp: steps_def)
  qed
  then show ?thesis by (simp add: set_eq_iff)
qed


section \<open>Machine words\<close>

lemma word_eq_by_bits:
  fixes v w :: "'a::len word"
  shows "v = w \<longleftrightarrow> (\<forall>i < LENGTH('a). bit v i = bit w i)"
  by (auto simp: bit_word_eqI)

lemma word_mask_test:
  fixes w :: "'a::len word"
  assumes "n < LENGTH('a)"
  shows "w AND push_bit n 1 \<noteq> 0 \<longleftrightarrow> bit w n"
proof -
  have "bit (w AND push_bit n 1) i \<longleftrightarrow> i = n \<and> bit w n" for i
    using assms by (auto simp: bit_and_iff bit_exp_iff)
  then show ?thesis using assms by (auto simp only: word_eq_by_bits bit_0_eq bot_apply bot_bool_def)
qed

text \<open>A value that an \<^verbatim>\<open>int\<close> can hold.\<close>

definition int_ok :: "nat \<Rightarrow> unit option" where
  "int_ok n = assertC (n < 2 ^ 31)"


section \<open>Taking an element out of a list and putting one in\<close>

definition remove_nth :: "nat \<Rightarrow> 'v list \<Rightarrow> 'v list" where
  "remove_nth i xs = take i xs @ drop (Suc i) xs"

definition insert_nth :: "nat \<Rightarrow> 'v \<Rightarrow> 'v list \<Rightarrow> 'v list" where
  "insert_nth i v xs = take i xs @ v # drop i xs"

lemma remove_nth_set: "set (remove_nth i xs) \<subseteq> set xs"
  by (auto simp: remove_nth_def dest: in_set_takeD in_set_dropD)

lemma remove_nth_sum:
  assumes "i < length xs"
  shows "sum_list (remove_nth i xs) + xs ! i = sum_list (xs :: nat list)"
proof -
  have "xs = take i xs @ xs ! i # drop (Suc i) xs" using assms by (rule id_take_nth_drop)
  then have "sum_list xs = sum_list (take i xs) + (xs ! i + sum_list (drop (Suc i) xs))" by (metis sum_list.Cons sum_list_append)
  then show ?thesis by (simp add: remove_nth_def)
qed

lemma remove_nth_map: "map f (remove_nth i xs) = remove_nth i (map f xs)"
  by (simp add: remove_nth_def take_map drop_map)

lemma length_remove_nth: "i < length xs \<Longrightarrow> length (remove_nth i xs) = length xs - 1"
  by (simp add: remove_nth_def)

lemma length_insert_nth: "i \<le> length xs \<Longrightarrow> length (insert_nth i v xs) = Suc (length xs)"
  by (simp add: insert_nth_def)

lemma nth_remove_nth: "i < length xs \<Longrightarrow> k < length xs - 1 \<Longrightarrow> remove_nth i xs ! k = xs ! (if k < i then k else Suc k)"
  by (auto simp: remove_nth_def nth_append min_def)

lemma nth_insert_nth:
  "i \<le> length xs \<Longrightarrow> k \<le> length xs \<Longrightarrow> insert_nth i v xs ! k = (if k < i then xs ! k else if k = i then v else xs ! (k - 1))"
  by (auto simp: insert_nth_def nth_append nth_Cons' min_def)

lemma set_insert_nth: "set (insert_nth i v xs) = insert v (set xs)"
proof -
  have "set (take i xs) \<union> set (drop i xs) = set xs" by (simp flip: set_append)
  then show ?thesis by (auto simp: insert_nth_def)
qed

lemma distinct_insert_nth: "distinct (insert_nth i v xs) \<longleftrightarrow> distinct xs \<and> v \<notin> set xs"
proof -
  have "distinct (insert_nth i v xs) \<longleftrightarrow> distinct (v # (take i xs @ drop i xs))"
    unfolding insert_nth_def by (simp only: distinct_append distinct.simps set_append list.set) blast
  then show ?thesis by auto
qed

lemma set_remove_nth: "distinct xs \<Longrightarrow> i < length xs \<Longrightarrow> set (remove_nth i xs) = set xs - {xs ! i}"
proof -
  assume "distinct xs" "i < length xs"
  then have "distinct (take i xs @ xs ! i # drop (Suc i) xs)" "set xs = set (take i xs @ xs ! i # drop (Suc i) xs)"
    by (simp_all add: id_take_nth_drop [symmetric])
  then show ?thesis unfolding remove_nth_def by auto
qed

lemma distinct_remove_nth: "distinct xs \<Longrightarrow> distinct (remove_nth i xs)"
proof (cases "i < length xs")
  case True
  assume "distinct xs"
  then have "distinct (take i xs @ xs ! i # drop (Suc i) xs)" using True by (simp add: id_take_nth_drop [symmetric])
  then show ?thesis unfolding remove_nth_def by auto
qed (simp add: remove_nth_def)

end
