(* ===== verification/Bitstring.thy ===== *)
theory Bitstring
  imports Prelude
begin

text \<open>
  Bitmaps (src/common/bitstring.c and bitstring.h): the representation, allocation, the
  single-bit operations, the range operations that work bytewise, and the word-parallel
  boolean operations. Positions (\<^verbatim>\<open>bitoff_t\<close>, a signed 64-bit integer) are \<^typ>\<open>int\<close>
  at the interface; every bitmap holds at most \<^verbatim>\<open>0x40000000\<close> bits, so the 32-bit and 64-bit
  position arithmetic of the code never overflows.

  The contract of the component is stated on \<open>bits_of\<close>, the set of positions that are set;
  the locale \<open>bitmap\<close> is the interface its clients use.
\<close>

section \<open>Representation\<close>

text \<open>
  A \<^verbatim>\<open>bitstr_t\<close> is an array of 64-bit words. Its first two words, the magic cookie and the
  number of valid bits, are the first two fields; the remaining words are \<open>bs_words\<close>, so an
  index into \<open>bs_words\<close> is \<^verbatim>\<open>_bit_word(bit) - BITSTR_OVERHEAD\<close>.
\<close>

record bitstr =
  bs_magic :: u64
  bs_bits :: nat
  bs_words :: "u64 list"

definition BITSTR_MAGIC :: u64 where
  "BITSTR_MAGIC = 0x42434445"

definition BITSTR_MAGIC_STACK :: u64 where
  "BITSTR_MAGIC_STACK = 0x42434446"

definition BITSTR_MAXVAL :: u64 where
  "BITSTR_MAXVAL = 0xffffffffffffffff"

definition bit_word :: "nat \<Rightarrow> nat" where
  "bit_word bt = drop_bit 6 bt"

definition bit_mask :: "nat \<Rightarrow> u64" where
  "bit_mask bt = push_bit (bt mod 64) 1"

definition bitstr_words :: "nat \<Rightarrow> nat" where
  "bitstr_words nbits = (nbits + 63) div 64"

definition assert_bitstr_valid :: "bitstr \<Rightarrow> unit option" where
  "assert_bitstr_valid b =
     assertC (bs_magic b = BITSTR_MAGIC \<or> bs_magic b = BITSTR_MAGIC_STACK)"

definition assert_bit_valid :: "bitstr \<Rightarrow> int \<Rightarrow> unit option" where
  "assert_bit_valid b bt = do { assertC (bt \<ge> 0); assertC (bt < int (bs_bits b)) }"

definition assert_valid_size :: "int \<Rightarrow> unit option" where
  "assert_valid_size bt = do { assertC (bt \<ge> 0); assertC (bt \<le> 0x40000000) }"


section \<open>Allocation and single bits\<close>

definition bit_alloc :: "int \<Rightarrow> bitstr option" where
  "bit_alloc nbits = do {
     assert_valid_size nbits;
     Some \<lparr>bs_magic = BITSTR_MAGIC, bs_bits = nat nbits,
           bs_words = replicate (bitstr_words (nat nbits)) 0\<rparr> }"

text \<open>
  \<^verbatim>\<open>xrealloc\<close> keeps the old words up to the smaller of the two sizes and clears what it adds.
\<close>

definition bit_realloc :: "bitstr \<Rightarrow> int \<Rightarrow> bitstr option" where
  "bit_realloc b nbits = do {
     assert_bitstr_valid b;
     assert_valid_size nbits;
     (let n = bitstr_words (nat nbits) in
      Some (b\<lparr>bs_bits := nat nbits,
              bs_words := take n (bs_words b) @ replicate (n - length (bs_words b)) 0\<rparr>)) }"

text \<open>Freeing succeeds on heap bitmaps only and leaves a cookie that no later use accepts.\<close>

definition bit_free :: "bitstr \<Rightarrow> bitstr option" where
  "bit_free b = do { assertC (bs_magic b = BITSTR_MAGIC); Some (b\<lparr>bs_magic := 0\<rparr>) }"

definition bit_size :: "bitstr \<Rightarrow> int option" where
  "bit_size b = do { assert_bitstr_valid b; Some (int (bs_bits b)) }"

definition bit_test :: "bitstr \<Rightarrow> int \<Rightarrow> bool option" where
  "bit_test b bt = do {
     assert_bitstr_valid b;
     assert_bit_valid b bt;
     Some (bs_words b ! bit_word (nat bt) AND bit_mask (nat bt) \<noteq> 0) }"

definition bit_set :: "bitstr \<Rightarrow> int \<Rightarrow> bitstr option" where
  "bit_set b bt = do {
     assert_bitstr_valid b;
     assert_bit_valid b bt;
     (let k = bit_word (nat bt) in
      Some (b\<lparr>bs_words := (bs_words b)[k := bs_words b ! k OR bit_mask (nat bt)]\<rparr>)) }"

definition bit_clear :: "bitstr \<Rightarrow> int \<Rightarrow> bitstr option" where
  "bit_clear b bt = do {
     assert_bitstr_valid b;
     assert_bit_valid b bt;
     (let k = bit_word (nat bt) in
      Some (b\<lparr>bs_words := (bs_words b)[k := bs_words b ! k AND NOT (bit_mask (nat bt))]\<rparr>)) }"


section \<open>Ranges of bits\<close>

text \<open>
  \<^verbatim>\<open>memset(_bit_byteaddr(b, start), c, n)\<close> on a little-endian machine: byte \<open>p\<close> of the word
  area is byte \<open>p mod 8\<close> of word \<open>p div 8\<close>.
\<close>

definition put_byte :: "u8 \<Rightarrow> nat \<Rightarrow> u64 list \<Rightarrow> u64 list" where
  "put_byte c p ws =
     ws[p div 8 := (ws ! (p div 8) AND NOT (push_bit (8 * (p mod 8)) 0xff))
                   OR push_bit (8 * (p mod 8)) (ucast c)]"

definition memset_words :: "nat \<Rightarrow> u8 \<Rightarrow> nat \<Rightarrow> u64 list \<Rightarrow> u64 list" where
  "memset_words p c n ws = fold (put_byte c) [p..<p + n] ws"

text \<open>
  \<^verbatim>\<open>bit_nset\<close> and \<^verbatim>\<open>bit_nclear\<close> are the same text up to the single-bit operation and the
  byte written; \<open>v\<close> selects between them.
\<close>

definition bit_put :: "bool \<Rightarrow> bitstr \<Rightarrow> int \<Rightarrow> bitstr option" where
  "bit_put v b bt = (if v then bit_set b bt else bit_clear b bt)"

function nfill_head :: "bool \<Rightarrow> bitstr \<Rightarrow> int \<Rightarrow> int \<Rightarrow> (bitstr \<times> int) option" where
  "nfill_head v b start stop =
     (if start \<le> stop \<and> start mod 8 > 0
      then do { b' \<leftarrow> bit_put v b start; nfill_head v b' (start + 1) stop }
      else Some (b, start))"
  by pat_completeness auto
termination
  by (relation "measure (\<lambda>(v, b, start, stop). nat (stop + 1 - start))") auto

function nfill_tail :: "bool \<Rightarrow> bitstr \<Rightarrow> int \<Rightarrow> int \<Rightarrow> (bitstr \<times> int) option" where
  "nfill_tail v b start stop =
     (if stop \<ge> start \<and> (stop + 1) mod 8 > 0
      then do { b' \<leftarrow> bit_put v b stop; nfill_tail v b' start (stop - 1) }
      else Some (b, stop))"
  by pat_completeness auto
termination
  by (relation "measure (\<lambda>(v, b, start, stop). nat (stop + 1 - start))") auto

declare nfill_head.simps [simp del] nfill_tail.simps [simp del]

definition bit_nfill :: "bool \<Rightarrow> bitstr \<Rightarrow> int \<Rightarrow> int \<Rightarrow> bitstr option" where
  "bit_nfill v b start stop = do {
     assert_bitstr_valid b;
     assert_bit_valid b start;
     assert_bit_valid b stop;
     (b, start) \<leftarrow> nfill_head v b start stop;
     (b, stop) \<leftarrow> nfill_tail v b start stop;
     (if stop > start
      then do {
        assertC ((stop - start + 1) mod 8 = 0);
        Some (b\<lparr>bs_words := memset_words (drop_bit 3 (nat start)) (if v then 0xff else 0)
                              (nat ((stop - start + 1) div 8)) (bs_words b)\<rparr>) }
      else Some b) }"

definition bit_nset :: "bitstr \<Rightarrow> int \<Rightarrow> int \<Rightarrow> bitstr option" where
  "bit_nset b start stop = bit_nfill True b start stop"

definition bit_nclear :: "bitstr \<Rightarrow> int \<Rightarrow> int \<Rightarrow> bitstr option" where
  "bit_nclear b start stop = bit_nfill False b start stop"

definition bit_set_all :: "bitstr \<Rightarrow> bitstr option" where
  "bit_set_all b = do { n \<leftarrow> bit_size b; bit_nset b 0 (n - 1) }"

definition bit_clear_all :: "bitstr \<Rightarrow> bitstr option" where
  "bit_clear_all b = do { n \<leftarrow> bit_size b; bit_nclear b 0 (n - 1) }"


section \<open>Word-parallel operations\<close>

text \<open>
  The loops \<^verbatim>\<open>for (bit = 0; bit < _bitstr_bits(b); bit += sizeof(bitstr_t)*8)\<close> run over
  \<^term>\<open>steps 64 (bs_bits b)\<close>.
\<close>

definition bit_super_set :: "bitstr \<Rightarrow> bitstr \<Rightarrow> bool option" where
  "bit_super_set b1 b2 = do {
     assert_bitstr_valid b1;
     assert_bitstr_valid b2;
     assertC (bs_bits b1 = bs_bits b2);
     Some (list_all (\<lambda>bt. bs_words b1 ! bit_word bt =
                          bs_words b1 ! bit_word bt AND bs_words b2 ! bit_word bt)
             (steps 64 (bs_bits b1))) }"

definition bit_equal :: "bitstr \<Rightarrow> bitstr \<Rightarrow> bool option" where
  "bit_equal b1 b2 = do {
     assert_bitstr_valid b1;
     assert_bitstr_valid b2;
     (if bs_bits b1 \<noteq> bs_bits b2 then Some False
      else Some (list_all (\<lambda>bt. bs_words b1 ! bit_word bt = bs_words b2 ! bit_word bt)
                   (steps 64 (bs_bits b1)))) }"

definition word_loop :: "(u64 \<Rightarrow> u64 \<Rightarrow> u64) \<Rightarrow> bitstr \<Rightarrow> bitstr \<Rightarrow> bitstr" where
  "word_loop f b1 b2 =
     fold (\<lambda>bt b. b\<lparr>bs_words := (bs_words b)
                       [bit_word bt := f (bs_words b ! bit_word bt) (bs_words b2 ! bit_word bt)]\<rparr>)
       (steps 64 (bs_bits b1)) b1"

definition bit_and :: "bitstr \<Rightarrow> bitstr \<Rightarrow> bitstr option" where
  "bit_and b1 b2 = do {
     assert_bitstr_valid b1;
     assert_bitstr_valid b2;
     assertC (bs_bits b1 = bs_bits b2);
     Some (word_loop (\<lambda>x y. x AND y) b1 b2) }"

definition bit_and_not :: "bitstr \<Rightarrow> bitstr \<Rightarrow> bitstr option" where
  "bit_and_not b1 b2 = do {
     assert_bitstr_valid b1;
     assert_bitstr_valid b2;
     assertC (bs_bits b1 = bs_bits b2);
     Some (word_loop (\<lambda>x y. x AND NOT y) b1 b2) }"

definition bit_not :: "bitstr \<Rightarrow> bitstr option" where
  "bit_not b = do {
     assert_bitstr_valid b;
     Some (word_loop (\<lambda>x y. NOT x) b b) }"

definition bit_or :: "bitstr \<Rightarrow> bitstr \<Rightarrow> bitstr option" where
  "bit_or b1 b2 = do {
     assert_bitstr_valid b1;
     assert_bitstr_valid b2;
     assertC (bs_bits b1 = bs_bits b2);
     Some (word_loop (\<lambda>x y. x OR y) b1 b2) }"

definition bit_copy :: "bitstr \<Rightarrow> bitstr option" where
  "bit_copy b = do {
     assert_bitstr_valid b;
     n \<leftarrow> bit_size b;
     new \<leftarrow> bit_alloc n;
     (let len = bitstr_words (nat n) in
      Some (new\<lparr>bs_words := take len (bs_words b) @ drop len (bs_words new)\<rparr>)) }"

definition bit_copybits :: "bitstr \<Rightarrow> bitstr \<Rightarrow> bitstr option" where
  "bit_copybits dest src = do {
     assert_bitstr_valid dest;
     assert_bitstr_valid src;
     n \<leftarrow> bit_size src;
     m \<leftarrow> bit_size dest;
     assertC (n = m);
     (let len = bitstr_words (nat n) in
      Some (dest\<lparr>bs_words := take len (bs_words src) @ drop len (bs_words dest)\<rparr>)) }"


section \<open>The abstract value of a bitmap\<close>

text \<open>Bit \<open>i\<close> of the word area, whether or not it is one of the valid positions.\<close>

definition wbit :: "u64 list \<Rightarrow> nat \<Rightarrow> bool" where
  "wbit ws i = bit (ws ! (i div 64)) (i mod 64)"

definition bits_of :: "bitstr \<Rightarrow> nat set" where
  "bits_of b = {i. i < bs_bits b \<and> wbit (bs_words b) i}"

text \<open>
  The type invariant: a live cookie, a size that \<^verbatim>\<open>bit_alloc\<close> accepts, and exactly the words
  that size needs.
\<close>

definition bitstr_wf :: "bitstr \<Rightarrow> bool" where
  "bitstr_wf b \<longleftrightarrow>
     (bs_magic b = BITSTR_MAGIC \<or> bs_magic b = BITSTR_MAGIC_STACK) \<and>
     bs_bits b \<le> 0x40000000 \<and> length (bs_words b) = bitstr_words (bs_bits b)"

text \<open>No stray bit is set in the last word beyond the valid positions.\<close>

definition bitstr_clean :: "bitstr \<Rightarrow> bool" where
  "bitstr_clean b \<longleftrightarrow>
     (\<forall>i. bs_bits b \<le> i \<longrightarrow> i < 64 * length (bs_words b) \<longrightarrow> \<not> wbit (bs_words b) i)"

lemma bit_word_div: "bit_word i = i div 64"
  by (simp add: bit_word_def drop_bit_eq_div)

lemma bitstr_words_bound: "i < n \<Longrightarrow> i div 64 < bitstr_words n"
  by (simp add: bitstr_words_def)

lemma wbit_update:
  "j < length ws \<Longrightarrow> wbit (ws[j := w]) i = (if i div 64 = j then bit w (i mod 64) else wbit ws i)"
  by (simp add: wbit_def)

lemma wbit_mask: "ws ! bit_word i AND bit_mask i \<noteq> 0 \<longleftrightarrow> wbit ws i"
  by (simp only: bit_mask_def bit_word_div wbit_def word_mask_test len_num1 len_bit0 len_bit1)

lemma finite_bits_of [simp]: "finite (bits_of b)"
  by (simp add: bits_of_def)

lemma bits_of_bound: "i \<in> bits_of b \<Longrightarrow> i < bs_bits b"
  by (simp add: bits_of_def)

lemma bitstr_wf_valid [abort_simps]: "bitstr_wf b \<Longrightarrow> assert_bitstr_valid b = Some ()"
  by (auto simp: bitstr_wf_def assert_bitstr_valid_def)

lemma assert_bit_valid_Some [abort_simps]:
  "0 \<le> i \<Longrightarrow> i < int (bs_bits b) \<Longrightarrow> assert_bit_valid b i = Some ()"
  by (simp add: assert_bit_valid_def)

lemma assert_bit_valid_None:
  "i < 0 \<or> int (bs_bits b) \<le> i \<Longrightarrow> assert_bit_valid b i = None"
  by (auto simp: assert_bit_valid_def)

lemma bit_size_Some [abort_simps]: "bitstr_wf b \<Longrightarrow> bit_size b = Some (int (bs_bits b))"
  by (simp add: bit_size_def abort_simps)

lemma bit_test_Some [abort_simps]:
  "bitstr_wf b \<Longrightarrow> i < bs_bits b \<Longrightarrow> bit_test b (int i) = Some (i \<in> bits_of b)"
  using wbit_mask [of "bs_words b" i] by (simp add: bit_test_def abort_simps bits_of_def)

lemma bitstr_wf_upd:
  "bitstr_wf b \<Longrightarrow> length ws = length (bs_words b) \<Longrightarrow> bitstr_wf (b\<lparr>bs_words := ws\<rparr>)"
  by (simp add: bitstr_wf_def)

lemma bitstr_wf_index: "bitstr_wf b \<Longrightarrow> i < bs_bits b \<Longrightarrow> i div 64 < length (bs_words b)"
  by (simp add: bitstr_wf_def bitstr_words_bound)

text \<open>
  Setting and clearing one bit, on the whole word area: \<open>bput\<close> is the pure effect of
  \<^const>\<open>bit_put\<close>.
\<close>

definition bput :: "bool \<Rightarrow> bitstr \<Rightarrow> nat \<Rightarrow> bitstr" where
  "bput v b i =
     b\<lparr>bs_words := (bs_words b)[bit_word i :=
         (if v then bs_words b ! bit_word i OR bit_mask i
          else bs_words b ! bit_word i AND NOT (bit_mask i))]\<rparr>"

lemma bit_put_Some [abort_simps]:
  "bitstr_wf b \<Longrightarrow> i < bs_bits b \<Longrightarrow> bit_put v b (int i) = Some (bput v b i)"
  by (simp add: bit_put_def bit_set_def bit_clear_def abort_simps bput_def Let_def)

lemma bit_set_Some [abort_simps]:
  "bitstr_wf b \<Longrightarrow> i < bs_bits b \<Longrightarrow> bit_set b (int i) = Some (bput True b i)"
  using bit_put_Some [of b i True] by (simp add: bit_put_def)

lemma bit_clear_Some [abort_simps]:
  "bitstr_wf b \<Longrightarrow> i < bs_bits b \<Longrightarrow> bit_clear b (int i) = Some (bput False b i)"
  using bit_put_Some [of b i False] by (simp add: bit_put_def)

lemma bput_simps [simp]:
  "bs_bits (bput v b i) = bs_bits b"
  "bs_magic (bput v b i) = bs_magic b"
  "length (bs_words (bput v b i)) = length (bs_words b)"
  by (simp_all add: bput_def)

lemma bput_wf [simp]: "bitstr_wf (bput v b i) = bitstr_wf b"
  by (simp add: bitstr_wf_def)

lemma wbit_bput:
  assumes "i div 64 < length (bs_words b)"
  shows "wbit (bs_words (bput v b i)) j = (if j = i then v else wbit (bs_words b) j)"
proof -
  have eq: "j div 64 = i div 64 \<Longrightarrow> j mod 64 = i mod 64 \<longleftrightarrow> j = i"
    by (metis div_mult_mod_eq)
  show ?thesis
  proof (cases "j div 64 = i div 64")
    case True
    with assms eq show ?thesis
      by (auto simp: bput_def wbit_update bit_word_div bit_mask_def)
         (auto simp: wbit_def bit_simps)
  next
    case False
    then have "j \<noteq> i" by auto
    with False assms show ?thesis by (simp add: bput_def wbit_update bit_word_div)
  qed
qed

lemma bits_of_bput [abs_simps]:
  "bitstr_wf b \<Longrightarrow> i < bs_bits b \<Longrightarrow>
     bits_of (bput v b i) = (if v then insert i (bits_of b) else bits_of b - {i})"
  by (auto simp: bits_of_def wbit_bput bitstr_wf_index split: if_splits)


text \<open>A byte store changes exactly the eight bits of that byte.\<close>

lemma wbit_put_byte:
  assumes "p div 8 < length ws"
  shows "wbit (put_byte c p ws) i = (if i div 8 = p then bit c (i mod 8) else wbit ws i)"
proof -
  have d: "i div 64 = i div 8 div 8"
    by (simp add: div_mult2_eq [symmetric])
  have m: "i mod 64 = 8 * (i div 8 mod 8) + i mod 8"
    using mod_mult2_eq [of i 8 8] by simp
  show ?thesis
  proof (cases "i div 64 = p div 8")
    case True
    have "8 * (p mod 8) \<le> i mod 64 \<and> i mod 64 < 8 * (p mod 8) + 8 \<longleftrightarrow> i div 8 mod 8 = p mod 8"
      unfolding m using mod_less_divisor [of 8 i] by linarith
    moreover have "i div 8 mod 8 = p mod 8 \<longleftrightarrow> i div 8 = p"
      using True d by (metis div_mult_mod_eq)
    ultimately have iff: "8 * (p mod 8) \<le> i mod 64 \<and> i mod 64 < 8 * (p mod 8) + 8 \<longleftrightarrow> i div 8 = p"
      by simp
    have ff: "bit (0xff :: u64) k \<longleftrightarrow> k < 8" for k
      using bit_mask_iff [of 8 k, where 'a = u64] by (auto simp: mask_eq_exp_minus_1)
    have "bit (push_bit (8 * (p mod 8)) (0xff :: u64)) (i mod 64) \<longleftrightarrow> i div 8 = p"
      using iff mod_less_divisor [of 64 i]
      by (simp only: bit_push_bit_iff ff possible_bit_word len_num1 len_bit0 len_bit1) linarith
    moreover have "bit (push_bit (8 * (p mod 8)) (ucast c :: u64)) (i mod 64) \<longleftrightarrow>
        i div 8 = p \<and> bit c (i mod 8)"
    proof (cases "i div 8 = p")
      case True
      moreover have "8 * (p mod 8) + i mod 8 < 64" "i mod 8 < 64"
        by (auto intro: less_le_trans [OF mod_less_divisor])
      ultimately show ?thesis using m by (simp add: bit_push_bit_iff bit_ucast_iff)
    next
      case False
      with iff have "\<not> 8 * (p mod 8) \<le> i mod 64 \<or> 8 \<le> i mod 64 - 8 * (p mod 8)"
        by linarith
      then show ?thesis using False bit_imp_le_length [of c]
        by (fastforce simp: bit_push_bit_iff bit_ucast_iff)
    qed
    ultimately show ?thesis
      using assms True by (auto simp: put_byte_def wbit_update bit_or_iff bit_and_iff bit_not_iff wbit_def)
  next
    case False
    then have "i div 8 \<noteq> p" using d by auto
    with False assms show ?thesis by (simp add: put_byte_def wbit_update)
  qed
qed


lemma length_put_byte [simp]: "length (put_byte c p ws) = length ws"
  by (simp add: put_byte_def)

lemma length_memset_words [simp]: "length (memset_words p c n ws) = length ws"
proof -
  have "length (fold (put_byte c) ps ws) = length ws" for ps
    by (induction ps arbitrary: ws) simp_all
  then show ?thesis by (simp add: memset_words_def)
qed

lemma wbit_memset_words:
  assumes "p + n \<le> 8 * length ws"
  shows "wbit (memset_words p c n ws) i =
     (if p \<le> i div 8 \<and> i div 8 < p + n then bit c (i mod 8) else wbit ws i)"
  using assms
proof (induction n)
  case 0
  then show ?case by (auto simp: memset_words_def)
next
  case (Suc n)
  have "memset_words p c (Suc n) ws = put_byte c (p + n) (memset_words p c n ws)"
    by (simp add: memset_words_def)
  moreover have "(p + n) div 8 < length (memset_words p c n ws)"
    using Suc.prems by simp
  ultimately show ?case
    using Suc by (auto simp: wbit_put_byte)
qed


section \<open>Correctness of the range operations\<close>

text \<open>What a range operation does to the word area: positions outside the range are kept.\<close>

definition filled :: "bool \<Rightarrow> int set \<Rightarrow> bitstr \<Rightarrow> bitstr \<Rightarrow> bool" where
  "filled v S b b' \<longleftrightarrow>
     bs_bits b' = bs_bits b \<and> bs_magic b' = bs_magic b \<and>
     length (bs_words b') = length (bs_words b) \<and>
     (\<forall>i. wbit (bs_words b') i = (if int i \<in> S then v else wbit (bs_words b) i))"

lemma filled_empty: "filled v {} b b"
  by (simp add: filled_def)

lemma filled_trans: "filled v S b b' \<Longrightarrow> filled v T b' b'' \<Longrightarrow> filled v (S \<union> T) b b''"
  by (auto simp: filled_def)

lemma filled_wf: "filled v S b b' \<Longrightarrow> bitstr_wf b' = bitstr_wf b"
  by (auto simp: filled_def bitstr_wf_def)

lemma filled_bits_of:
  "filled v S b b' \<Longrightarrow>
     bits_of b' = (if v then bits_of b \<union> {i. i < bs_bits b \<and> int i \<in> S}
                   else bits_of b - {i. int i \<in> S})"
  by (auto simp: filled_def bits_of_def)

lemma bit_put_filled:
  assumes "bitstr_wf b" and "0 \<le> i" and "i < int (bs_bits b)"
  obtains b' where "bit_put v b i = Some b'" and "filled v {i} b b'"
proof -
  obtain n where n: "i = int n" "n < bs_bits b"
    using assms by (metis nat_0_le of_nat_less_iff)
  with assms(1) have "filled v {i} b (bput v b n)"
    by (simp add: filled_def wbit_bput bitstr_wf_index)
  with n assms(1) that show thesis by (simp add: abort_simps)
qed

lemma nfill_head_filled:
  assumes "bitstr_wf b" and "0 \<le> start" and "stop < int (bs_bits b)"
  shows "\<exists>b' start'. nfill_head v b start stop = Some (b', start') \<and>
    filled v {start..<start'} b b' \<and> start \<le> start' \<and>
    (start \<le> stop \<longrightarrow> start' \<le> stop + 1) \<and> (stop < start \<longrightarrow> start' = start) \<and>
    (start' mod 8 = 0 \<or> stop < start')"
  using assms
proof (induction v b start stop rule: nfill_head.induct)
  case (1 v b start stop)
  show ?case
  proof (cases "start \<le> stop \<and> start mod 8 > 0")
    case True
    with "1.prems" obtain b1 where b1: "bit_put v b start = Some b1" "filled v {start} b b1"
      using bit_put_filled [of b start v] by auto
    moreover from b1 "1.prems" have "bitstr_wf b1" and "bs_bits b1 = bs_bits b"
      by (auto simp: filled_wf) (simp add: filled_def)
    ultimately obtain b' s' where IH: "nfill_head v b1 (start + 1) stop = Some (b', s')"
      "filled v {start + 1..<s'} b1 b'" "start + 1 \<le> s'"
      "start + 1 \<le> stop \<longrightarrow> s' \<le> stop + 1" "s' mod 8 = 0 \<or> stop < s'"
      using "1.IH" [OF True, of b1] "1.prems" by fastforce
    have "{start} \<union> {start + 1..<s'} = {start..<s'}" using IH(3) by auto
    with filled_trans [OF b1(2) IH(2)] have "filled v {start..<s'} b b'" by simp
    moreover have "s' \<le> stop + 1"
    proof (cases "start + 1 \<le> stop")
      case False
      with True have "stop = start" by simp
      with IH(1) have "s' = start + 1" by (simp add: nfill_head.simps)
      with \<open>stop = start\<close> show ?thesis by simp
    qed (use IH(4) in simp)
    ultimately show ?thesis
      using True b1(1) IH by (simp add: nfill_head.simps [of v b start stop])
  next
    case False
    have "start mod 8 \<ge> 0" by simp
    with False have "start mod 8 = 0 \<or> stop < start" by linarith
    with False show ?thesis
      by (auto simp: nfill_head.simps [of v b start stop] filled_empty)
  qed
qed

lemma nfill_tail_filled:
  assumes "bitstr_wf b" and "0 \<le> start" and "stop < int (bs_bits b)"
  shows "\<exists>b' stop'. nfill_tail v b start stop = Some (b', stop') \<and>
    filled v {stop' + 1..stop} b b' \<and> stop' \<le> stop \<and>
    (start \<le> stop + 1 \<longrightarrow> start \<le> stop' + 1) \<and> (stop < start \<longrightarrow> stop' = stop) \<and>
    ((stop' + 1) mod 8 = 0 \<or> stop' < start)"
  using assms
proof (induction v b start stop rule: nfill_tail.induct)
  case (1 v b start stop)
  show ?case
  proof (cases "stop \<ge> start \<and> (stop + 1) mod 8 > 0")
    case True
    with "1.prems" obtain b1 where b1: "bit_put v b stop = Some b1" "filled v {stop} b b1"
      using bit_put_filled [of b stop v] by auto
    moreover from b1 "1.prems" have "bitstr_wf b1" and "bs_bits b1 = bs_bits b"
      by (auto simp: filled_wf) (simp add: filled_def)
    ultimately obtain b' s' where IH: "nfill_tail v b1 start (stop - 1) = Some (b', s')"
      "filled v {s' + 1..stop - 1} b1 b'" "s' \<le> stop - 1"
      "start \<le> stop \<longrightarrow> start \<le> s' + 1" "(s' + 1) mod 8 = 0 \<or> s' < start"
      using "1.IH" [OF True, of b1] "1.prems" by fastforce
    have "{stop} \<union> {s' + 1..stop - 1} = {s' + 1..stop}" using IH(3) by auto
    with filled_trans [OF b1(2) IH(2)] have "filled v {s' + 1..stop} b b'" by simp
    then show ?thesis
      using True b1(1) IH by (auto simp: nfill_tail.simps [of v b start stop])
  next
    case False
    have "(stop + 1) mod 8 \<ge> 0" by simp
    with False have "(stop + 1) mod 8 = 0 \<or> stop < start" by linarith
    with False show ?thesis
      by (auto simp: nfill_tail.simps [of v b start stop] filled_empty)
  qed
qed


lemma memset_filled:
  assumes "bitstr_wf b" and "0 \<le> start" and "start \<le> stop" and "stop < int (bs_bits b)"
    and "start mod 8 = 0" and "(stop + 1) mod 8 = 0"
  shows "filled v {start..stop} b
    (b\<lparr>bs_words := memset_words (drop_bit 3 (nat start)) (if v then 0xff else 0)
                      (nat ((stop - start + 1) div 8)) (bs_words b)\<rparr>)"
proof -
  obtain a where a: "start = 8 * a" using assms(5) by (auto elim: dvdE)
  obtain c where "stop + 1 = 8 * c" using assms(6) by (auto elim: dvdE)
  then have c: "stop = 8 * c - 1" by simp
  have ac: "0 \<le> a" "a \<le> c" using assms(2,3) a c by simp_all
  define p n where "p = nat start div 8" and "n = nat ((stop - start + 1) div 8)"
  have "stop - start + 1 = 8 * (c - a)" using a c by simp
  then have "(stop - start + 1) div 8 = c - a" by simp
  then have n: "int n = c - a" using ac by (simp only: n_def)
  have p: "int p = a" using a ac
    by (simp add: p_def zdiv_int)
  have pn: "int (p + n) = c" using p n by simp
  have "bs_bits b \<le> 64 * length (bs_words b)"
    using assms(1) by (auto simp: bitstr_wf_def bitstr_words_def)
  then have len: "p + n \<le> 8 * length (bs_words b)"
    using pn c assms(4) by linarith
  have ff: "bit (0xff :: u8) k" if "k < 8" for k
    using bit_mask_iff [of 8 k, where 'a = u8] that by (simp add: mask_eq_exp_minus_1)
  have rng: "p \<le> i div 8 \<and> i div 8 < p + n \<longleftrightarrow> int i \<in> {start..stop}" for i
  proof -
    have "int (i div 8) = int i div 8" by (simp add: zdiv_int)
    then have "p \<le> i div 8 \<and> i div 8 < p + n \<longleftrightarrow> a \<le> int i div 8 \<and> int i div 8 < c"
      using p pn by linarith
    also have "\<dots> \<longleftrightarrow> 8 * a \<le> int i \<and> int i \<le> 8 * c - 1"
      using mult_div_mod_eq [of 8 "int i"] pos_mod_bound [of 8 "int i"] pos_mod_sign [of 8 "int i"]
      by linarith
    finally show ?thesis by (simp add: a c)
  qed
  define fb where "fb = (if v then 0xff else 0 :: u8)"
  have vb: "bit fb (i mod 8) = v" for i
    using ff [of "i mod 8"] by (simp add: fb_def)
  have "drop_bit 3 (nat start) = p" by (simp add: p_def drop_bit_eq_div)
  then show ?thesis
    unfolding filled_def n_def [symmetric] fb_def [symmetric]
    by (simp add: wbit_memset_words [OF len] rng vb)
qed

lemma bit_nfill_filled:
  assumes wf: "bitstr_wf b" and "0 \<le> start" "start < int (bs_bits b)"
    and "0 \<le> stop" "stop < int (bs_bits b)"
  obtains b' where "bit_nfill v b start stop = Some b'" and "filled v {start..stop} b b'"
proof -
  obtain b1 s1 where h: "nfill_head v b start stop = Some (b1, s1)"
    "filled v {start..<s1} b b1" "start \<le> s1" "start \<le> stop \<longrightarrow> s1 \<le> stop + 1"
    "s1 mod 8 = 0 \<or> stop < s1" "stop < start \<longrightarrow> s1 = start"
    using nfill_head_filled [OF wf assms(2,5), of v] by auto
  have wf1: "bitstr_wf b1" and sz1: "bs_bits b1 = bs_bits b"
    using h(2) wf by (auto simp: filled_wf) (simp add: filled_def)
  obtain b2 s2 where t: "nfill_tail v b1 s1 stop = Some (b2, s2)"
    "filled v {s2 + 1..stop} b1 b2" "s2 \<le> stop" "s1 \<le> stop + 1 \<longrightarrow> s1 \<le> s2 + 1"
    "(s2 + 1) mod 8 = 0 \<or> s2 < s1" "stop < s1 \<longrightarrow> s2 = stop"
    using nfill_tail_filled [OF wf1, of s1 stop v] h(3) assms sz1 by auto
  have wf2: "bitstr_wf b2" and sz2: "bs_bits b2 = bs_bits b"
    using t(2) wf1 sz1 by (auto simp: filled_wf) (simp add: filled_def)
  have f2: "filled v ({start..<s1} \<union> {s2 + 1..stop}) b b2"
    using h(2) t(2) by (rule filled_trans)
  show thesis
  proof (cases "s2 > s1")
    case True
    with h(5) t(3,5) have al: "s1 mod 8 = 0" "(s2 + 1) mod 8 = 0" by auto
    then have md: "(s2 - s1 + 1) mod 8 = 0" by presburger
    have "filled v {s1..s2} b2
      (b2\<lparr>bs_words := memset_words (drop_bit 3 (nat s1)) (if v then 0xff else 0)
                      (nat ((s2 - s1 + 1) div 8)) (bs_words b2)\<rparr>)" (is "filled _ _ _ ?b3")
      using wf2 sz2 True t(3) h(3) assms al by (intro memset_filled) auto
    with f2 have "filled v ({start..<s1} \<union> {s2 + 1..stop} \<union> {s1..s2}) b ?b3"
      by (rule filled_trans)
    moreover have "{start..<s1} \<union> {s2 + 1..stop} \<union> {s1..s2} = {start..stop}"
      using True h(3) t(3) by auto
    ultimately have "filled v {start..stop} b ?b3" by simp
    with True md wf assms h(1) t(1) that show thesis
      by (simp add: bit_nfill_def abort_simps)
  next
    case False
    have "s2 < s1 \<or> s2 = s1 \<and> s1 mod 8 = 0 \<and> (s1 + 1) mod 8 = 0"
      using False h(5) t(3,5) by auto
    then have "s2 < s1" by presburger
    then have "{start..<s1} \<union> {s2 + 1..stop} = {start..stop}"
      using h(3,4,6) t(3,4,6) by (cases "start \<le> stop") auto
    with f2 have "filled v {start..stop} b b2" by simp
    with False wf assms h(1) t(1) that show thesis
      by (simp add: bit_nfill_def abort_simps)
  qed
qed

lemma bit_nset_Some:
  assumes "bitstr_wf b" and "i < bs_bits b" and "j < bs_bits b"
  obtains b' where "bit_nset b (int i) (int j) = Some b'" and "filled True {int i..int j} b b'"
    and "bitstr_wf b'" and "bs_bits b' = bs_bits b" and "bits_of b' = bits_of b \<union> {i..j}"
proof -
  obtain b' where b': "bit_nfill True b (int i) (int j) = Some b'" "filled True {int i..int j} b b'"
    using bit_nfill_filled [OF assms(1), of "int i" "int j" True] assms by auto
  moreover from b'(2) assms have "bits_of b' = bits_of b \<union> {i..j}"
    by (auto simp: filled_bits_of)
  moreover from b'(2) have "bs_bits b' = bs_bits b" by (simp add: filled_def)
  ultimately show thesis using that assms(1) by (simp add: bit_nset_def filled_wf)
qed

lemma bit_nclear_Some:
  assumes "bitstr_wf b" and "i < bs_bits b" and "j < bs_bits b"
  obtains b' where "bit_nclear b (int i) (int j) = Some b'" and "filled False {int i..int j} b b'"
    and "bitstr_wf b'" and "bs_bits b' = bs_bits b" and "bits_of b' = bits_of b - {i..j}"
proof -
  obtain b' where b': "bit_nfill False b (int i) (int j) = Some b'" "filled False {int i..int j} b b'"
    using bit_nfill_filled [OF assms(1), of "int i" "int j" False] assms by auto
  moreover from b'(2) assms have "bits_of b' = bits_of b - {i..j}"
    by (auto simp: filled_bits_of)
  moreover from b'(2) have "bs_bits b' = bs_bits b" by (simp add: filled_def)
  ultimately show thesis using that assms(1) by (simp add: bit_nclear_def filled_wf)
qed



section \<open>Correctness of the word-parallel operations\<close>

lemma steps_words: "map bit_word (steps 64 n) = [0..<bitstr_words n]"
  by (simp add: steps_def bitstr_words_def bit_word_div comp_def add.commute)

lemma list_all_steps:
  "list_all (\<lambda>bt. P (bit_word bt)) (steps 64 n) \<longleftrightarrow> (\<forall>k < bitstr_words n. P k)"
proof -
  have "list_all (\<lambda>bt. P (bit_word bt)) (steps 64 n) = list_all P (map bit_word (steps 64 n))"
    by (simp add: list_all_iff)
  then show ?thesis by (auto simp: steps_words list_all_iff)
qed

lemma fold_word_update:
  assumes "distinct ks" and "set ks \<subseteq> {..<length (bs_words b)}"
  shows "fold (\<lambda>k b. b\<lparr>bs_words := (bs_words b)[k := f (bs_words b ! k) k]\<rparr>) ks b =
    b\<lparr>bs_words := map (\<lambda>k. if k \<in> set ks then f (bs_words b ! k) k else bs_words b ! k)
                    [0..<length (bs_words b)]\<rparr>"
  using assms
proof (induction ks arbitrary: b)
  case Nil
  then show ?case by (simp add: map_nth)
next
  case (Cons k ks)
  let ?b = "b\<lparr>bs_words := (bs_words b)[k := f (bs_words b ! k) k]\<rparr>"
  have "fold (\<lambda>k b. b\<lparr>bs_words := (bs_words b)[k := f (bs_words b ! k) k]\<rparr>) ks ?b =
    ?b\<lparr>bs_words := map (\<lambda>k. if k \<in> set ks then f (bs_words ?b ! k) k else bs_words ?b ! k)
                    [0..<length (bs_words ?b)]\<rparr>"
    using Cons.prems by (intro Cons.IH) auto
  also have "\<dots> = b\<lparr>bs_words := map (\<lambda>j. if j \<in> set (k # ks) then f (bs_words b ! j) j
                    else bs_words b ! j) [0..<length (bs_words b)]\<rparr>"
    using Cons.prems by (auto simp: nth_list_update)
  finally show ?case by simp
qed

lemma word_loop_words:
  assumes "bitstr_wf b1"
  shows "word_loop f b1 b2 =
    b1\<lparr>bs_words := map (\<lambda>k. f (bs_words b1 ! k) (bs_words b2 ! k)) [0..<length (bs_words b1)]\<rparr>"
proof -
  have "word_loop f b1 b2 =
    fold (\<lambda>k b. b\<lparr>bs_words := (bs_words b)[k := f (bs_words b ! k) (bs_words b2 ! k)]\<rparr>)
      (map bit_word (steps 64 (bs_bits b1))) b1"
    by (simp add: word_loop_def fold_map comp_def)
  also have "\<dots> = b1\<lparr>bs_words := map (\<lambda>k. f (bs_words b1 ! k) (bs_words b2 ! k))
                      [0..<length (bs_words b1)]\<rparr>"
    using assms fold_word_update [of "[0..<bitstr_words (bs_bits b1)]" b1 "\<lambda>x k. f x (bs_words b2 ! k)"]
    by (simp add: steps_words bitstr_wf_def lessThan_atLeast0)
  finally show ?thesis .
qed

lemma bits_of_word_loop:
  assumes "bitstr_wf b1"
    and "\<And>x y i. i < 64 \<Longrightarrow> bit (f x y) i = g (bit x i) (bit y i)"
  shows "bitstr_wf (word_loop f b1 b2)" and "bs_bits (word_loop f b1 b2) = bs_bits b1"
    and "bits_of (word_loop f b1 b2) =
      {i. i < bs_bits b1 \<and> g (i \<in> bits_of b1) (wbit (bs_words b2) i)}"
proof -
  have "wbit (bs_words (word_loop f b1 b2)) i = g (i \<in> bits_of b1) (wbit (bs_words b2) i)"
    if "i < bs_bits b1" for i
    using that assms bitstr_wf_index [OF assms(1) that]
    by (simp add: word_loop_words wbit_def bits_of_def)
  then show "bits_of (word_loop f b1 b2) =
      {i. i < bs_bits b1 \<and> g (i \<in> bits_of b1) (wbit (bs_words b2) i)}"
    by (auto simp: bits_of_def word_loop_words [OF assms(1)])
qed (use assms(1) in \<open>simp_all add: word_loop_words bitstr_wf_def\<close>)

lemma bit_and_Some:
  assumes wf: "bitstr_wf b1" "bitstr_wf b2" and sz: "bs_bits b1 = bs_bits b2"
  obtains b' where "bit_and b1 b2 = Some b'" and "bitstr_wf b'" and "bs_bits b' = bs_bits b1"
    and "bits_of b' = bits_of b1 \<inter> bits_of b2"
proof (rule that)
  have f: "bit (x AND y) i = (bit x i \<and> bit y i)" if "i < 64" for x y :: u64 and i
    using that by (simp add: bit_simps)
  note wl = bits_of_word_loop [OF wf(1), where f = "\<lambda>x y. x AND y" and g = "\<lambda>p q. p \<and> q" and ?b2.0 = b2, OF f]
  show "bit_and b1 b2 = Some (word_loop (\<lambda>x y. x AND y) b1 b2)"
    using wf sz by (simp add: bit_and_def abort_simps)
  show "bitstr_wf (word_loop (\<lambda>x y. x AND y) b1 b2)" by (rule wl(1))
  show "bs_bits (word_loop (\<lambda>x y. x AND y) b1 b2) = bs_bits b1" by (rule wl(2))
  show "bits_of (word_loop (\<lambda>x y. x AND y) b1 b2) = bits_of b1 \<inter> bits_of b2"
    using wl(3) sz by (auto simp: bits_of_def)
qed

lemma bit_or_Some:
  assumes wf: "bitstr_wf b1" "bitstr_wf b2" and sz: "bs_bits b1 = bs_bits b2"
  obtains b' where "bit_or b1 b2 = Some b'" and "bitstr_wf b'" and "bs_bits b' = bs_bits b1"
    and "bits_of b' = bits_of b1 \<union> bits_of b2"
proof (rule that)
  have f: "bit (x OR y) i = (bit x i \<or> bit y i)" if "i < 64" for x y :: u64 and i
    using that by (simp add: bit_simps)
  note wl = bits_of_word_loop [OF wf(1), where f = "\<lambda>x y. x OR y" and g = "\<lambda>p q. p \<or> q" and ?b2.0 = b2, OF f]
  show "bit_or b1 b2 = Some (word_loop (\<lambda>x y. x OR y) b1 b2)"
    using wf sz by (simp add: bit_or_def abort_simps)
  show "bitstr_wf (word_loop (\<lambda>x y. x OR y) b1 b2)" by (rule wl(1))
  show "bs_bits (word_loop (\<lambda>x y. x OR y) b1 b2) = bs_bits b1" by (rule wl(2))
  show "bits_of (word_loop (\<lambda>x y. x OR y) b1 b2) = bits_of b1 \<union> bits_of b2"
    using wl(3) sz by (auto simp: bits_of_def)
qed

lemma bit_and_not_Some:
  assumes wf: "bitstr_wf b1" "bitstr_wf b2" and sz: "bs_bits b1 = bs_bits b2"
  obtains b' where "bit_and_not b1 b2 = Some b'" and "bitstr_wf b'" and "bs_bits b' = bs_bits b1"
    and "bits_of b' = bits_of b1 - bits_of b2"
proof (rule that)
  have f: "bit (x AND NOT y) i = (bit x i \<and> \<not> bit y i)" if "i < 64" for x y :: u64 and i
    using that by (simp add: bit_simps)
  note wl = bits_of_word_loop [OF wf(1), where f = "\<lambda>x y. x AND NOT y" and g = "\<lambda>p q. p \<and> \<not> q" and ?b2.0 = b2, OF f]
  show "bit_and_not b1 b2 = Some (word_loop (\<lambda>x y. x AND NOT y) b1 b2)"
    using wf sz by (simp add: bit_and_not_def abort_simps)
  show "bitstr_wf (word_loop (\<lambda>x y. x AND NOT y) b1 b2)" by (rule wl(1))
  show "bs_bits (word_loop (\<lambda>x y. x AND NOT y) b1 b2) = bs_bits b1" by (rule wl(2))
  show "bits_of (word_loop (\<lambda>x y. x AND NOT y) b1 b2) = bits_of b1 - bits_of b2"
    using wl(3) sz by (auto simp: bits_of_def)
qed

lemma bit_not_Some:
  assumes wf: "bitstr_wf b"
  obtains b' where "bit_not b = Some b'" and "bitstr_wf b'" and "bs_bits b' = bs_bits b"
    and "bits_of b' = {..<bs_bits b} - bits_of b"
proof (rule that)
  have f: "bit (NOT x) i = (\<not> bit x i)" if "i < 64" for x :: u64 and i
    using that by (simp add: bit_simps)
  note wl = bits_of_word_loop [OF wf, where f = "\<lambda>x y. NOT x" and g = "\<lambda>p q. \<not> p" and ?b2.0 = b, OF f]
  show "bit_not b = Some (word_loop (\<lambda>x y. NOT x) b b)"
    using wf by (simp add: bit_not_def abort_simps)
  show "bitstr_wf (word_loop (\<lambda>x y. NOT x) b b)" by (rule wl(1))
  show "bs_bits (word_loop (\<lambda>x y. NOT x) b b) = bs_bits b" by (rule wl(2))
  show "bits_of (word_loop (\<lambda>x y. NOT x) b b) = {..<bs_bits b} - bits_of b"
    using wl(3) by (auto simp: bits_of_def)
qed

text \<open>
  The comparisons work on whole words: on clean bitmaps they decide inclusion and equality of
  the abstract values.
\<close>

lemma words_le_iff:
  assumes "bitstr_wf b1" and "bitstr_wf b2" and "bs_bits b1 = bs_bits b2"
    and cl: "bitstr_clean b1"
  shows "(\<forall>k < bitstr_words (bs_bits b1). bs_words b1 ! k = bs_words b1 ! k AND bs_words b2 ! k)
     \<longleftrightarrow> bits_of b1 \<subseteq> bits_of b2"
proof -
  let ?n = "bitstr_words (bs_bits b1)"
  have len: "length (bs_words b1) = ?n" using assms(1) by (simp add: bitstr_wf_def)
  have "(\<forall>k < ?n. bs_words b1 ! k = bs_words b1 ! k AND bs_words b2 ! k) \<longleftrightarrow>
    (\<forall>k < ?n. \<forall>r < 64. bit (bs_words b1 ! k) r \<longrightarrow> bit (bs_words b2 ! k) r)"
    by (auto simp: word_eq_by_bits bit_simps)
  also have "\<dots> \<longleftrightarrow> (\<forall>i < 64 * ?n. wbit (bs_words b1) i \<longrightarrow> wbit (bs_words b2) i)" (is "?L = ?R")
  proof
    assume L: ?L
    show ?R
    proof (intro allI impI)
      fix i assume "i < 64 * ?n" and "wbit (bs_words b1) i"
      moreover then have "i div 64 < ?n" by (simp add: less_mult_imp_div_less mult.commute)
      ultimately show "wbit (bs_words b2) i" using L by (simp add: wbit_def)
    qed
  next
    assume R: ?R
    show ?L
    proof (intro allI impI)
      fix k r assume "k < ?n" "r < 64" "bit (bs_words b1 ! k) r"
      then have "wbit (bs_words b1) (64 * k + r)" and "64 * k + r < 64 * ?n"
        by (simp_all add: wbit_def)
      with R have "wbit (bs_words b2) (64 * k + r)" by blast
      with \<open>r < 64\<close> show "bit (bs_words b2 ! k) r" by (simp add: wbit_def)
    qed
  qed
  also have "\<dots> \<longleftrightarrow> bits_of b1 \<subseteq> bits_of b2"
  proof -
    have "bs_bits b1 \<le> 64 * ?n" by (simp add: bitstr_words_def)
    moreover have "\<not> wbit (bs_words b1) i" if "bs_bits b1 \<le> i" "i < 64 * ?n" for i
      using cl that by (simp add: bitstr_clean_def len)
    ultimately have "(\<forall>i < 64 * ?n. wbit (bs_words b1) i \<longrightarrow> wbit (bs_words b2) i) \<longleftrightarrow>
      (\<forall>i < bs_bits b1. wbit (bs_words b1) i \<longrightarrow> wbit (bs_words b2) i)"
      by (meson less_le_trans not_le)
    then show ?thesis using assms(3) by (auto simp: bits_of_def)
  qed
  finally show ?thesis .
qed

lemma bit_super_set_Some:
  assumes "bitstr_wf b1" and "bitstr_wf b2" and "bs_bits b1 = bs_bits b2" and "bitstr_clean b1"
  shows "bit_super_set b1 b2 = Some (bits_of b1 \<subseteq> bits_of b2)"
  using assms words_le_iff [OF assms]
  by (simp add: bit_super_set_def abort_simps
      list_all_steps [where P = "\<lambda>k. bs_words b1 ! k = bs_words b1 ! k AND bs_words b2 ! k"])

lemma bit_equal_Some:
  assumes wf: "bitstr_wf b1" "bitstr_wf b2" and cl: "bitstr_clean b1" "bitstr_clean b2"
  shows "bit_equal b1 b2 = Some (bs_bits b1 = bs_bits b2 \<and> bits_of b1 = bits_of b2)"
proof (cases "bs_bits b1 = bs_bits b2")
  case True
  let ?n = "bitstr_words (bs_bits b1)"
  have "(\<forall>k < ?n. bs_words b1 ! k = bs_words b2 ! k) \<longleftrightarrow>
    (\<forall>k < ?n. bs_words b1 ! k = bs_words b1 ! k AND bs_words b2 ! k) \<and>
    (\<forall>k < ?n. bs_words b2 ! k = bs_words b2 ! k AND bs_words b1 ! k)"
    by (auto simp: and.commute [of "bs_words b2 ! _"])
  also have "\<dots> \<longleftrightarrow> bits_of b1 \<subseteq> bits_of b2 \<and> bits_of b2 \<subseteq> bits_of b1"
    using words_le_iff [OF wf True cl(1)] words_le_iff [OF wf(2,1) True [symmetric] cl(2)] True
    by simp
  finally show ?thesis
    using True wf
    by (simp add: bit_equal_def abort_simps set_eq_subset
        list_all_steps [where P = "\<lambda>k. bs_words b1 ! k = bs_words b2 ! k"])
next
  case False
  then show ?thesis using wf by (simp add: bit_equal_def abort_simps)
qed

lemma bit_alloc_Some:
  assumes "n \<le> 0x40000000"
  obtains b where "bit_alloc (int n) = Some b" and "bitstr_wf b" and "bs_bits b = n"
    and "bits_of b = {}" and "bitstr_clean b" and "bs_magic b = BITSTR_MAGIC"
proof -
  let ?b = "\<lparr>bs_magic = BITSTR_MAGIC, bs_bits = n, bs_words = replicate (bitstr_words n) 0\<rparr>"
  have "bit_alloc (int n) = Some ?b"
    using assms by (simp add: bit_alloc_def assert_valid_size_def)
  moreover have "bits_of ?b = {}"
    by (auto simp: bits_of_def wbit_def dest: bitstr_words_bound)
  moreover have "bitstr_clean ?b"
    by (auto simp: bitstr_clean_def wbit_def nth_replicate less_mult_imp_div_less mult.commute)
  ultimately show thesis using that assms by (simp add: bitstr_wf_def)
qed

lemma bit_realloc_shrink:
  assumes "bitstr_wf b" and "n \<le> bs_bits b"
  shows "\<exists>b'. bit_realloc b (int n) = Some b' \<and> bitstr_wf b' \<and> bs_bits b' = n \<and> bits_of b' = {i \<in> bits_of b. i < n}"
proof -
  let ?b = "b\<lparr>bs_bits := n, bs_words := take (bitstr_words n) (bs_words b)\<rparr>"
  have le: "bitstr_words n \<le> bitstr_words (bs_bits b)" using assms(2) by (simp add: bitstr_words_def div_le_mono)
  then have w: "length (bs_words ?b) = bitstr_words n" "bitstr_words n - length (bs_words b) = 0"
    using assms(1) by (auto simp: bitstr_wf_def)
  have "bit_realloc b (int n) = Some ?b"
    using assms w(2) by (simp add: bit_realloc_def assert_valid_size_def abort_simps bitstr_wf_def Let_def)
  moreover have "bits_of ?b = {i \<in> bits_of b. i < n}"
    using assms(2) by (auto simp: bits_of_def wbit_def dest: bitstr_words_bound)
  moreover have "bitstr_wf ?b" using assms w(1) by (simp add: bitstr_wf_def)
  ultimately show ?thesis by auto
qed

lemma bit_copy_Some [abort_simps]:
  assumes "bitstr_wf b"
  shows "bit_copy b = Some (b\<lparr>bs_magic := BITSTR_MAGIC\<rparr>)"
  using assms
  by (simp add: bit_copy_def abort_simps bit_alloc_def assert_valid_size_def bitstr_wf_def Let_def)

lemma bit_copybits_Some:
  assumes "bitstr_wf dest" and "bitstr_wf src" and "bs_bits src = bs_bits dest"
  shows "bit_copybits dest src = Some (dest\<lparr>bs_words := bs_words src\<rparr>)"
  using assms by (simp add: bit_copybits_def abort_simps bitstr_wf_def Let_def)


section \<open>The interface the clients use\<close>

text \<open>
  Clients of the bitmaps run loops over \<^verbatim>\<open>bit_test\<close>, \<^verbatim>\<open>bit_set\<close> and \<^verbatim>\<open>bit_clear\<close>. The
  locale states what those three promise of the abstract value; the effect of the loops
  follows from it once and for all.
\<close>

locale bitmap =
  fixes inv :: "'b \<Rightarrow> bool"
    and sz :: "'b \<Rightarrow> nat"
    and abs :: "'b \<Rightarrow> nat set"
    and test :: "'b \<Rightarrow> int \<Rightarrow> bool option"
    and put :: "bool \<Rightarrow> 'b \<Rightarrow> int \<Rightarrow> 'b option"
  assumes abs_bound: "i \<in> abs b \<Longrightarrow> i < sz b"
    and test_ok: "inv b \<Longrightarrow> i < sz b \<Longrightarrow> test b (int i) = Some (i \<in> abs b)"
    and put_ok: "inv b \<Longrightarrow> i < sz b \<Longrightarrow>
      \<exists>b'. put v b (int i) = Some b' \<and> inv b' \<and> sz b' = sz b \<and>
        abs b' = (if v then insert i (abs b) else abs b - {i})"
begin

lemma fill_loop:
  assumes "inv b" and "\<And>j. j \<in> set js \<Longrightarrow> g j < sz b"
  shows "\<exists>b'. forM js (\<lambda>j b. put v b (int (g j))) b = Some b' \<and> inv b' \<and> sz b' = sz b \<and>
    abs b' = (if v then abs b \<union> g ` set js else abs b - g ` set js)"
  using assms
proof (induction js arbitrary: b)
  case Nil
  then show ?case by simp
next
  case (Cons j js)
  then obtain b1 where b1: "put v b (int (g j)) = Some b1" "inv b1" "sz b1 = sz b"
    "abs b1 = (if v then insert (g j) (abs b) else abs b - {g j})"
    using put_ok [of b "g j" v] by auto
  with Cons.IH [of b1] Cons.prems(2) show ?case by (auto split: if_splits)
qed

lemma copy_loop:
  assumes "inv src" and "inv b"
    and "\<And>j. j \<in> set js \<Longrightarrow> f j < sz src" and "\<And>j. j \<in> set js \<Longrightarrow> g j < sz b"
  shows "\<exists>b'. forM js (\<lambda>j b. do { t \<leftarrow> test src (int (f j));
                              if t then put True b (int (g j)) else Some b }) b = Some b' \<and>
    inv b' \<and> sz b' = sz b \<and> abs b' = abs b \<union> g ` {j \<in> set js. f j \<in> abs src}"
  using assms
proof (induction js arbitrary: b)
  case Nil
  then show ?case by simp
next
  case (Cons j js)
  show ?case
  proof (cases "f j \<in> abs src")
    case True
    obtain b1 where b1: "put True b (int (g j)) = Some b1" "inv b1" "sz b1 = sz b"
      "abs b1 = insert (g j) (abs b)"
      using Cons.prems put_ok [of b "g j" True] by auto
    with Cons.IH [of b1] Cons.prems True show ?thesis by (auto simp: test_ok)
  next
    case False
    then have "{i \<in> set (j # js). f i \<in> abs src} = {i \<in> set js. f i \<in> abs src}" by auto
    with Cons.IH [of b] Cons.prems False show ?thesis by (simp add: test_ok)
  qed
qed

lemma count_loop:
  assumes "inv b" and "\<And>j. j \<in> set js \<Longrightarrow> f j < sz b"
  shows "forM js (\<lambda>j n. do { t \<leftarrow> test b (int (f j)); Some (if t then Suc n else n) }) n =
    Some (n + length (filter (\<lambda>j. f j \<in> abs b) js))"
  using assms by (induction js arbitrary: n) (auto simp: test_ok)

lemma exists_loop:
  assumes "inv b" and "\<And>j. j \<in> set js \<Longrightarrow> f j < sz b"
  shows "existsM js (\<lambda>j. test b (int (f j))) = Some (\<exists>j \<in> set js. f j \<in> abs b)"
  using assms by (induction js) (auto simp: test_ok)

end

interpretation bm: bitmap bitstr_wf bs_bits bits_of bit_test bit_put
proof
  show "\<exists>b'. bit_put v b (int i) = Some b' \<and> bitstr_wf b' \<and> bs_bits b' = bs_bits b \<and>
      bits_of b' = (if v then insert i (bits_of b) else bits_of b - {i})"
    if "bitstr_wf b" "i < bs_bits b" for b i v
    using that by (simp add: abort_simps abs_simps)
qed (simp_all add: bits_of_bound abort_simps)

lemma bit_put_eq: "bit_put True = bit_set" "bit_put False = bit_clear"
  by (auto simp: fun_eq_iff bit_put_def)

lemmas bit_copy_loop = bm.copy_loop [unfolded bit_put_eq]

section \<open>Properties of the bitmap operations\<close>

text \<open>Two concrete bitmaps of 70 bits, with bits 0, 2 and 65 and with bits 2 and 3 set.\<close>

definition sample1 :: bitstr where
  "sample1 = \<lparr>bs_magic = BITSTR_MAGIC, bs_bits = 70, bs_words = [5, 2]\<rparr>"

definition sample2 :: bitstr where
  "sample2 = \<lparr>bs_magic = BITSTR_MAGIC, bs_bits = 70, bs_words = [12, 0]\<rparr>"

lemma sample_simps [simp]:
  "bitstr_wf sample1" "bitstr_wf sample2" "bs_bits sample1 = 70" "bs_bits sample2 = 70"
  by (simp_all add: bitstr_wf_def sample1_def sample2_def bitstr_words_def)

lemma sample_clean: "bitstr_clean sample1" "bitstr_clean sample2"
proof -
  have "\<not> bit (2 :: u64) (i mod 64)" if "70 \<le> i" "i < 128" for i
  proof -
    have "i = 64 + (i - 64)" "i - 64 < 64" using that by auto
    then have "i mod 64 = i - 64" by (metis mod_add_self1 mod_less)
    then have "i mod 64 \<noteq> 1" using that by simp
    then show ?thesis using bit_exp_iff [of 1 "i mod 64", where 'a = "64 word"] by simp
  qed
  then show "bitstr_clean sample1" "bitstr_clean sample2"
    by (auto simp: bitstr_clean_def sample1_def sample2_def wbit_def nth_Cons')
qed

text \<open>
  C22: Setting (clearing) the bits from \<open>i\<close> to \<open>j\<close>, which the code does bit by bit up to a byte
  boundary and then with \<^verbatim>\<open>memset\<close>, never aborts on valid positions, keeps the bitmap
  well formed and adds (removes) exactly the positions \<open>i\<close> to \<open>j\<close>.
\<close>

theorem bit_nset_nclear_exact:
  assumes "bitstr_wf b" and "i < bs_bits b" and "j < bs_bits b"
  shows "(\<exists>b'. bit_nset b (int i) (int j) = Some b' \<and> bitstr_wf b' \<and> bs_bits b' = bs_bits b \<and>
            bits_of b' = bits_of b \<union> {i..j}) \<and>
         (\<exists>b'. bit_nclear b (int i) (int j) = Some b' \<and> bitstr_wf b' \<and> bs_bits b' = bs_bits b \<and>
            bits_of b' = bits_of b - {i..j})"
  using bit_nset_Some [OF assms] bit_nclear_Some [OF assms] by metis

theorem bit_nset_nclear_exact_witness:
  "\<exists>b'. bit_nset sample1 (int 3) (int 66) = Some b' \<and> bits_of b' = bits_of sample1 \<union> {3..66}"
  using bit_nset_nclear_exact [of sample1 3 66] by auto

text \<open>
  C23: The word-parallel boolean operations implement intersection, union, difference and
  complement of the sets of positions, and keep the bitmap well formed.
\<close>

theorem bit_boolean_ops:
  assumes "bitstr_wf b1" and "bitstr_wf b2" and "bs_bits b1 = bs_bits b2"
  shows "(\<exists>b'. bit_and b1 b2 = Some b' \<and> bitstr_wf b' \<and> bits_of b' = bits_of b1 \<inter> bits_of b2) \<and>
         (\<exists>b'. bit_or b1 b2 = Some b' \<and> bitstr_wf b' \<and> bits_of b' = bits_of b1 \<union> bits_of b2) \<and>
         (\<exists>b'. bit_and_not b1 b2 = Some b' \<and> bitstr_wf b' \<and> bits_of b' = bits_of b1 - bits_of b2) \<and>
         (\<exists>b'. bit_not b1 = Some b' \<and> bitstr_wf b' \<and> bits_of b' = {..<bs_bits b1} - bits_of b1)"
  using bit_and_Some [OF assms] bit_or_Some [OF assms] bit_and_not_Some [OF assms] bit_not_Some [OF assms(1)]
  by metis

theorem bit_boolean_ops_witness:
  "\<exists>b'. bit_and sample1 sample2 = Some b' \<and> bits_of b' = bits_of sample1 \<inter> bits_of sample2"
  using bit_boolean_ops [of sample1 sample2] by auto

text \<open>
  On bitmaps without stray bits past their end, the word comparisons of
  \<^verbatim>\<open>bit_super_set\<close> and \<^verbatim>\<open>bit_equal\<close> decide inclusion and equality of the sets of positions.
\<close>

theorem bit_comparisons:
  assumes "bitstr_wf b1" and "bitstr_wf b2" and "bs_bits b1 = bs_bits b2"
    and "bitstr_clean b1" and "bitstr_clean b2"
  shows "bit_super_set b1 b2 = Some (bits_of b1 \<subseteq> bits_of b2) \<and>
         bit_equal b1 b2 = Some (bits_of b1 = bits_of b2)"
  using bit_super_set_Some [OF assms(1-4)] bit_equal_Some [OF assms(1,2,4,5)] assms(3) by simp

theorem bit_comparisons_witness:
  "bit_super_set sample1 sample2 = Some (bits_of sample1 \<subseteq> bits_of sample2)"
  using bit_comparisons [of sample1 sample2] sample_clean by simp

text \<open>
  The stray bits matter. The complement of a 70-bit bitmap and the bitmap with all 70
  bits set hold the same positions when the first is empty, and \<^verbatim>\<open>bit_equal\<close> tells them apart.
\<close>

theorem bit_not_stray_bits:
  "\<exists>b full. bit_not \<lparr>bs_magic = BITSTR_MAGIC, bs_bits = 70, bs_words = [0, 0]\<rparr> = Some b \<and>
     bit_nset \<lparr>bs_magic = BITSTR_MAGIC, bs_bits = 70, bs_words = [0, 0]\<rparr> 0 69 = Some full \<and>
     bits_of b = bits_of full \<and> bit_equal b full = Some False"
proof -
  let ?z = "\<lparr>bs_magic = BITSTR_MAGIC, bs_bits = 70, bs_words = [0, 0]\<rparr> :: bitstr"
  have wf: "bitstr_wf ?z" and empty: "bits_of ?z = {}"
    by (auto simp: bitstr_wf_def bitstr_words_def bits_of_def wbit_def nth_Cons')
  obtain full where full: "bit_nset ?z (int 0) (int 69) = Some full" "filled True {int 0..int 69} ?z full"
    "bitstr_wf full" "bs_bits full = 70" "bits_of full = {0..69}"
    using bit_nset_Some [OF wf, of 0 69] empty by auto
  obtain b where b: "bit_not ?z = Some b" "bitstr_wf b" "bs_bits b = 70" "bits_of b = {..<70}"
    using bit_not_Some [OF wf] empty by auto
  have two: "[0..<2] = [0, 1 :: nat]" by (simp add: upt_rec)
  have "bs_words b = [NOT 0, NOT 0]"
    using b(1) wf by (auto simp: bit_not_def abort_simps word_loop_def steps_def bit_word_div two)
  then have "wbit (bs_words b) 70" by (simp add: wbit_def)
  moreover have "wbit (bs_words full) 70 = wbit [0, 0] 70" using full(2) unfolding filled_def by auto
  then have "\<not> wbit (bs_words full) 70" by (simp add: wbit_def)
  ultimately have "bs_words b ! 1 \<noteq> bs_words full ! 1"
    unfolding wbit_def by (simp, metis)
  then have "bit_equal b full = Some False"
    using b full by (simp add: bit_equal_def abort_simps steps_def bit_word_div two)
  moreover have "bits_of b = bits_of full" using b(4) full(5) by auto
  ultimately show ?thesis using b(1) full(1) by auto
qed

end
