(* ===== verification/Hweight.thy ===== *)
theory Hweight
  imports Prelude
begin

text \<open>
  The word population count of src/common/bitstring.c (\<^verbatim>\<open>hweight\<close>, taken there from the
  Linux kernel) and its equivalence with the number of set bits. The proof follows the
  algorithm: at each stage the word is a number written in base $2^k$, and one step adds
  neighbouring digits and doubles $k$.
\<close>

definition hweight :: "u64 \<Rightarrow> u64" where
  "hweight w =
     (let w = w - (drop_bit 1 w AND 0x5555555555555555);
          w = (w AND 0x3333333333333333) + (drop_bit 2 w AND 0x3333333333333333);
          w = (w + drop_bit 4 w) AND 0x0f0f0f0f0f0f0f0f
      in drop_bit 56 (w * 0x0101010101010101))"

text \<open>The number with digits \<open>ds\<close> (least significant first) in base $2^k$.\<close>

definition digits_val :: "nat \<Rightarrow> nat list \<Rightarrow> nat" where
  "digits_val k ds = horner_sum id (2 ^ k) ds"

fun evens :: "'a list \<Rightarrow> 'a list" where
  "evens (a # b # xs) = a # evens xs"
| "evens xs = xs"

fun odds :: "'a list \<Rightarrow> 'a list" where
  "odds (a # b # xs) = b # odds xs"
| "odds xs = []"

fun pairsum :: "nat list \<Rightarrow> nat list" where
  "pairsum (a # b # xs) = (a + b) # pairsum xs"
| "pairsum xs = xs"

text \<open>The mask that keeps the digits at even places, for \<open>n\<close> pairs of digits.\<close>

fun even_mask :: "nat \<Rightarrow> nat \<Rightarrow> nat" where
  "even_mask k 0 = 0"
| "even_mask k (Suc n) = mask k + 2 ^ (2 * k) * even_mask k n"

lemma digits_val_Nil [simp]: "digits_val k [] = 0"
  by (simp add: digits_val_def)

lemma digits_val_Cons [simp]: "digits_val k (d # ds) = d + 2 ^ k * digits_val k ds"
  by (simp add: digits_val_def)

lemma pow_double: "(2::nat) ^ (k * 2) = 2 ^ k * 2 ^ k"
  by (simp add: power_mult power2_eq_square)

lemma nat_and_split:
  fixes a c x y :: nat
  assumes "a < 2 ^ k" and "c < 2 ^ k"
  shows "(a + 2 ^ k * x) AND (c + 2 ^ k * y) = (a AND c) + 2 ^ k * (x AND y)"
proof -
  let ?l = "(a + 2 ^ k * x) AND (c + 2 ^ k * y)"
  have "drop_bit k (a + 2 ^ k * x) = x" "drop_bit k (c + 2 ^ k * y) = y"
    using assms by (simp_all add: drop_bit_eq_div)
  then have d: "drop_bit k ?l = x AND y" by (simp only: drop_bit_and)
  have "take_bit k (a + 2 ^ k * x) = a" "take_bit k (c + 2 ^ k * y) = c"
    using assms by (simp_all add: take_bit_eq_mod)
  then have t: "take_bit k ?l = a AND c" by (simp only: take_bit_and)
  have "push_bit k (x AND y) + (a AND c) = ?l"
    using bits_ident [of k ?l] unfolding d t .
  then show ?thesis unfolding push_bit_eq_mult by (simp only: ac_simps)
qed

lemma nat_and_mask: "(a::nat) < 2 ^ k \<Longrightarrow> a AND mask k = a"
  by (simp add: take_bit_eq_mod flip: take_bit_eq_mask)

lemma digits_even_mask:
  assumes "\<forall>d \<in> set ds. d < 2 ^ k" and "length ds = 2 * n"
  shows "digits_val k ds AND even_mask k n = digits_val (2 * k) (evens ds)"
  using assms
proof (induction ds arbitrary: n rule: evens.induct)
  case (1 a b xs)
  then obtain m where n: "n = Suc m" "length xs = 2 * m" by (cases n) auto
  have bnd: "a < 2 ^ k" "b < 2 ^ k" using 1 by auto
  have ab: "a + 2 ^ k * b < 2 ^ (2 * k)"
  proof -
    have "a + 2 ^ k * b < 2 ^ k * (b + 1)" using bnd by simp
    also have "\<dots> \<le> 2 ^ k * 2 ^ k" using bnd by (intro mult_le_mono2) simp
    finally show ?thesis by (simp add: mult_2 power_add)
  qed
  have mk: "mask k < (2::nat) ^ (2 * k)"
    by (simp add: mask_eq_exp_minus_1 less_le_trans [of _ "2 ^ k"])
  have "digits_val k (a # b # xs) = (a + 2 ^ k * b) + 2 ^ (2 * k) * digits_val k xs"
    by (simp add: pow_double algebra_simps)
  then have "digits_val k (a # b # xs) AND even_mask k n =
    ((a + 2 ^ k * b) AND mask k) + 2 ^ (2 * k) * (digits_val k xs AND even_mask k m)"
    using nat_and_split [OF ab mk] n by (simp only: even_mask.simps)
  moreover have "(a + 2 ^ k * b) AND mask k = a"
    using bnd by (simp add: take_bit_eq_mod flip: take_bit_eq_mask)
  ultimately show ?case using 1 n by simp
qed auto

lemma digits_drop:
  "\<forall>d \<in> set ds. d < 2 ^ k \<Longrightarrow> drop_bit k (digits_val k ds) = digits_val k (tl ds)"
  by (cases ds) (auto simp: drop_bit_eq_div)

lemma evens_tl:
  "length ds = 2 * n \<Longrightarrow> digits_val (2 * k) (evens (tl ds @ [0])) = digits_val (2 * k) (odds ds)"
proof (induction ds arbitrary: n rule: odds.induct)
  case (1 a b xs)
  then obtain m where "length xs = 2 * m" by (cases n) auto
  then show ?case
    using "1.IH" [of m] by (cases xs) auto
qed auto

lemma digits_val_snoc0 [simp]: "digits_val k (ds @ [0]) = digits_val k ds"
  by (induction ds) auto

lemma digits_odd_mask:
  assumes "\<forall>d \<in> set ds. d < 2 ^ k" and "length ds = 2 * n"
  shows "drop_bit k (digits_val k ds) AND even_mask k n = digits_val (2 * k) (odds ds)"
proof (cases ds)
  case Nil
  then show ?thesis using assms by simp
next
  case (Cons d xs)
  have "drop_bit k (digits_val k ds) = digits_val k (tl ds @ [0])"
    using digits_drop [OF assms(1)] by simp
  moreover have "\<forall>d \<in> set (tl ds @ [0]). d < 2 ^ k" and "length (tl ds @ [0]) = 2 * n"
    using assms Cons by auto
  ultimately show ?thesis
    using digits_even_mask [of "tl ds @ [0]" k n] evens_tl [OF assms(2)] by simp
qed

lemma digits_evens_odds:
  "length ds = 2 * n \<Longrightarrow>
     digits_val k ds = digits_val (2 * k) (evens ds) + 2 ^ k * digits_val (2 * k) (odds ds)"
proof (induction ds arbitrary: n rule: evens.induct)
  case (1 a b xs)
  then obtain m where "length xs = 2 * m" by (cases n) auto
  with 1 show ?case by (simp add: pow_double algebra_simps)
qed auto

lemma digits_pairsum:
  "length ds = 2 * n \<Longrightarrow>
     digits_val k (evens ds) + digits_val k (odds ds) = digits_val k (pairsum ds)"
proof (induction ds arbitrary: n rule: pairsum.induct)
  case (1 a b xs)
  then obtain m where "length xs = 2 * m" by (cases n) auto
  then have "digits_val k (pairsum xs) = digits_val k (evens xs) + digits_val k (odds xs)"
    using "1.IH" by simp
  then show ?case by (simp add: algebra_simps)
qed auto

lemma pairsum_length: "length ds = 2 * n \<Longrightarrow> length (pairsum ds) = n"
proof (induction ds arbitrary: n rule: pairsum.induct)
  case (1 a b xs)
  then show ?case by (cases n) auto
qed auto

lemma pairsum_bound: "\<forall>d \<in> set ds. d \<le> B \<Longrightarrow> \<forall>d \<in> set (pairsum ds). d \<le> 2 * B"
  by (induction ds rule: pairsum.induct) auto

lemma pairsum_sum [simp]: "sum_list (pairsum ds) = sum_list ds"
  by (induction ds rule: pairsum.induct) auto


lemma val8_top:
  assumes "\<forall>d \<in> set ds. d \<le> 8" and "length ds = 8"
  shows "(digits_val 8 ds * 0x0101010101010101) mod 2 ^ 64 div 2 ^ 56 = sum_list ds"
proof -
  obtain a b c d e f g h where ds: "ds = [a, b, c, d, e, f, g, h]"
    using assms(2) by (auto simp: length_Suc_conv numeral_eq_Suc)
  have bd: "a \<le> 8" "b \<le> 8" "c \<le> 8" "d \<le> 8" "e \<le> 8" "f \<le> 8" "g \<le> 8" "h \<le> 8"
    using assms(1) ds by auto
  define s2 s3 s4 s5 s6 s7 where "s2 = a + b" and "s3 = s2 + c" and "s4 = s3 + d"
    and "s5 = s4 + e" and "s6 = s5 + f" and "s7 = s6 + g"
  note sums = s2_def s3_def s4_def s5_def s6_def s7_def
  define L where "L = a + 256 * s2 + 65536 * s3 + 16777216 * s4 + 4294967296 * s5 +
    1099511627776 * s6 + 281474976710656 * s7"
  define H where "H = (b + c + d + e + f + g + h) + 256 * (c + d + e + f + g + h) +
    65536 * (d + e + f + g + h) + 16777216 * (e + f + g + h) + 4294967296 * (f + g + h) +
    1099511627776 * (g + h) + 281474976710656 * h"
  define S where "S = a + b + c + d + e + f + g + h"
  have "s2 \<le> 16" "s3 \<le> 24" "s4 \<le> 32" "s5 \<le> 40" "s6 \<le> 48" "s7 \<le> 56"
    unfolding sums using bd by linarith+
  then have L: "L < 72057594037927936"
    unfolding L_def using bd(1) by linarith
  have S: "S < 256" unfolding S_def using bd by linarith
  have "digits_val 8 ds * 0x0101010101010101 =
      L + 72057594037927936 * S + 18446744073709551616 * H"
    by (simp add: ds L_def H_def S_def sums)
  then have "digits_val 8 ds * 0x0101010101010101 mod 18446744073709551616
      = L + 72057594037927936 * S"
    using L S by simp
  moreover have "(L + 72057594037927936 * S) div 72057594037927936 = S"
    using L by simp
  ultimately have "digits_val 8 ds * 0x0101010101010101 mod 18446744073709551616
      div 72057594037927936 = S"
    by (simp only:)
  moreover have "S = sum_list ds" by (simp add: ds S_def)
  ultimately show ?thesis by simp
qed

text \<open>The third step of the algorithm adds before it masks; no digit overflows.\<close>

lemma digits_add:
  "length xs = length ys \<Longrightarrow> digits_val k xs + digits_val k ys = digits_val k (map2 (+) xs ys)"
proof (induction xs ys rule: list_induct2)
  case (Cons x xs y ys)
  from Cons.IH [symmetric] show ?case by (simp add: algebra_simps)
qed simp

lemma evens_shift_add:
  "length ds = 2 * n \<Longrightarrow> evens (map2 (+) ds (tl ds @ [0])) = pairsum ds"
proof (induction ds arbitrary: n rule: pairsum.induct)
  case (1 a b xs)
  then obtain m where "length xs = 2 * m" by (cases n) auto
  with "1.IH" [of m] show ?case by (cases xs) auto
qed auto

lemma digits_shift_add:
  assumes "\<forall>d \<in> set ds. d \<le> B" and "2 * B < 2 ^ k" and "length ds = 2 * n"
  obtains es where "digits_val k ds + drop_bit k (digits_val k ds) = digits_val k es"
    and "\<forall>d \<in> set es. d < 2 ^ k" and "length es = 2 * n" and "evens es = pairsum ds"
proof (cases ds)
  case Nil
  then show ?thesis using assms that [of "[]"] by simp
next
  case (Cons d xs)
  have lt: "\<forall>d \<in> set ds. d < 2 ^ k" using assms by force
  let ?es = "map2 (+) ds (tl ds @ [0])"
  have len: "length (tl ds @ [0]) = length ds" using Cons by simp
  have "digits_val k ds + drop_bit k (digits_val k ds) = digits_val k ?es"
    using digits_drop [OF lt] digits_add [of ds "tl ds @ [0]" k] len by simp
  moreover have "\<forall>d \<in> set ?es. d < 2 ^ k"
  proof
    fix x assume "x \<in> set ?es"
    then obtain i where i: "i < length ds" "x = ds ! i + (tl ds @ [0]) ! i"
      using len by (auto simp: in_set_conv_nth)
    then have "ds ! i \<le> B" using assms(1) by simp
    moreover have "(tl ds @ [0]) ! i \<in> set (tl ds @ [0])" using i(1) len by (intro nth_mem) simp
    then have "(tl ds @ [0]) ! i \<le> B" using assms(1) Cons by auto
    ultimately show "x < 2 ^ k" using assms(2) i(2) by simp
  qed
  ultimately show ?thesis
    using that [of ?es] evens_shift_add [OF assms(3)] assms(3) len by simp
qed

lemma digits_val_less: "\<forall>d \<in> set ds. d < 2 ^ k \<Longrightarrow> digits_val k ds < 2 ^ (k * length ds)"
proof (induction ds)
  case (Cons d ds)
  then have "d + 2 ^ k * digits_val k ds < 2 ^ k * (digits_val k ds + 1)" by simp
  also have "\<dots> \<le> 2 ^ k * 2 ^ (k * length ds)"
    using Cons by (intro mult_le_mono2) simp
  finally show ?case by (simp add: power_add)
qed simp


section \<open>hweight counts the set bits\<close>

definition word_digits :: "u64 \<Rightarrow> nat list" where
  "word_digits w = map (\<lambda>i. of_bool (bit w i)) [0..<64]"

lemma unat_word_digits: "unat w = digits_val 1 (word_digits w)"
proof -
  have "horner_sum of_bool 2 (map (bit w) [0..<64]) = (take_bit 64 w :: u64)"
    by (rule horner_sum_bit_eq_take_bit)
  then have "unat w = unat (horner_sum of_bool 2 (map (bit w) [0..<64]) :: u64)"
    by (simp add: take_bit_word_eq_self)
  have "horner_sum of_bool 2 (map (bit (unat w)) [0..<64]) = take_bit 64 (unat w)"
    by (rule horner_sum_bit_eq_take_bit)
  moreover have "take_bit 64 (unat w) = unat w"
    using unsigned_take_bit_eq [of 64 w, where 'a = nat] by (simp add: take_bit_word_eq_self)
  moreover have "map (bit (unat w)) [0..<64] = map (bit w) [0..<64]"
    by (simp add: bit_unsigned_iff)
  ultimately have "unat w = horner_sum of_bool 2 (map (bit w) [0..<64])" by simp
  also have "\<dots> = digits_val 1 (word_digits w)"
    by (simp add: digits_val_def word_digits_def horner_sum_eq_sum)
  finally show ?thesis .
qed

lemma sum_of_bool_card: "sum_list (map (\<lambda>i. of_bool (P i)) [0..<n]) = card {i. i < n \<and> P i}"
proof (induction n)
  case (Suc n)
  have "{i. i < Suc n \<and> P i} = (if P n then insert n {i. i < n \<and> P i} else {i. i < n \<and> P i})"
    by (auto simp: less_Suc_eq)
  with Suc show ?case by simp
qed simp

lemma sum_word_digits: "sum_list (word_digits w) = card {i. i < 64 \<and> bit w i}"
  unfolding word_digits_def by (rule sum_of_bool_card)

lemma even_mask_numeral:
  "even_mask k (numeral v) = mask k + 2 ^ (2 * k) * even_mask k (pred_numeral v)"
  by (simp add: numeral_eq_Suc)

theorem hweight_popcount: "unat (hweight w) = card {i. i < 64 \<and> bit w i}"
proof -
  define d1 where "d1 = word_digits w"
  define d2 d4 d8 where "d2 = pairsum d1" and "d4 = pairsum d2" and "d8 = pairsum d4"
  have "length d1 = 64" unfolding d1_def word_digits_def by (simp only: length_map length_upt)
  then have len: "length d1 = 2 * 32" "length d2 = 2 * 16" "length d4 = 2 * 8" "length d8 = 8"
    by (simp_all add: d2_def d4_def d8_def pairsum_length)
  have b1: "\<forall>d \<in> set d1. d \<le> 1" by (auto simp only: d1_def word_digits_def set_map of_bool_def split: if_splits)
  have b2: "\<forall>d \<in> set d2. d \<le> 2" using pairsum_bound [OF b1] by (simp add: d2_def)
  have b4: "\<forall>d \<in> set d4. d \<le> 4" using pairsum_bound [OF b2] by (simp add: d4_def)
  have b8: "\<forall>d \<in> set d8. d \<le> 8" using pairsum_bound [OF b4] by (simp add: d8_def)
  have m1: "even_mask 1 32 = 0x5555555555555555"
    by (simp add: even_mask_numeral mask_eq_exp_minus_1)
  have m2: "even_mask 2 16 = 0x3333333333333333"
    by (simp add: even_mask_numeral mask_eq_exp_minus_1)
  have m4: "even_mask 4 8 = 0x0f0f0f0f0f0f0f0f"
    by (simp add: even_mask_numeral mask_eq_exp_minus_1)
  have l1: "\<forall>d \<in> set d1. d < 2 ^ 1" and l2: "\<forall>d \<in> set d2. d < 2 ^ 2"
    and l4: "\<forall>d \<in> set d4. d < 2 ^ 4"
    using b1 b2 b4 by force+
  have d2: "digits_val 2 (evens d1) + digits_val 2 (odds d1) = digits_val 2 d2"
    using digits_pairsum [OF len(1), of 2] by (simp add: d2_def)
  have d4: "digits_val 4 (evens d2) + digits_val 4 (odds d2) = digits_val 4 d4"
    using digits_pairsum [OF len(2), of 4] by (simp add: d4_def)

  have uw: "unat w = digits_val 1 d1" unfolding d1_def by (rule unat_word_digits)
  define w1 where "w1 = w - (drop_bit 1 w AND 0x5555555555555555)"
  have o1: "unat (drop_bit 1 w AND 0x5555555555555555) = digits_val 2 (odds d1)"
    using digits_odd_mask [OF l1 len(1)] m1
    by (simp add: unsigned_and_eq unat_drop_bit_eq uw)
  have w: "unat w = digits_val 2 (evens d1) + 2 * digits_val 2 (odds d1)"
    using digits_evens_odds [OF len(1), of 1] by (simp add: uw)
  have w1: "unat w1 = digits_val 2 d2"
    unfolding w1_def using o1 w d2 by (subst unat_sub) (simp_all add: word_le_nat_alt)

  define w2 where "w2 = (w1 AND 0x3333333333333333) + (drop_bit 2 w1 AND 0x3333333333333333)"
  have e2: "unat (w1 AND 0x3333333333333333) = digits_val 4 (evens d2)"
    using digits_even_mask [OF l2 len(2)] m2 by (simp add: unsigned_and_eq w1)
  have o2: "unat (drop_bit 2 w1 AND 0x3333333333333333) = digits_val 4 (odds d2)"
    using digits_odd_mask [OF l2 len(2)] m2
    by (simp add: unsigned_and_eq unat_drop_bit_eq w1)
  have w2: "unat w2 = digits_val 4 d4"
    using digits_val_less [OF l4] len e2 o2 d4 by (simp add: w2_def unat_word_ariths)

  define w3 where "w3 = (w2 + drop_bit 4 w2) AND 0x0f0f0f0f0f0f0f0f"
  obtain es where es: "digits_val 4 d4 + drop_bit 4 (digits_val 4 d4) = digits_val 4 es"
    "\<forall>d \<in> set es. d < 2 ^ 4" "length es = 2 * 8" "evens es = d8"
    using digits_shift_add [OF b4 _ len(3), of 4] by (auto simp: d8_def)
  have "unat (w2 + drop_bit 4 w2) = digits_val 4 es"
    using digits_val_less [OF es(2)] es(1,3) w2
    by (simp add: unat_word_ariths unat_drop_bit_eq)
  then have w3: "unat w3 = digits_val 8 d8"
    using digits_even_mask [OF es(2,3)] es(4) m4 by (simp add: w3_def unsigned_and_eq)

  have "unat (hweight w) = unat (drop_bit 56 (w3 * 0x0101010101010101))"
    by (simp add: hweight_def Let_def w1_def w2_def w3_def)
  also have "\<dots> = digits_val 8 d8 * 0x0101010101010101 mod 2 ^ 64 div 2 ^ 56"
    by (simp add: unat_drop_bit_eq drop_bit_eq_div unat_word_ariths w3)
  also have "\<dots> = sum_list d8" by (rule val8_top [OF b8 len(4)])
  also have "\<dots> = card {i. i < 64 \<and> bit w i}"
    by (simp add: d8_def d4_def d2_def d1_def sum_word_digits)
  finally show ?thesis .
qed

end
