(* ===== verification/Bitstring_Count.thy ===== *)
theory Bitstring_Count
  imports Bitstring Hweight
begin

text \<open>
  Counting and rank operations of src/common/bitstring.c: the population counts over whole
  bitmaps, ranges and pairs of bitmaps, the selection of the first set bits, the longest run,
  and the translation between positions and ranks.
\<close>

section \<open>Definitions\<close>

text \<open>
  The loop \<^verbatim>\<open>for (; (bit + word_size) <= end; bit += word_size) count += hweight(...)\<close> visits
  the starts of the whole words that fit between \<open>a\<close> and \<open>e\<close>, and leaves \<^verbatim>\<open>bit\<close> behind
  the last of them.
\<close>

definition whole_words :: "nat \<Rightarrow> nat \<Rightarrow> nat list" where
  "whole_words a e = map (\<lambda>k. a + 64 * k) [0..<(e - a) div 64]"

definition whole_words_end :: "nat \<Rightarrow> nat \<Rightarrow> nat" where
  "whole_words_end a e = a + 64 * ((e - a) div 64)"

definition count_bits :: "bitstr \<Rightarrow> nat list \<Rightarrow> nat \<Rightarrow> nat option" where
  "count_bits b bts c =
     forM bts (\<lambda>bt n. do { t \<leftarrow> bit_test b (int bt); Some (if t then Suc n else n) }) c"

definition bit_set_count :: "bitstr \<Rightarrow> int option" where
  "bit_set_count b = do {
     assert_bitstr_valid b;
     (let bit_cnt = bs_bits b;
          count = fold (\<lambda>bt c. c + unat (hweight (bs_words b ! bit_word bt)))
                    (whole_words 0 bit_cnt) 0
      in do {
        count \<leftarrow> count_bits b [whole_words_end 0 bit_cnt..<bit_cnt] count;
        Some (int count) }) }"

definition bit_set_count_range :: "bitstr \<Rightarrow> int \<Rightarrow> int \<Rightarrow> int option" where
  "bit_set_count_range b start end_pos = do {
     assert_bitstr_valid b;
     assert_bit_valid b start;
     (let e = nat (min end_pos (int (bs_bits b)));
          s = nat start;
          eow = ((s + 63) div 64) * 64;
          first_end = max s (min e eow)
      in do {
        count \<leftarrow> count_bits b [s..<first_end] 0;
        (let count = fold (\<lambda>bt c. c + unat (hweight (bs_words b ! bit_word bt)))
                       (whole_words first_end e) count
         in do {
           count \<leftarrow> count_bits b [whole_words_end first_end e..<e] count;
           Some (int count) }) }) }"

definition bit_overlap :: "bitstr \<Rightarrow> bitstr \<Rightarrow> int option" where
  "bit_overlap b1 b2 = do {
     assert_bitstr_valid b1;
     assert_bitstr_valid b2;
     assertC (bs_bits b1 = bs_bits b2);
     (let bit_cnt = bs_bits b1;
          count = fold (\<lambda>bt c. c + unat (hweight (bs_words b1 ! bit_word bt AND
                                                  bs_words b2 ! bit_word bt)))
                    (whole_words 0 bit_cnt) 0
      in do {
        count \<leftarrow> forM [whole_words_end 0 bit_cnt..<bit_cnt]
                   (\<lambda>bt n. do { t1 \<leftarrow> bit_test b1 (int bt);
                               t2 \<leftarrow> (if t1 then bit_test b2 (int bt) else Some False);
                               Some (if t2 then Suc n else n) }) count;
        Some (int count) }) }"

definition bit_clear_count :: "bitstr \<Rightarrow> int option" where
  "bit_clear_count b = do {
     assert_bitstr_valid b;
     c \<leftarrow> bit_set_count b;
     Some (int (bs_bits b) - c) }"

definition bit_clear_count_range :: "bitstr \<Rightarrow> int \<Rightarrow> int \<Rightarrow> int option" where
  "bit_clear_count_range b start end_pos = do {
     assert_bitstr_valid b;
     (let diff = end_pos - start in
      if diff < 1 then Some 0
      else do { c \<leftarrow> bit_set_count_range b start end_pos; Some (diff - c) }) }"

fun nset_max_loop :: "bitstr \<Rightarrow> nat list \<Rightarrow> nat \<Rightarrow> nat \<Rightarrow> nat option" where
  "nset_max_loop b [] cnt maxcnt = Some maxcnt"
| "nset_max_loop b (bt # bts) cnt maxcnt = do {
     t \<leftarrow> bit_test b (int bt);
     (let cnt' = (if t then Suc cnt else 0);
          maxcnt' = (if t \<and> cnt' > maxcnt then cnt' else maxcnt)
      in if cnt' = 0 \<and> bs_bits b - bt < maxcnt' then Some maxcnt'
         else nset_max_loop b bts cnt' maxcnt') }"

definition bit_nset_max_count :: "bitstr \<Rightarrow> int option" where
  "bit_nset_max_count b = do {
     assert_bitstr_valid b;
     m \<leftarrow> nset_max_loop b [0..<bs_bits b] 0 0;
     Some (int m) }"

text \<open>
  \<^verbatim>\<open>bit_pick_cnt\<close>: \<open>Some None\<close> is the NULL result. The inner bit-by-bit loop stops only when
  the outer condition fails, so its result is that of the outer loop.
\<close>

fun pick_bits :: "bitstr \<Rightarrow> int \<Rightarrow> nat list \<Rightarrow> nat \<Rightarrow> bitstr \<Rightarrow> (nat \<times> bitstr) option" where
  "pick_bits b nbits [] count new = Some (count, new)"
| "pick_bits b nbits (bt # bts) count new =
     (if int count < nbits
      then do {
        t \<leftarrow> bit_test b (int bt);
        (if t then do { new' \<leftarrow> bit_set new (int bt); pick_bits b nbits bts (Suc count) new' }
         else pick_bits b nbits bts count new) }
      else Some (count, new))"

function pick_words :: "bitstr \<Rightarrow> int \<Rightarrow> nat \<Rightarrow> nat \<Rightarrow> bitstr \<Rightarrow> (nat \<times> bitstr) option" where
  "pick_words b nbits bt count new =
     (if bt < bs_bits b \<and> int count < nbits
      then let w = bit_word bt in
           if bs_words b ! w = 0 then pick_words b nbits (bt + 64) count new
           else let new_bits = unat (hweight (bs_words b ! w)) in
                if int (count + new_bits) \<le> nbits \<and> bt + 63 < bs_bits b
                then pick_words b nbits (bt + 64) (count + new_bits)
                       (new\<lparr>bs_words := (bs_words new)[w := bs_words b ! w]\<rparr>)
                else pick_bits b nbits [bt..<bs_bits b] count new
      else Some (count, new))"
  by pat_completeness auto
termination
  by (relation "measure (\<lambda>(b, nbits, bt, count, new). bs_bits b - bt)") auto

declare pick_words.simps [simp del]

definition bit_pick_cnt :: "bitstr \<Rightarrow> int \<Rightarrow> bitstr option option" where
  "bit_pick_cnt b nbits = do {
     assert_bitstr_valid b;
     (if int (bs_bits b) < nbits then Some None
      else do {
        n \<leftarrow> bit_size b;
        new \<leftarrow> bit_alloc n;
        (count, new) \<leftarrow> pick_words b nbits 0 0 new;
        (if int count < nbits then do { bit_free new; Some None }
         else Some (Some new)) }) }"

fun get_bit_num_loop :: "bitstr \<Rightarrow> int \<Rightarrow> nat list \<Rightarrow> nat \<Rightarrow> int option" where
  "get_bit_num_loop b pos [] cnt = Some (-1)"
| "get_bit_num_loop b pos (bt # bts) cnt = do {
     t \<leftarrow> bit_test b (int bt);
     (if t then if int cnt = pos then Some (int bt) else get_bit_num_loop b pos bts (Suc cnt)
      else get_bit_num_loop b pos bts cnt) }"

definition bit_get_bit_num :: "bitstr \<Rightarrow> int \<Rightarrow> int option" where
  "bit_get_bit_num b pos = do {
     assert_bitstr_valid b;
     assertC (pos \<le> int (bs_bits b));
     get_bit_num_loop b pos [0..<bs_bits b] 0 }"

definition bit_get_pos_num :: "bitstr \<Rightarrow> int \<Rightarrow> int option" where
  "bit_get_pos_num b pos = do {
     assert_bitstr_valid b;
     assertC (pos \<le> int (bs_bits b));
     t \<leftarrow> bit_test b pos;
     (if \<not> t then Some (-1)
      else do { c \<leftarrow> count_bits b [0..<nat pos + 1] 0; Some (int c - 1) }) }"


section \<open>Counting\<close>

definition bits_between :: "u64 list \<Rightarrow> nat \<Rightarrow> nat \<Rightarrow> nat" where
  "bits_between ws a e = card {i \<in> {a..<e}. wbit ws i}"

lemma bits_between_split:
  "a \<le> m \<Longrightarrow> m \<le> e \<Longrightarrow> bits_between ws a e = bits_between ws a m + bits_between ws m e"
proof -
  assume "a \<le> m" "m \<le> e"
  then have "{i \<in> {a..<e}. wbit ws i} = {i \<in> {a..<m}. wbit ws i} \<union> {i \<in> {m..<e}. wbit ws i}"
    by auto
  moreover have "{i \<in> {a..<m}. wbit ws i} \<inter> {i \<in> {m..<e}. wbit ws i} = {}" by auto
  ultimately show ?thesis by (simp add: bits_between_def card_Un_disjoint)
qed

lemma bits_between_empty [simp]: "e \<le> a \<Longrightarrow> bits_between ws a e = 0"
  by (simp add: bits_between_def)

lemma bits_between_word:
  assumes "a mod 64 = 0"
  shows "bits_between ws a (a + 64) = unat (hweight (ws ! bit_word a))"
proof -
  obtain q where q: "a = 64 * q" using assms by (auto elim: dvdE)
  have "wbit ws (64 * q + r) = bit (ws ! q) r" if "r < 64" for r
    using that by (simp add: wbit_def)
  moreover have "{a..<a + 64} = (\<lambda>r. a + r) ` {..<64}"
    by (simp add: lessThan_atLeast0 add.commute)
  ultimately have "{i \<in> {a..<a + 64}. wbit ws i} = (\<lambda>r. a + r) ` {r. r < 64 \<and> bit (ws ! q) r}"
    by (auto simp: q)
  moreover have "bit_word a = q" by (simp add: bit_word_div q)
  ultimately show ?thesis
    by (simp add: bits_between_def hweight_popcount card_image)
qed


lemma fold_whole_words:
  assumes "a mod 64 = 0"
  shows "fold (\<lambda>bt c. c + unat (hweight (ws ! bit_word bt))) (whole_words a e) c =
    c + bits_between ws a (whole_words_end a e)"
proof -
  have "fold (\<lambda>bt c. c + unat (hweight (ws ! bit_word bt))) (map (\<lambda>k. a + 64 * k) [0..<m]) c =
    c + bits_between ws a (a + 64 * m)" for m
  proof (induction m)
    case (Suc m)
    have "(a + 64 * m) mod 64 = 0" using assms by simp
    then have "bits_between ws a (a + 64 * m + 64) =
      bits_between ws a (a + 64 * m) + unat (hweight (ws ! bit_word (a + 64 * m)))"
      using bits_between_split [of a "a + 64 * m" "a + 64 * m + 64" ws]
        bits_between_word [of "a + 64 * m" ws]
      by simp
    moreover have "a + 64 * Suc m = a + 64 * m + 64" by simp
    ultimately show ?case using Suc by (simp only: map_append upt_Suc_append) simp
  qed simp
  then show ?thesis by (simp add: whole_words_def whole_words_end_def)
qed

lemma whole_words_end_le: "a \<le> e \<Longrightarrow> whole_words_end a e \<le> e"
  using div_times_less_eq_dividend [of "e - a" 64]
  by (simp add: whole_words_end_def mult.commute)

lemma filter_upt_card: "length (filter P [a..<e]) = card {i \<in> {a..<e}. P i}"
  by (metis (mono_tags) distinct_card distinct_filter distinct_upt set_filter set_upt)

lemma count_bits_Some:
  assumes "bitstr_wf b" and "e \<le> bs_bits b"
  shows "count_bits b [a..<e] c = Some (c + bits_between (bs_words b) a e)"
proof -
  have "{i \<in> {a..<e}. i \<in> bits_of b} = {i \<in> {a..<e}. wbit (bs_words b) i}"
    using assms(2) by (auto simp: bits_of_def)
  then show ?thesis
    using bm.count_loop [OF assms(1), of "[a..<e]" "\<lambda>j. j" c] assms(2)
    by (simp add: count_bits_def filter_upt_card bits_between_def)
qed

lemma bits_between_bits_of: "bits_between (bs_words b) 0 (bs_bits b) = card (bits_of b)"
  by (simp add: bits_between_def bits_of_def)

lemma bit_set_count_Some [abort_simps]:
  assumes "bitstr_wf b"
  shows "bit_set_count b = Some (int (card (bits_of b)))"
proof -
  let ?e = "whole_words_end 0 (bs_bits b)"
  have "bits_between (bs_words b) 0 ?e + bits_between (bs_words b) ?e (bs_bits b) = card (bits_of b)"
    using bits_between_split [of 0 ?e "bs_bits b" "bs_words b"] whole_words_end_le [of 0 "bs_bits b"]
    by (simp add: bits_between_bits_of)
  then show ?thesis
    using assms by (simp add: bit_set_count_def abort_simps count_bits_Some fold_whole_words)
qed

lemma bit_set_count_range_Some:
  assumes wf: "bitstr_wf b" and s: "s < bs_bits b"
  shows "bit_set_count_range b (int s) e = Some (int (card (bits_of b \<inter> {s..<nat e})))"
proof -
  let ?ws = "bs_words b"
  define e' where "e' = nat (min e (int (bs_bits b)))"
  define eow where "eow = (s + 63) div 64 * 64"
  define f where "f = max s (min e' eow)"
  define g where "g = whole_words_end f e'"
  have e': "e' \<le> bs_bits b" by (simp add: e'_def)
  have eow: "s \<le> eow" "eow mod 64 = 0" by (auto simp: eow_def)
  have words: "fold (\<lambda>bt c. c + unat (hweight (?ws ! bit_word bt))) (whole_words f e') c =
    c + bits_between ?ws f g" for c
  proof (cases "eow \<le> e'")
    case True
    with eow have "f mod 64 = 0" by (simp add: f_def)
    then show ?thesis by (simp add: fold_whole_words g_def)
  next
    case False
    then have "e' \<le> f" by (simp add: f_def)
    then show ?thesis by (simp add: whole_words_def whole_words_end_def g_def)
  qed
  have "bits_between ?ws s f + bits_between ?ws f g + bits_between ?ws g e' = bits_between ?ws s e'"
  proof (cases "f \<le> e'")
    case True
    moreover have "s \<le> f" "f \<le> g" by (simp_all add: f_def g_def whole_words_end_def)
    moreover have "g \<le> e'" using True by (simp add: g_def whole_words_end_le)
    ultimately show ?thesis
      using bits_between_split [of s f e' ?ws] bits_between_split [of f g e' ?ws] by simp
  next
    case False
    then have "f = s" "e' < s" by (auto simp: f_def split: if_splits)
    then show ?thesis by (simp add: g_def whole_words_end_def)
  qed
  moreover have "bits_between ?ws s e' = card (bits_of b \<inter> {s..<nat e})"
    unfolding bits_between_def by (rule arg_cong [where f = card]) (auto simp: bits_of_def e'_def)
  moreover have "f \<le> bs_bits b" using e' s by (simp add: f_def)
  ultimately show ?thesis
    using wf s e'
    by (simp add: bit_set_count_range_def abort_simps Let_def count_bits_Some words
        flip: e'_def eow_def f_def g_def)
qed


lemma bit_overlap_Some:
  assumes wf: "bitstr_wf b1" "bitstr_wf b2" and sz: "bs_bits b1 = bs_bits b2"
  shows "bit_overlap b1 b2 = Some (int (card (bits_of b1 \<inter> bits_of b2)))"
proof -
  let ?n = "bs_bits b1"
  define ws where "ws = map2 (AND) (bs_words b1) (bs_words b2)"
  let ?e = "whole_words_end 0 ?n"
  have len: "length (bs_words b1) = bitstr_words ?n" "length (bs_words b2) = bitstr_words ?n"
    using wf sz by (simp_all add: bitstr_wf_def)
  have nth: "ws ! k = bs_words b1 ! k AND bs_words b2 ! k" if "k < bitstr_words ?n" for k
    using that len by (simp add: ws_def)
  have in_b: "wbit ws i \<longleftrightarrow> i \<in> bits_of b1 \<and> i \<in> bits_of b2" if "i < ?n" for i
    using that nth [OF bitstr_words_bound [OF that]] sz
    by (auto simp: wbit_def bits_of_def bit_and_iff)
  have fold: "fold (\<lambda>bt c. c + unat (hweight (bs_words b1 ! bit_word bt AND bs_words b2 ! bit_word bt)))
      (whole_words 0 ?n) 0 = bits_between ws 0 ?e"
  proof -
    have "bit_word bt < bitstr_words ?n" if "bt \<in> set (whole_words 0 ?n)" for bt
      using that by (auto simp: whole_words_def bit_word_div bitstr_words_def)
    then have "fold (\<lambda>bt c. c + unat (hweight (bs_words b1 ! bit_word bt AND bs_words b2 ! bit_word bt)))
      (whole_words 0 ?n) 0 = fold (\<lambda>bt c. c + unat (hweight (ws ! bit_word bt))) (whole_words 0 ?n) 0"
      by (intro fold_cong) (simp_all add: nth)
    then show ?thesis by (simp add: fold_whole_words)
  qed
  have tail: "forM [?e..<?n] (\<lambda>bt n. do { t1 \<leftarrow> bit_test b1 (int bt);
                t2 \<leftarrow> (if t1 then bit_test b2 (int bt) else Some False);
                Some (if t2 then Suc n else n) }) c = Some (c + bits_between ws ?e ?n)" for c
  proof -
    have "forM bts (\<lambda>bt n. do { t1 \<leftarrow> bit_test b1 (int bt);
                t2 \<leftarrow> (if t1 then bit_test b2 (int bt) else Some False);
                Some (if t2 then Suc n else n) }) c =
       Some (c + length (filter (wbit ws) bts))" if "set bts \<subseteq> {..<?n}" for bts
      using that wf sz by (induction bts arbitrary: c) (auto simp: abort_simps in_b)
    from this [of "[?e..<?n]"] show ?thesis
      by (simp add: filter_upt_card bits_between_def subset_iff)
  qed
  have "bits_between ws 0 ?e + bits_between ws ?e ?n = bits_between ws 0 ?n"
    using bits_between_split [of 0 ?e ?n ws] whole_words_end_le [of 0 ?n] by simp
  also have "\<dots> = card (bits_of b1 \<inter> bits_of b2)"
    unfolding bits_between_def
    by (rule arg_cong [where f = card]) (use in_b bits_of_bound [of _ b1] in auto)
  finally show ?thesis
    using wf by (simp add: bit_overlap_def abort_simps Let_def fold tail sz [symmetric])
qed

lemma bit_clear_count_Some:
  assumes "bitstr_wf b"
  shows "bit_clear_count b = Some (int (card ({..<bs_bits b} - bits_of b)))"
proof -
  have "bits_of b \<subseteq> {..<bs_bits b}" by (auto dest: bits_of_bound)
  then have "card ({..<bs_bits b} - bits_of b) = bs_bits b - card (bits_of b)"
    and "card (bits_of b) \<le> bs_bits b"
    using card_mono [of "{..<bs_bits b}" "bits_of b"] by (simp_all add: card_Diff_subset)
  with assms show ?thesis by (simp add: bit_clear_count_def abort_simps)
qed


section \<open>Selecting the first set bits\<close>

definition pick_inv :: "bitstr \<Rightarrow> nat \<Rightarrow> nat \<Rightarrow> bitstr \<Rightarrow> bool" where
  "pick_inv b m count new \<longleftrightarrow>
     bitstr_wf new \<and> bs_magic new = BITSTR_MAGIC \<and> bs_bits new = bs_bits b \<and>
     bits_of new = bits_of b \<inter> {..<m} \<and> count = card (bits_of new) \<and> m \<le> bs_bits b"

lemma pick_inv_skip:
  assumes "pick_inv b m c new" and "m < bs_bits b" and "m \<notin> bits_of b"
  shows "pick_inv b (Suc m) c new"
proof -
  have "bits_of b \<inter> {..<Suc m} = bits_of b \<inter> {..<m}"
    using assms(3) by (auto simp: less_Suc_eq)
  then show ?thesis using assms(1,2) by (simp add: pick_inv_def)
qed

lemma pick_inv_take:
  assumes "pick_inv b m c new" and "m < bs_bits b" and "m \<in> bits_of b"
  shows "pick_inv b (Suc m) (Suc c) (bput True new m)"
proof -
  have new: "bits_of new = bits_of b \<inter> {..<m}" "bitstr_wf new" "bs_bits new = bs_bits b"
    using assms(1) by (simp_all add: pick_inv_def)
  then have ins: "bits_of (bput True new m) = insert m (bits_of b \<inter> {..<m})"
    using assms(2) by (simp add: abs_simps)
  also have "\<dots> = bits_of b \<inter> {..<Suc m}" using assms(3) by auto
  finally have "bits_of (bput True new m) = bits_of b \<inter> {..<Suc m}" .
  moreover have "card (bits_of (bput True new m)) = Suc (card (bits_of new))"
    by (simp add: ins new(1))
  ultimately show ?thesis using assms(1,2) by (simp add: pick_inv_def)
qed

lemma pick_bits_spec:
  assumes "bitstr_wf b" and "pick_inv b m c new" and "int c \<le> nbits"
  shows "\<exists>m' c' new'. pick_bits b nbits [m..<bs_bits b] c new = Some (c', new') \<and>
    pick_inv b m' c' new' \<and> int c' \<le> nbits \<and> (int c' < nbits \<longrightarrow> m' = bs_bits b)"
  using assms
proof (induction "bs_bits b - m" arbitrary: m c new)
  case 0
  then have "m = bs_bits b" by (simp add: pick_inv_def)
  with 0 show ?case by auto
next
  case (Suc d)
  then have m: "m < bs_bits b" by simp
  then have upt: "[m..<bs_bits b] = m # [Suc m..<bs_bits b]" by (rule upt_conv_Cons)
  show ?case
  proof (cases "int c < nbits")
    case False
    with Suc.prems upt show ?thesis by auto
  next
    case True
    show ?thesis
    proof (cases "m \<in> bits_of b")
      case True
      have "pick_inv b (Suc m) (Suc c) (bput True new m)"
        using Suc.prems m True by (intro pick_inv_take)
      with Suc.hyps(1) [of "Suc m" "Suc c" "bput True new m"] Suc.hyps(2) Suc.prems(1)
        \<open>int c < nbits\<close>
      have "\<exists>m' c' new'. pick_bits b nbits [Suc m..<bs_bits b] (Suc c) (bput True new m) = Some (c', new') \<and>
        pick_inv b m' c' new' \<and> int c' \<le> nbits \<and> (int c' < nbits \<longrightarrow> m' = bs_bits b)"
        by auto
      moreover have "bit_set new (int m) = Some (bput True new m)"
        using Suc.prems(2) m by (simp add: pick_inv_def abort_simps)
      ultimately show ?thesis
        using upt True m Suc.prems(1) \<open>int c < nbits\<close> by (simp add: abort_simps)
    next
      case False
      have "pick_inv b (Suc m) c new" using Suc.prems m False by (intro pick_inv_skip)
      with Suc.hyps(1) [of "Suc m" c new] Suc.hyps(2) Suc.prems
      have "\<exists>m' c' new'. pick_bits b nbits [Suc m..<bs_bits b] c new = Some (c', new') \<and>
        pick_inv b m' c' new' \<and> int c' \<le> nbits \<and> (int c' < nbits \<longrightarrow> m' = bs_bits b)"
        by auto
      then show ?thesis
        using upt False m Suc.prems(1) \<open>int c < nbits\<close> by (simp add: abort_simps)
    qed
  qed
qed


lemma same_word_iff: "(m::nat) mod 64 = 0 \<Longrightarrow> i div 64 = m div 64 \<longleftrightarrow> m \<le> i \<and> i < m + 64"
  by (auto elim!: dvdE simp: mod_eq_0_iff_dvd)

lemma pick_inv_zero_word:
  assumes "bitstr_wf b" and "pick_inv b m c new" and "m < bs_bits b" and "m mod 64 = 0"
    and zero: "bs_words b ! bit_word m = 0"
  shows "pick_inv b (min (m + 64) (bs_bits b)) c new"
proof -
  have "\<not> wbit (bs_words b) i" if "m \<le> i" "i < m + 64" for i
    using that zero same_word_iff [OF assms(4), of i] by (simp add: wbit_def bit_word_div)
  then have "bits_of b \<inter> {..<min (m + 64) (bs_bits b)} = bits_of b \<inter> {..<m}"
    using assms(3) by (auto simp: bits_of_def) (meson not_less)
  with assms(2) show ?thesis by (simp add: pick_inv_def)
qed

lemma pick_inv_full_word:
  assumes "bitstr_wf b" and inv: "pick_inv b m c new" and "m + 63 < bs_bits b" and al: "m mod 64 = 0"
  shows "pick_inv b (m + 64) (c + unat (hweight (bs_words b ! bit_word m)))
    (new\<lparr>bs_words := (bs_words new)[bit_word m := bs_words b ! bit_word m]\<rparr>)" (is "pick_inv _ _ _ ?new")
proof -
  have new: "bits_of new = bits_of b \<inter> {..<m}" "bitstr_wf new" "bs_bits new = bs_bits b"
    "c = card (bits_of new)" "bs_magic new = BITSTR_MAGIC"
    using inv by (simp_all add: pick_inv_def)
  have idx: "bit_word m < length (bs_words new)"
    using bitstr_wf_index [OF new(2), of m] assms(3) new(3) by (simp add: bit_word_div)
  have "wbit (bs_words ?new) i = (if m \<le> i \<and> i < m + 64 then wbit (bs_words b) i else wbit (bs_words new) i)" for i
    using idx same_word_iff [OF al, of i] by (auto simp: wbit_update bit_word_div) (simp_all add: wbit_def)
  moreover have "wbit (bs_words new) i \<longleftrightarrow> i < m \<and> i \<in> bits_of b" if "i < bs_bits b" for i
    using new(1,3) that by (auto simp: bits_of_def set_eq_iff)
  ultimately have bits: "bits_of ?new = bits_of b \<inter> {..<m + 64}"
    using assms(3) new(3) by (auto simp: bits_of_def not_less [symmetric] split: if_splits)
  have "card (bits_of b \<inter> {..<m + 64}) = bits_between (bs_words b) 0 (m + 64)"
    unfolding bits_between_def using assms(3)
    by (intro arg_cong [where f = card]) (auto simp: bits_of_def)
  also have "\<dots> = bits_between (bs_words b) 0 m + unat (hweight (bs_words b ! bit_word m))"
    using bits_between_split [of 0 m "m + 64" "bs_words b"] bits_between_word [OF al] by simp
  also have "bits_between (bs_words b) 0 m = c"
    unfolding bits_between_def new(4,1) using assms(3)
    by (intro arg_cong [where f = card]) (auto simp: bits_of_def)
  finally have "card (bits_of ?new) = c + unat (hweight (bs_words b ! bit_word m))"
    by (simp add: bits)
  with bits new idx assms(3) show ?thesis by (simp add: pick_inv_def bitstr_wf_upd)
qed

lemma pick_words_spec:
  assumes "bitstr_wf b" and "pick_inv b (min m (bs_bits b)) c new" and "int c \<le> nbits" and "m mod 64 = 0"
  shows "\<exists>m' c' new'. pick_words b nbits m c new = Some (c', new') \<and>
    pick_inv b m' c' new' \<and> int c' \<le> nbits \<and> (int c' < nbits \<longrightarrow> m' = bs_bits b)"
  using assms
proof (induction b nbits m c new rule: pick_words.induct)
  case (1 b nbits m c new)
  show ?case
  proof (cases "m < bs_bits b \<and> int c < nbits")
    case False
    then have "pick_words b nbits m c new = Some (c, new)"
      by (subst pick_words.simps) (simp only: if_False)
    moreover have "int c < nbits \<longrightarrow> min m (bs_bits b) = bs_bits b" using False by auto
    ultimately show ?thesis using "1.prems" by blast
  next
    case True
    then have inv: "pick_inv b m c new" and m: "m < bs_bits b" using "1.prems"(2) by auto
    let ?w = "bs_words b ! bit_word m"
    consider (zero) "?w = 0"
      | (full) "?w \<noteq> 0" "int (c + unat (hweight ?w)) \<le> nbits" "m + 63 < bs_bits b"
      | (part) "?w \<noteq> 0" "\<not> (int (c + unat (hweight ?w)) \<le> nbits \<and> m + 63 < bs_bits b)"
      by blast
    then show ?thesis
    proof cases
      case zero
      with "1.IH"(1) [OF True refl zero] "1.prems" inv m show ?thesis
        by (simp add: pick_words.simps [of b nbits m] True pick_inv_zero_word)
    next
      case full
      with "1.IH"(2) [OF True refl full(1) refl] "1.prems" inv pick_inv_full_word [of b m c new]
      show ?thesis
        by (simp add: pick_words.simps [of b nbits m] True min_def Let_def)
    next
      case part
      with pick_bits_spec [OF "1.prems"(1) inv "1.prems"(3)] True show ?thesis
        by (auto simp: pick_words.simps [of b nbits m] Let_def)
    qed
  qed
qed


lemma pick_inv_init:
  assumes "bitstr_wf b"
  obtains new where "bit_alloc (int (bs_bits b)) = Some new" and "pick_inv b 0 0 new"
proof -
  have "bs_bits b \<le> 0x40000000" using assms by (simp add: bitstr_wf_def)
  then obtain new where "bit_alloc (int (bs_bits b)) = Some new" "bitstr_wf new"
    "bs_bits new = bs_bits b" "bits_of new = {}" "bs_magic new = BITSTR_MAGIC"
    by (rule bit_alloc_Some)
  then show thesis by (intro that) (simp_all add: pick_inv_def)
qed

text \<open>
  \<open>first_bits\<close>: \<open>P\<close> consists of the \<open>n\<close> least elements of \<open>S\<close>.
\<close>

definition first_bits :: "nat \<Rightarrow> nat set \<Rightarrow> nat set \<Rightarrow> bool" where
  "first_bits n S P \<longleftrightarrow> P \<subseteq> S \<and> card P = n \<and> (\<forall>i\<in>P. \<forall>j\<in>S - P. i < j)"

text \<open>
  \<^verbatim>\<open>bit_pick_cnt\<close> returns NULL exactly when fewer than \<open>n\<close> bits are set, and otherwise a
  new bitmap of the same size that holds the \<open>n\<close> lowest set bits.
\<close>

theorem bit_pick_cnt_first_bits:
  assumes wf: "bitstr_wf b" and n: "0 \<le> nbits"
  shows "if int (card (bits_of b)) < nbits then bit_pick_cnt b nbits = Some None
    else \<exists>new. bit_pick_cnt b nbits = Some (Some new) \<and> bitstr_wf new \<and> bs_bits new = bs_bits b \<and>
      first_bits (nat nbits) (bits_of b) (bits_of new)"
proof (cases "int (bs_bits b) < nbits")
  case True
  moreover have "card (bits_of b) \<le> bs_bits b"
    using card_mono [of "{..<bs_bits b}" "bits_of b"] by (auto simp: bits_of_def)
  ultimately show ?thesis using wf by (simp add: bit_pick_cnt_def abort_simps)
next
  case False
  obtain new where new: "bit_alloc (int (bs_bits b)) = Some new" and inv0: "pick_inv b 0 0 new"
    using pick_inv_init [OF wf] .
  have "pick_inv b (min 0 (bs_bits b)) 0 new" using inv0 by simp
  from pick_words_spec [OF wf this, of nbits] n
  obtain m' c' new' where pw: "pick_words b nbits 0 0 new = Some (c', new')"
    and inv: "pick_inv b m' c' new'" and le: "int c' \<le> nbits"
    and all: "int c' < nbits \<longrightarrow> m' = bs_bits b"
    by auto
  have run: "bit_pick_cnt b nbits = (if int c' < nbits then Some None else Some (Some new'))"
    using wf inv False new pw by (simp add: bit_pick_cnt_def bit_free_def abort_simps pick_inv_def)
  have new': "bits_of new' = bits_of b \<inter> {..<m'}" "c' = card (bits_of new')"
    "bitstr_wf new'" "bs_bits new' = bs_bits b"
    using inv by (simp_all add: pick_inv_def)
  have fin: "finite (bits_of b)" by (simp add: bits_of_def)
  have sub: "bits_of b \<inter> {..<bs_bits b} = bits_of b" by (auto simp: bits_of_def)
  show ?thesis
  proof (cases "int c' < nbits")
    case True
    then have "bits_of new' = bits_of b" using all new'(1) sub by (simp only:)
    then show ?thesis using True run new'(2) by (simp only: if_True)
  next
    case False
    then have c: "int c' = nbits" using le by simp
    have "c' \<le> card (bits_of b)" unfolding new'(2) new'(1) using fin by (simp add: card_mono)
    moreover have "card (bits_of new') = nat nbits" using new'(2) c by linarith
    moreover have "bits_of b \<inter> {..<m'} \<subseteq> bits_of b"
      "\<forall>i\<in>bits_of b \<inter> {..<m'}. \<forall>j\<in>bits_of b - bits_of b \<inter> {..<m'}. i < j" by auto
    ultimately have "first_bits (nat nbits) (bits_of b) (bits_of new')"
      unfolding first_bits_def new'(1) by blast
    moreover have "\<not> int (card (bits_of b)) < nbits" using \<open>c' \<le> _\<close> c by linarith
    ultimately show ?thesis using False run new'(3,4) by auto
  qed
qed


theorem bit_pick_cnt_first_bits_witness:
  "if int (card (bits_of sample1)) < 2 then bit_pick_cnt sample1 2 = Some None
    else \<exists>new. bit_pick_cnt sample1 2 = Some (Some new) \<and> bitstr_wf new \<and> bs_bits new = 70 \<and>
      first_bits (nat 2) (bits_of sample1) (bits_of new)"
  using bit_pick_cnt_first_bits [of sample1 2] by (simp split: if_splits)


section \<open>Longest run and bit ranks\<close>

text \<open>\<open>has_run S n k\<close>: \<open>k\<close> consecutive elements of \<open>S\<close> below \<open>n\<close>.\<close>

definition has_run :: "nat set \<Rightarrow> nat \<Rightarrow> nat \<Rightarrow> bool" where
  "has_run S n k \<longleftrightarrow> (\<exists>a. a + k \<le> n \<and> {a..<a + k} \<subseteq> S)"

definition longest_run :: "nat set \<Rightarrow> nat \<Rightarrow> nat \<Rightarrow> bool" where
  "longest_run S n k \<longleftrightarrow> has_run S n k \<and> (\<forall>j. has_run S n j \<longrightarrow> j \<le> k)"

text \<open>The state of the loop before position \<open>n\<close>: the run that ends there and the longest so far.\<close>

definition run_inv :: "nat set \<Rightarrow> nat \<Rightarrow> nat \<Rightarrow> nat \<Rightarrow> bool" where
  "run_inv S n cnt m \<longleftrightarrow> longest_run S n m \<and> cnt \<le> n \<and> {n - cnt..<n} \<subseteq> S \<and>
     (cnt < n \<longrightarrow> n - cnt - 1 \<notin> S)"

lemma has_run_Suc_notin: "n \<notin> S \<Longrightarrow> has_run S (Suc n) k \<longleftrightarrow> k = 0 \<or> has_run S n k"
proof -
  assume n: "n \<notin> S"
  have "a + k \<le> n \<or> k = 0" if "a + k \<le> Suc n" "{a..<a + k} \<subseteq> S" for a
  proof (rule ccontr)
    assume "\<not> ?thesis"
    then have "n \<in> {a..<a + k}" using that by auto
    with that n show False by blast
  qed
  then show ?thesis unfolding has_run_def by (metis add.right_neutral atLeastLessThan_empty
    empty_subsetI le_SucI le0 order_refl)
qed

lemma run_inv_notin: "run_inv S n cnt m \<Longrightarrow> n \<notin> S \<Longrightarrow> run_inv S (Suc n) 0 m"
  by (auto simp: run_inv_def longest_run_def has_run_Suc_notin)

lemma has_run_Suc_in:
  assumes "cnt \<le> n" and "{n - cnt..<n} \<subseteq> S" and "cnt < n \<longrightarrow> n - cnt - 1 \<notin> S" and "n \<in> S"
  shows "has_run S (Suc n) k \<longleftrightarrow> k \<le> Suc cnt \<or> has_run S n k"
proof
  assume "has_run S (Suc n) k"
  then obtain a where a: "a + k \<le> Suc n" "{a..<a + k} \<subseteq> S" by (auto simp: has_run_def)
  show "k \<le> Suc cnt \<or> has_run S n k"
  proof (cases "a + k = Suc n \<and> Suc cnt < k")
    case True
    then have "n - cnt - 1 \<in> {a..<a + k}" "cnt < n" by auto
    with a assms(3) show ?thesis by blast
  next
    case False
    with a show ?thesis by (auto simp: has_run_def)
  qed
next
  assume "k \<le> Suc cnt \<or> has_run S n k"
  then show "has_run S (Suc n) k"
  proof
    assume k: "k \<le> Suc cnt"
    have "{Suc n - k..<Suc n} \<subseteq> insert n {n - cnt..<n}" using k by auto
    then have "{Suc n - k..<Suc n - k + k} \<subseteq> S" using assms k by auto
    then show ?thesis unfolding has_run_def using k assms(1) by (intro exI [of _ "Suc n - k"]) auto
  qed (auto simp: has_run_def intro: le_SucI)
qed

lemma run_inv_in:
  assumes "run_inv S n cnt m" and "n \<in> S"
  shows "run_inv S (Suc n) (Suc cnt) (max (Suc cnt) m)"
proof -
  have "has_run S (Suc n) k \<longleftrightarrow> k \<le> Suc cnt \<or> has_run S n k" for k
    using assms by (intro has_run_Suc_in) (auto simp: run_inv_def)
  moreover have "{n - cnt..<Suc n} \<subseteq> insert n {n - cnt..<n}" by auto
  ultimately show ?thesis using assms
    by (auto simp: run_inv_def longest_run_def max_def)
qed

lemma longest_run_cut:
  assumes "longest_run S n m" and "n \<le> N" and "n \<notin> S" and "N - n \<le> m"
  shows "longest_run S N m"
proof -
  have "j \<le> m" if run: "has_run S N j" for j
  proof (rule ccontr)
    assume "\<not> j \<le> m"
    then have "m < j" by simp
    obtain a where a: "a + j \<le> N" "{a..<a + j} \<subseteq> S" using run by (auto simp: has_run_def)
    then have "a < n" using assms(4) \<open>m < j\<close> by auto
    moreover have "n \<notin> {a..<a + j}" using a(2) assms(3) by blast
    ultimately have "has_run S n j" unfolding has_run_def using a by (intro exI [of _ a]) auto
    with assms(1) \<open>m < j\<close> show False by (auto simp: longest_run_def)
  qed
  with assms(1,2) show ?thesis by (auto simp: longest_run_def has_run_def intro: le_trans)
qed

lemma nset_max_loop_Some:
  assumes "bitstr_wf b" and "n \<le> bs_bits b" and "run_inv (bits_of b) n cnt m"
  shows "\<exists>r. nset_max_loop b [n..<bs_bits b] cnt m = Some r \<and> longest_run (bits_of b) (bs_bits b) r"
  using assms
proof (induction "bs_bits b - n" arbitrary: n cnt m)
  case 0
  then show ?case by (simp add: run_inv_def)
next
  case (Suc d)
  then have n: "n < bs_bits b" and up: "[n..<bs_bits b] = n # [Suc n..<bs_bits b]"
    by (simp_all add: upt_conv_Cons)
  show ?case
  proof (cases "n \<in> bits_of b")
    case True
    have "run_inv (bits_of b) (Suc n) (Suc cnt) (if Suc cnt > m then Suc cnt else m)"
      using run_inv_in [OF Suc.prems(3) True] by (simp add: max_def not_less split: if_splits)
    then have "\<exists>r. nset_max_loop b [Suc n..<bs_bits b] (Suc cnt) (if Suc cnt > m then Suc cnt else m) = Some r
        \<and> longest_run (bits_of b) (bs_bits b) r"
      using Suc.hyps n Suc.prems(1) by (intro Suc.hyps(1)) simp_all
    with n Suc.prems(1) True show ?thesis by (simp add: up abort_simps Let_def split: if_splits)
  next
    case False
    have "longest_run (bits_of b) (bs_bits b) m" if "bs_bits b - n < m"
      using longest_run_cut [of "bits_of b" n m "bs_bits b"] that n False Suc.prems(3)
      by (simp add: run_inv_def)
    with Suc.hyps n Suc.prems False run_inv_notin [OF Suc.prems(3) False] show ?thesis
      by (simp add: up abort_simps)
  qed
qed

text \<open>
  \<^verbatim>\<open>bit_nset_max_count\<close>, which stops early once no longer run can follow, returns the
  length of the longest run of consecutive set bits.
\<close>

theorem bit_nset_max_count_longest:
  assumes "bitstr_wf b"
  shows "\<exists>r. bit_nset_max_count b = Some (int r) \<and> longest_run (bits_of b) (bs_bits b) r"
proof -
  have "run_inv (bits_of b) 0 0 0" by (simp add: run_inv_def longest_run_def has_run_def)
  from nset_max_loop_Some [OF assms _ this] assms show ?thesis
    by (auto simp: bit_nset_max_count_def abort_simps)
qed

theorem bit_nset_max_count_longest_witness:
  "\<exists>r. bit_nset_max_count sample2 = Some (int r) \<and> longest_run (bits_of sample2) 70 r"
  using bit_nset_max_count_longest [of sample2] by simp

text \<open>\<open>rank S i\<close>: how many elements of \<open>S\<close> are below \<open>i\<close>.\<close>

definition rank :: "nat set \<Rightarrow> nat \<Rightarrow> nat" where
  "rank S i = card (S \<inter> {..<i})"

lemma rank_Suc: "rank S (Suc i) = (if i \<in> S then Suc (rank S i) else rank S i)"
  by (simp add: rank_def lessThan_Suc Int_insert_right)

lemma get_bit_num_loop_Some:
  assumes "bitstr_wf b" and "n \<le> bs_bits b" and "rank (bits_of b) n \<le> p"
  shows "if p < card (bits_of b)
    then \<exists>i\<in>bits_of b. get_bit_num_loop b (int p) [n..<bs_bits b] (rank (bits_of b) n) = Some (int i) \<and>
           rank (bits_of b) i = p
    else get_bit_num_loop b (int p) [n..<bs_bits b] (rank (bits_of b) n) = Some (-1)"
  using assms
proof (induction "bs_bits b - n" arbitrary: n)
  case 0
  then have "rank (bits_of b) n = card (bits_of b)"
    unfolding rank_def by (intro arg_cong [where f = card]) (auto simp: bits_of_def)
  with 0 show ?case by simp
next
  case (Suc d)
  then have n: "n < bs_bits b" and up: "[n..<bs_bits b] = n # [Suc n..<bs_bits b]"
    by (simp_all add: upt_conv_Cons)
  show ?case
  proof (cases "n \<in> bits_of b \<and> rank (bits_of b) n = p")
    case True
    have "p < rank (bits_of b) (Suc n)" using True by (simp add: rank_Suc)
    also have "\<dots> \<le> card (bits_of b)" by (simp add: rank_def card_mono)
    finally show ?thesis using True n Suc.prems(1) by (auto simp: up abort_simps)
  next
    case False
    then have "rank (bits_of b) (Suc n) \<le> p" using Suc.prems(3) by (auto simp: rank_Suc)
    moreover have step: "get_bit_num_loop b (int p) [n..<bs_bits b] (rank (bits_of b) n) =
        get_bit_num_loop b (int p) [Suc n..<bs_bits b] (rank (bits_of b) (Suc n))"
      using n False Suc.prems(1) by (simp add: up abort_simps rank_Suc)
    ultimately show ?thesis
      unfolding step using Suc.hyps(2) n by (intro Suc.hyps(1) Suc.prems(1)) simp_all
  qed
qed


lemma bit_get_bit_num_Some:
  assumes "bitstr_wf b"
  shows "if p < card (bits_of b)
    then \<exists>i\<in>bits_of b. bit_get_bit_num b (int p) = Some (int i) \<and> rank (bits_of b) i = p
    else p \<le> bs_bits b \<longrightarrow> bit_get_bit_num b (int p) = Some (-1)"
proof -
  have "card (bits_of b) \<le> bs_bits b"
    using card_mono [of "{..<bs_bits b}" "bits_of b"] by (auto simp: bits_of_def)
  moreover have "rank (bits_of b) 0 = 0" by (simp add: rank_def)
  ultimately show ?thesis
    using get_bit_num_loop_Some [OF assms, of 0 p] assms
    by (simp add: bit_get_bit_num_def abort_simps split: if_splits)
qed

lemma bit_get_pos_num_Some:
  assumes "bitstr_wf b" and "i < bs_bits b"
  shows "bit_get_pos_num b (int i) = Some (if i \<in> bits_of b then int (rank (bits_of b) i) else -1)"
proof -
  have "bits_between (bs_words b) 0 (Suc i) = rank (bits_of b) (Suc i)"
    unfolding bits_between_def rank_def using assms(2)
    by (intro arg_cong [where f = card]) (auto simp: bits_of_def)
  then show ?thesis using assms
    by (simp add: bit_get_pos_num_def abort_simps count_bits_Some rank_Suc nat_add_distrib del: upt_Suc)
qed

lemma rank_inj:
  assumes "i \<in> S" and "j \<in> S" and "rank S i = rank S j"
  shows "i = j"
proof (rule ccontr)
  have less: "rank S a < rank S c" if "a \<in> S" "a < c" for a c
    unfolding rank_def by (rule psubset_card_mono) (use that in auto)
  assume "i \<noteq> j"
  then consider "i < j" | "j < i" by linarith
  then show False using less assms by cases (metis nat_neq_iff)+
qed

section \<open>Properties of counting and picking\<close>

text \<open>
  C29: The counting routines, which add up the population counts of whole words and test the
  remaining bits one by one, return the cardinalities of the sets they count.
\<close>

theorem bit_counts:
  assumes "bitstr_wf b1" and "bitstr_wf b2" and "bs_bits b1 = bs_bits b2" and "s < bs_bits b1"
  shows "bit_set_count b1 = Some (int (card (bits_of b1))) \<and>
         bit_clear_count b1 = Some (int (card ({..<bs_bits b1} - bits_of b1))) \<and>
         bit_overlap b1 b2 = Some (int (card (bits_of b1 \<inter> bits_of b2))) \<and>
         bit_set_count_range b1 (int s) e = Some (int (card (bits_of b1 \<inter> {s..<nat e})))"
  using bit_set_count_Some [OF assms(1)] bit_clear_count_Some [OF assms(1)]
    bit_overlap_Some [OF assms(1-3)] bit_set_count_range_Some [OF assms(1,4)] by simp

theorem bit_counts_witness:
  "bit_overlap sample1 sample2 = Some (int (card (bits_of sample1 \<inter> bits_of sample2)))"
  using bit_counts [of sample1 sample2 3 9] by simp

text \<open>
  \<^verbatim>\<open>bit_clear_count_range\<close> counts the clear bits of a range inside the bitmap; the code
  does not clip the end of the range, so past the end it counts positions that do not exist.
\<close>

theorem bit_clear_count_range_exact:
  assumes "bitstr_wf b" and "s < bs_bits b" and "s \<le> e"
  shows "bit_clear_count_range b (int s) (int e) =
    Some (int (card ({s..<min e (bs_bits b)} - bits_of b) + (e - min e (bs_bits b))))"
proof (cases "s < e")
  case True
  define m where "m = min e (bs_bits b)"
  define c where "c = card (bits_of b \<inter> {s..<m})"
  have m: "s \<le> m" "m \<le> e" using assms by (auto simp: m_def)
  have "bits_of b \<inter> {s..<e} = bits_of b \<inter> {s..<m}" by (auto simp: m_def dest: bits_of_bound)
  then have eq: "bit_clear_count_range b (int s) (int e) = Some (int e - int s - int c)"
    using True bit_set_count_range_Some [OF assms(1,2), of "int e"] assms(1)
    by (simp add: bit_clear_count_range_def c_def abort_simps del: of_nat_diff)
  have "card ({s..<m} - bits_of b) = (m - s) - c"
    using card_Diff_subset_Int [of "{s..<m}" "bits_of b"] by (simp add: c_def Int_commute)
  moreover have "c \<le> m - s" using card_mono [of "{s..<m}" "bits_of b \<inter> {s..<m}"] by (simp add: c_def)
  ultimately have "int e - int s - int c = int (card ({s..<m} - bits_of b) + (e - m))"
    using m by (simp add: of_nat_diff)
  then show ?thesis unfolding eq m_def by simp
qed (use assms in \<open>simp add: bit_clear_count_range_def abort_simps min_def\<close>)

theorem bit_clear_count_range_exact_witness:
  "bit_clear_count_range sample1 (int 69) (int 72) = Some (int (card ({69..<70} - bits_of sample1) + 2))"
  using bit_clear_count_range_exact [of sample1 69 72] by simp

text \<open>
  The position of the \<open>p\<close>-th set bit and the rank of a set bit are inverse to each other;
  asking for a bit that does not exist gives -1.
\<close>

theorem bit_num_pos_inverse:
  assumes "bitstr_wf b"
  shows "(\<forall>i \<in> bits_of b. \<exists>p. bit_get_pos_num b (int i) = Some (int p) \<and>
            bit_get_bit_num b (int p) = Some (int i)) \<and>
         (\<forall>p. card (bits_of b) \<le> p \<longrightarrow> p \<le> bs_bits b \<longrightarrow> bit_get_bit_num b (int p) = Some (-1))"
proof (intro conjI ballI allI impI)
  fix i assume i: "i \<in> bits_of b"
  let ?p = "rank (bits_of b) i"
  have "bits_of b \<inter> {..<i} \<subset> bits_of b" using i by auto
  then have "?p < card (bits_of b)" unfolding rank_def by (intro psubset_card_mono) simp_all
  with bit_get_bit_num_Some [OF assms, of ?p] obtain j where
    j: "j \<in> bits_of b" "bit_get_bit_num b (int ?p) = Some (int j)" "rank (bits_of b) j = ?p"
    by auto
  have "j = i" using rank_inj [OF j(1) i j(3)] .
  with j i show "\<exists>p. bit_get_pos_num b (int i) = Some (int p) \<and> bit_get_bit_num b (int p) = Some (int i)"
    using bit_get_pos_num_Some [OF assms bits_of_bound [OF i]] by auto
qed (use bit_get_bit_num_Some [OF assms] in \<open>auto split: if_splits\<close>)

theorem bit_num_pos_inverse_witness:
  "\<exists>p. bit_get_pos_num sample1 (int 65) = Some (int p) \<and> bit_get_bit_num sample1 (int p) = Some (int 65)"
proof -
  have "65 \<in> bits_of sample1" by (simp add: bits_of_def sample1_def wbit_def)
  then show ?thesis using bit_num_pos_inverse [of sample1] by auto
qed

end
