(* ===== verification/Bitstring_Search.thy ===== *)
theory Bitstring_Search
  imports Bitstring
begin

text \<open>
  The searches of src/common/bitstring.c: first and last set bit, first clear bit, contiguous
  runs of set or clear bits, and the operations built on them, filling gaps and rotating.
  A search returns the position found, or -1.
\<close>

section \<open>First and last bits\<close>

text \<open>
  \<^verbatim>\<open>bit_ffs\<close> and \<^verbatim>\<open>bit_ffc\<close> are the same two nested loops, \<open>v\<close> being the value
  sought; a word without such a bit is skipped whole. The inner loop runs over the positions
  from \<open>bt\<close> on that lie in the same word.
\<close>

definition skip_word :: "bool \<Rightarrow> u64" where
  "skip_word v = (if v then 0 else BITSTR_MAXVAL)"

definition rest_of_word :: "bitstr \<Rightarrow> nat \<Rightarrow> nat list" where
  "rest_of_word b bt = takeWhile (\<lambda>i. bit_word i = bit_word bt) [bt..<bs_bits b]"

definition bit_is :: "bool \<Rightarrow> bitstr \<Rightarrow> nat \<Rightarrow> bool option" where
  "bit_is v b i = do { t \<leftarrow> bit_test b (int i); Some (t = v) }"

function ff_words :: "bool \<Rightarrow> bitstr \<Rightarrow> nat \<Rightarrow> int option" where
  "ff_words v b bt =
     (if bt < bs_bits b
      then if bs_words b ! bit_word bt = skip_word v then ff_words v b (bt + 64)
           else do {
             r \<leftarrow> findM (rest_of_word b bt) (bit_is v b);
             (case r of Some i \<Rightarrow> Some (int i)
              | None \<Rightarrow> ff_words v b (bt + length (rest_of_word b bt))) }
      else Some (-1))"
  by pat_completeness auto
termination
  by (relation "measure (\<lambda>(v, b, bt). bs_bits b - bt)")
     (auto simp: rest_of_word_def upt_conv_Cons)

declare ff_words.simps [simp del]

definition bit_ffc :: "bitstr \<Rightarrow> int option" where
  "bit_ffc b = do { assert_bitstr_valid b; ff_words False b 0 }"

definition bit_ffs :: "bitstr \<Rightarrow> int option" where
  "bit_ffs b = do { assert_bitstr_valid b; ff_words True b 0 }"

text \<open>
  \<^verbatim>\<open>bit_fls\<close> first tests the bits of the last, partly used word one by one, then skips
  zero words downwards.
\<close>

function fls_words :: "bitstr \<Rightarrow> int \<Rightarrow> int option" where
  "fls_words b bt =
     (if bt \<ge> 0
      then if bs_words b ! bit_word (nat bt) = 0 then fls_words b (bt - 64)
           else do {
             r \<leftarrow> findM (rev [0..<nat bt + 1]) (bit_is True b);
             Some (case r of Some i \<Rightarrow> int i | None \<Rightarrow> -1) }
      else Some (-1))"
  by pat_completeness auto
termination
  by (relation "measure (\<lambda>(b, bt). nat (bt + 1))") auto

declare fls_words.simps [simp del]

definition fls_partial :: "bitstr \<Rightarrow> nat list" where
  "fls_partial b = takeWhile (\<lambda>i. bit_word i = bit_word (i + 1)) (rev [0..<bs_bits b])"

definition bit_fls :: "bitstr \<Rightarrow> int option" where
  "bit_fls b = do {
     assert_bitstr_valid b;
     (if bs_bits b = 0 then Some (-1)
      else do {
        r \<leftarrow> findM (fls_partial b) (bit_is True b);
        (case r of Some i \<Rightarrow> Some (int i)
         | None \<Rightarrow> fls_words b (int (bs_bits b) - 1 - int (length (fls_partial b)))) }) }"

definition bit_fill_gaps :: "bitstr \<Rightarrow> bitstr option" where
  "bit_fill_gaps b = do {
     assert_bitstr_valid b;
     first \<leftarrow> bit_ffs b;
     (if first = -1 then Some b
      else do { last \<leftarrow> bit_fls b; bit_nset b first last }) }"


section \<open>Contiguous runs\<close>

text \<open>
  The loop shared by \<^verbatim>\<open>bit_nffc\<close>, \<^verbatim>\<open>bit_nffs\<close> and the first half of \<^verbatim>\<open>bit_noc\<close>: \<open>cnt\<close>
  counts the bits of value \<open>v\<close> since the last other bit.
\<close>

fun run_loop :: "bool \<Rightarrow> bitstr \<Rightarrow> int \<Rightarrow> nat list \<Rightarrow> nat \<Rightarrow> int option" where
  "run_loop v b n [] cnt = Some (-1)"
| "run_loop v b n (bt # bts) cnt = do {
     t \<leftarrow> bit_test b (int bt);
     (if t \<noteq> v then run_loop v b n bts 0
      else if int (Suc cnt) \<ge> n then Some (int bt - int cnt)
      else run_loop v b n bts (Suc cnt)) }"

definition bit_nffc :: "bitstr \<Rightarrow> int \<Rightarrow> int option" where
  "bit_nffc b n = do {
     assert_bitstr_valid b;
     assertC (n > 0 \<and> n < int (bs_bits b));
     run_loop False b n [0..<bs_bits b] 0 }"

text \<open>The second half of \<^verbatim>\<open>bit_noc\<close> gives up at a set bit at or past the seed.\<close>

fun noc_loop :: "bitstr \<Rightarrow> int \<Rightarrow> int \<Rightarrow> nat list \<Rightarrow> nat \<Rightarrow> int option" where
  "noc_loop b n seed [] cnt = Some (-1)"
| "noc_loop b n seed (bt # bts) cnt = do {
     t \<leftarrow> bit_test b (int bt);
     (if t then if int bt \<ge> seed then Some (-1) else noc_loop b n seed bts 0
      else if int (Suc cnt) \<ge> n then Some (int bt - int cnt)
      else noc_loop b n seed bts (Suc cnt)) }"

text \<open>
  The sum \<^verbatim>\<open>seed + n\<close> is a 32-bit one and its overflow is undefined. A negative seed makes the
  first loop test a negative position, which aborts.
\<close>

definition bit_noc :: "bitstr \<Rightarrow> int \<Rightarrow> int \<Rightarrow> int option" where
  "bit_noc b n seed = do {
     assert_bitstr_valid b;
     assertC (n > 0 \<and> n \<le> int (bs_bits b));
     assertC (seed + n \<le> 0x7fffffff);
     (let seed = (if seed + n \<ge> int (bs_bits b) then int (bs_bits b) else seed) in
      do {
        assertC (seed \<ge> 0);
        value \<leftarrow> run_loop False b n [nat seed..<bs_bits b] 0;
        (if value \<noteq> -1 then Some value
         else noc_loop b n seed [0..<bs_bits b] 0) }) }"

definition bit_nffs :: "bitstr \<Rightarrow> int \<Rightarrow> int option" where
  "bit_nffs b n = do {
     assert_bitstr_valid b;
     assertC (n > 0 \<and> n \<le> int (bs_bits b));
     run_loop True b n [0..<nat (int (bs_bits b) - n + 1)] 0 }"


section \<open>Rotation\<close>

text \<open>A remainder by zero is undefined.\<close>

definition bit_rotate_copy :: "bitstr \<Rightarrow> int \<Rightarrow> int \<Rightarrow> bitstr option" where
  "bit_rotate_copy b1 n nbits = do {
     assert_bitstr_valid b1;
     bitsize \<leftarrow> bit_size b1;
     assertC (nbits \<ge> bitsize);
     (let deltasize = nbits - bitsize in do {
        assertC (nbits \<noteq> 0);
        (let n = crem n nbits;
             n = (if n < 0 then n + nbits else n);
             wrapbits = (if n > deltasize then n - deltasize else 0);
             m = nat (bitsize - wrapbits)
         in do {
           new \<leftarrow> bit_alloc nbits;
           new \<leftarrow> bit_nclear new 0 (nbits - 1);
           new \<leftarrow> forM [0..<m] (\<lambda>bt new. do {
                    t \<leftarrow> bit_test b1 (int bt);
                    if t then bit_set new (int bt + n) else Some new }) new;
           forM [0..<nat bitsize - m] (\<lambda>dst new. do {
             t \<leftarrow> bit_test b1 (int (m + dst));
             if t then bit_set new (int dst) else Some new }) new }) }) }"

definition bit_rotate :: "bitstr \<Rightarrow> int \<Rightarrow> bitstr option" where
  "bit_rotate b1 n =
     (if n = 0 then Some b1
      else do {
        assert_bitstr_valid b1;
        bitsize \<leftarrow> bit_size b1;
        new \<leftarrow> bit_rotate_copy b1 n bitsize;
        b1' \<leftarrow> bit_copybits b1 new;
        bit_free new;
        Some b1' })"


section \<open>Correctness of the bit searches\<close>

text \<open>\<open>first_bit v b r\<close>: \<open>r\<close> is the least position whose bit has value \<open>v\<close>, or -1.\<close>

definition first_bit :: "bool \<Rightarrow> bitstr \<Rightarrow> int \<Rightarrow> bool" where
  "first_bit v b r \<longleftrightarrow>
     (if \<exists>i < bs_bits b. (i \<in> bits_of b) = v
      then \<exists>i < bs_bits b. r = int i \<and> (i \<in> bits_of b) = v \<and> (\<forall>j < i. (j \<in> bits_of b) \<noteq> v)
      else r = -1)"

definition last_bit :: "bitstr \<Rightarrow> int \<Rightarrow> bool" where
  "last_bit b r \<longleftrightarrow>
     (if bits_of b = {} then r = -1
      else \<exists>i \<in> bits_of b. r = int i \<and> (\<forall>j \<in> bits_of b. j \<le> i))"

lemma bit_is_Some [abort_simps]:
  "bitstr_wf b \<Longrightarrow> i < bs_bits b \<Longrightarrow> bit_is v b i = Some ((i \<in> bits_of b) = v)"
  by (simp add: bit_is_def abort_simps)

lemma bit_skip_word: "n < 64 \<Longrightarrow> bit (skip_word v) n \<noteq> v"
proof -
  assume n: "n < 64"
  have max: "BITSTR_MAXVAL = -1" by (simp add: BITSTR_MAXVAL_def)
  show ?thesis unfolding skip_word_def max using n by simp
qed

lemma skip_word_bits:
  assumes "bs_words b ! bit_word bt = skip_word v" and "bt mod 64 = 0"
    and "bt \<le> i" and "i < bt + 64" and "i < bs_bits b"
  shows "(i \<in> bits_of b) \<noteq> v"
proof -
  obtain q where "bt = 64 * q" using assms(2) by (auto elim: dvdE)
  then have "i div 64 = bit_word bt" using assms(3,4) by (auto simp: bit_word_div)
  then have "wbit (bs_words b) i = bit (skip_word v) (i mod 64)"
    by (simp add: wbit_def assms(1))
  then show ?thesis using bit_skip_word [of "i mod 64" v] assms(5) by (simp add: bits_of_def)
qed

lemma rest_of_word_upt:
  assumes "bt mod 64 = 0"
  shows "rest_of_word b bt = [bt..<min (bt + 64) (bs_bits b)]"
  unfolding rest_of_word_def
proof (rule takeWhile_upt)
  obtain q where q: "bt = 64 * q" using assms by (auto elim: dvdE)
  show "bit_word i = bit_word bt" if "bt \<le> i" "i < bt + 64" for i
    using that q by (auto simp: bit_word_div)
  show "bit_word (bt + 64) \<noteq> bit_word bt" by (simp add: bit_word_div)
qed simp

lemma ff_words_Some:
  assumes "bitstr_wf b" and "bt mod 64 = 0 \<or> bs_bits b \<le> bt"
    and "\<And>j. j < bt \<Longrightarrow> j < bs_bits b \<Longrightarrow> (j \<in> bits_of b) \<noteq> v"
  shows "\<exists>r. ff_words v b bt = Some r \<and> first_bit v b r"
  using assms
proof (induction v b bt rule: ff_words.induct)
  case (1 v b bt)
  let ?e = "min (bt + 64) (bs_bits b)" and ?q = "\<lambda>i. (i \<in> bits_of b) = v"
  show ?case
  proof (cases "bt < bs_bits b")
    case False
    then have "\<not> (\<exists>i < bs_bits b. ?q i)" using "1.prems"(3) by auto
    then show ?thesis using False by (simp add: ff_words.simps [of v b bt] first_bit_def)
  next
    case True
    then have al: "bt mod 64 = 0" using "1.prems"(2) by simp
    have al': "(bt + 64) mod 64 = 0" using al by simp
    have next_word: "\<And>j. j < bt + 64 \<Longrightarrow> j < bs_bits b \<Longrightarrow> \<not> ?q j"
      if "\<And>j. bt \<le> j \<Longrightarrow> j < ?e \<Longrightarrow> \<not> ?q j"
      using that "1.prems"(3) by (metis min_less_iff_conj not_le)
    show ?thesis
    proof (cases "bs_words b ! bit_word bt = skip_word v")
      case skip: True
      have "\<exists>r. ff_words v b (bt + 64) = Some r \<and> first_bit v b r"
        using skip al' next_word skip_word_bits [OF skip al]
        by (intro "1.IH"(1) [OF True skip "1.prems"(1)]) auto
      with True skip show ?thesis by (simp add: ff_words.simps [of v b bt])
    next
      case noskip: False
      have loop: "findM (rest_of_word b bt) (bit_is v b) = Some (find ?q [bt..<?e])"
        unfolding rest_of_word_upt [OF al] using "1.prems"(1) by (intro findM_find) (auto simp: abort_simps)
      then have eq: "ff_words v b bt = (case find ?q [bt..<?e] of Some i \<Rightarrow> Some (int i)
          | None \<Rightarrow> ff_words v b ?e)"
        using True noskip by (simp add: ff_words.simps [of v b bt] rest_of_word_upt [OF al])
      show ?thesis
      proof (cases "find ?q [bt..<?e]")
        case (Some i)
        note i = find_upt_Some [OF this]
        then have "i < bs_bits b" "?q i" by auto
        moreover have "\<not> ?q j" if "j < i" for j
          using i that "1.prems"(3) [of j] by (cases "bt \<le> j") auto
        ultimately show ?thesis using eq Some by (auto simp: first_bit_def)
      next
        case None
        then have "\<not> ?q j" if "bt \<le> j" "j < ?e" for j
          using that by (auto simp: find_None_iff)
        then have "\<exists>r. ff_words v b ?e = Some r \<and> first_bit v b r"
          using next_word al' True "1.prems"(1)
            "1.IH"(2) [OF True noskip loop None, unfolded rest_of_word_upt [OF al]]
          by (simp add: min_def split: if_splits)
        with eq None show ?thesis by simp
      qed
    qed
  qed
qed


lemma fls_words_Some:
  assumes "bitstr_wf b" and "bt < int (bs_bits b)" and "(bt + 1) mod 64 = 0 \<or> bt < 0"
    and "\<And>j. j \<in> bits_of b \<Longrightarrow> int j \<le> bt"
  shows "\<exists>r. fls_words b bt = Some r \<and> last_bit b r"
  using assms
proof (induction b bt rule: fls_words.induct)
  case (1 b bt)
  show ?case
  proof (cases "bt \<ge> 0")
    case False
    then have "bits_of b = {}" using "1.prems"(4) by force
    then show ?thesis using False by (simp add: fls_words.simps [of b bt] last_bit_def)
  next
    case True
    then obtain n where n: "bt = int n" using nonneg_int_cases by blast
    have al: "(int n + 1) mod 64 = 0" using "1.prems"(3) True n by simp
    then have "Suc n mod 64 = 0" by presburger
    then obtain k where k: "Suc n = 64 * k" by (auto elim: dvdE)
    then obtain q where q: "Suc n = 64 * Suc q" by (cases k) auto
    show ?thesis
    proof (cases "bs_words b ! bit_word (nat bt) = 0")
      case zero: True
      have "int j \<le> bt - 64" if "j \<in> bits_of b" for j
      proof (rule ccontr)
        assume "\<not> int j \<le> bt - 64"
        moreover have "j \<le> n" using "1.prems"(4) [OF that] n by simp
        ultimately have "64 * q \<le> j" "j < 64 * q + 64" using q n by auto
        then have "j div 64 = q" by (auto intro: div_nat_eqI)
        moreover have "n div 64 = q" using q by (auto intro: div_nat_eqI)
        ultimately have "j div 64 = n div 64" by simp
        then show False using that zero n by (simp add: bits_of_def wbit_def bit_word_div)
      qed
      moreover have "(bt - 64 + 1) mod 64 = 0 \<or> bt - 64 < 0" using al n by presburger
      ultimately have "\<exists>r. fls_words b (bt - 64) = Some r \<and> last_bit b r"
        using "1.prems" by (intro "1.IH" [OF True zero]) auto
      with True zero show ?thesis by (simp add: fls_words.simps [of b bt])
    next
      case nz: False
      have "findM (rev [0..<n + 1]) (bit_is True b) = Some (find (\<lambda>i. i \<in> bits_of b) (rev [0..<n + 1]))"
        using "1.prems"(1,2) n by (intro findM_find) (auto simp: abort_simps)
      then have eq: "fls_words b bt = Some (case find (\<lambda>i. i \<in> bits_of b) (rev [0..<n + 1]) of
          Some i \<Rightarrow> int i | None \<Rightarrow> -1)"
        using nz by (subst fls_words.simps) (simp del: upt_Suc add: n)
      show ?thesis
      proof (cases "find (\<lambda>i. i \<in> bits_of b) (rev [0..<n + 1])")
        case None
        then have "j \<notin> bits_of b" if "j < n + 1" for j
          using that unfolding find_None_iff by (auto simp: less_Suc_eq)
        moreover have "j < n + 1" if "j \<in> bits_of b" for j using "1.prems"(4) [OF that] n by simp
        ultimately have "bits_of b = {}" by blast
        then show ?thesis using eq None by (simp add: last_bit_def)
      next
        case (Some i)
        from find_rev_upt_Some [OF this] have i: "i \<in> bits_of b" "\<forall>j. i < j \<longrightarrow> j < n + 1 \<longrightarrow> j \<notin> bits_of b"
          by auto
        have "j \<le> i" if "j \<in> bits_of b" for j
          using i(2) that "1.prems"(4) [OF that] n by (auto simp: not_le [symmetric])
        then show ?thesis using eq Some i(1) by (auto simp: last_bit_def)
      qed
    qed
  qed
qed


lemma fls_partial_upt: "fls_partial b = rev [64 * (bs_bits b div 64)..<bs_bits b]"
proof -
  define q where "q = bs_bits b div 64"
  have le: "64 * q \<le> bs_bits b" by (simp add: q_def)
  have "rev [0..<bs_bits b] = rev [64 * q..<bs_bits b] @ rev [0..<64 * q]"
    using upt_add_eq_append [of 0 "64 * q" "bs_bits b - 64 * q"] le by simp
  moreover have same: "bit_word i = bit_word (i + 1)" if "64 * q \<le> i" "i < bs_bits b" for i
  proof -
    have "i + 1 < 64 * q + 64" using that by (simp add: q_def) 
    then have "i div 64 = q" "(i + 1) div 64 = q" using that by (auto intro!: div_nat_eqI)
    then show ?thesis by (simp add: bit_word_div)
  qed
  moreover have "takeWhile (\<lambda>i. bit_word i = bit_word (i + 1)) (rev [0..<64 * q]) = []"
  proof (cases q)
    case (Suc p)
    then have "64 * q = Suc (64 * p + 63)" by simp
    moreover have "bit_word (64 * p + 63) \<noteq> bit_word (64 * p + 63 + 1)" by (simp add: bit_word_div)
    ultimately show ?thesis by (simp only: upt_Suc) simp
  qed simp
  moreover have "takeWhile (\<lambda>i. bit_word i = bit_word (i + 1)) (rev [64 * q..<bs_bits b] @ xs) =
      rev [64 * q..<bs_bits b] @ takeWhile (\<lambda>i. bit_word i = bit_word (i + 1)) xs" for xs
    by (rule takeWhile_append2) (simp add: same)
  ultimately show ?thesis
    unfolding fls_partial_def q_def [symmetric] by (simp only: append_Nil2)
qed

lemma bit_fls_Some:
  assumes wf: "bitstr_wf b"
  shows "\<exists>r. bit_fls b = Some r \<and> last_bit b r"
proof (cases "bs_bits b = 0")
  case True
  then show ?thesis using wf by (simp add: bit_fls_def abort_simps last_bit_def bits_of_def)
next
  case False
  define q where "q = bs_bits b div 64"
  let ?l = "rev [64 * q..<bs_bits b]"
  have le: "64 * q \<le> bs_bits b" by (simp add: q_def)
  have "findM ?l (bit_is True b) = Some (find (\<lambda>i. i \<in> bits_of b) ?l)"
    using wf by (intro findM_find) (auto simp: abort_simps)
  then have eq: "bit_fls b = (case find (\<lambda>i. i \<in> bits_of b) ?l of Some i \<Rightarrow> Some (int i)
      | None \<Rightarrow> fls_words b (int (64 * q) - 1))"
    using False wf le
    by (simp add: bit_fls_def fls_partial_upt q_def [symmetric] abort_simps of_nat_diff split: option.splits)
  show ?thesis
  proof (cases "find (\<lambda>i. i \<in> bits_of b) ?l")
    case None
    have below: "j < 64 * q" if "j \<in> bits_of b" for j
      using None that bits_of_bound [OF that] by (auto simp: find_None_iff)
    have "\<exists>r. fls_words b (int (64 * q) - 1) = Some r \<and> last_bit b r"
    proof (rule fls_words_Some [OF wf])
      show "int j \<le> int (64 * q) - 1" if "j \<in> bits_of b" for j using below [OF that] by simp
    qed (use le in auto)
    with eq None show ?thesis by simp
  next
    case (Some i)
    have "find (\<lambda>i. i \<in> bits_of b) (rev [0..<bs_bits b]) = Some i"
      using upt_add_eq_append [of 0 "64 * q" "bs_bits b - 64 * q"] le Some by (simp add: find_append)
    from find_rev_upt_Some [OF this]
    have i: "i \<in> bits_of b" "\<forall>j. i < j \<longrightarrow> j < bs_bits b \<longrightarrow> j \<notin> bits_of b"
      by auto
    have "j \<le> i" if "j \<in> bits_of b" for j
      using i(2) that bits_of_bound [OF that] by (auto simp: not_less [symmetric])
    then have "last_bit b (int i)" using i(1) by (auto simp: last_bit_def)
    with eq Some show ?thesis by simp
  qed
qed


lemma bit_ffs_Some: "bitstr_wf b \<Longrightarrow> \<exists>r. bit_ffs b = Some r \<and> first_bit True b r"
  using ff_words_Some [of b 0 True] by (simp add: bit_ffs_def abort_simps)

lemma bit_ffc_Some: "bitstr_wf b \<Longrightarrow> \<exists>r. bit_ffc b = Some r \<and> first_bit False b r"
  using ff_words_Some [of b 0 False] by (simp add: bit_ffc_def abort_simps)

lemma bit_fill_gaps_Some:
  assumes wf: "bitstr_wf b"
  obtains b' where "bit_fill_gaps b = Some b'" and "bitstr_wf b'" and "bs_bits b' = bs_bits b"
    and "bits_of b' = {i. (\<exists>j \<in> bits_of b. j \<le> i) \<and> (\<exists>k \<in> bits_of b. i \<le> k)}"
proof (cases "bits_of b = {}")
  case True
  then have "bit_ffs b = Some (-1)"
    using bit_ffs_Some [OF wf] by (auto simp: first_bit_def)
  then show thesis using that [of b] wf True by (simp add: bit_fill_gaps_def abort_simps)
next
  case False
  obtain i where i: "bit_ffs b = Some (int i)" "i \<in> bits_of b" "\<forall>j<i. j \<notin> bits_of b"
    using bit_ffs_Some [OF wf] False bits_of_bound by (force simp: first_bit_def split: if_splits)
  obtain k where k: "bit_fls b = Some (int k)" "k \<in> bits_of b" "\<forall>j\<in>bits_of b. j \<le> k"
    using bit_fls_Some [OF wf] False by (auto simp: last_bit_def)
  obtain b' where b': "bit_nset b (int i) (int k) = Some b'" "bitstr_wf b'" "bs_bits b' = bs_bits b"
    "bits_of b' = bits_of b \<union> {i..k}"
    using bit_nset_Some [OF wf, of i k] i(2) k(2) bits_of_bound by metis
  have below: "i \<le> j" if "j \<in> bits_of b" for j using i(3) that by (auto simp: not_less [symmetric])
  have "bits_of b \<union> {i..k} = {x. (\<exists>j \<in> bits_of b. j \<le> x) \<and> (\<exists>j \<in> bits_of b. x \<le> j)}"
    using i(2) k(2,3) below by (auto intro: le_trans) (meson le_trans)+
  with b' i(1) k(1) wf show thesis by (intro that [of b']) (simp_all add: bit_fill_gaps_def abort_simps)
qed



section \<open>Correctness of the run searches\<close>

text \<open>\<open>run_at v b n a\<close>: the \<open>n\<close> bits from \<open>a\<close> on all exist and have value \<open>v\<close>.\<close>

definition run_at :: "bool \<Rightarrow> bitstr \<Rightarrow> nat \<Rightarrow> nat \<Rightarrow> bool" where
  "run_at v b n a \<longleftrightarrow> a + n \<le> bs_bits b \<and> (\<forall>i \<in> {a..<a + n}. (i \<in> bits_of b) = v)"

text \<open>
  \<open>first_run v b n s e r\<close>: \<open>r\<close> is the start of the first run of \<open>n\<close> bits inside the positions
  from \<open>s\<close> up to \<open>e\<close>, or -1 when there is none.
\<close>

definition first_run :: "bool \<Rightarrow> bitstr \<Rightarrow> nat \<Rightarrow> nat \<Rightarrow> nat \<Rightarrow> int \<Rightarrow> bool" where
  "first_run v b n s e r \<longleftrightarrow>
     (if \<exists>a \<ge> s. a + n \<le> e \<and> run_at v b n a
      then \<exists>a \<ge> s. r = int a \<and> a + n \<le> e \<and> run_at v b n a \<and> (\<forall>c. s \<le> c \<longrightarrow> c < a \<longrightarrow> \<not> run_at v b n c)
      else r = -1)"

lemma first_runI:
  "s \<le> a \<Longrightarrow> a + n \<le> e \<Longrightarrow> run_at v b n a \<Longrightarrow> (\<And>c. s \<le> c \<Longrightarrow> c < a \<Longrightarrow> \<not> run_at v b n c) \<Longrightarrow>
   first_run v b n s e (int a)"
  by (auto simp: first_run_def)

lemma first_run_noneI:
  "(\<And>a. s \<le> a \<Longrightarrow> a + n \<le> e \<Longrightarrow> \<not> run_at v b n a) \<Longrightarrow> first_run v b n s e (-1)"
  by (auto simp: first_run_def)

text \<open>
  The state of the loop at position \<open>k\<close>: no run ended yet, and the last \<open>cnt\<close> bits are the
  longest stretch of value \<open>v\<close> that ends at \<open>k\<close>.
\<close>

definition run_state :: "bool \<Rightarrow> bitstr \<Rightarrow> nat \<Rightarrow> nat \<Rightarrow> nat \<Rightarrow> nat \<Rightarrow> bool" where
  "run_state v b n s k cnt \<longleftrightarrow>
     s + cnt \<le> k \<and> cnt < n \<and> (\<forall>i \<in> {k - cnt..<k}. (i \<in> bits_of b) = v) \<and>
     (s + cnt < k \<longrightarrow> (k - cnt - 1 \<in> bits_of b) \<noteq> v) \<and>
     (\<forall>a \<ge> s. a + n \<le> k \<longrightarrow> \<not> run_at v b n a)"

lemma run_state_init: "0 < n \<Longrightarrow> run_state v b n s s 0"
  by (auto simp: run_state_def)

lemma run_state_reset:
  assumes "run_state v b n s k cnt" and "(k \<in> bits_of b) \<noteq> v"
  shows "run_state v b n s (Suc k) 0"
proof -
  have "\<not> run_at v b n a" if "s \<le> a" "a + n \<le> Suc k" for a
  proof (cases "a + n = Suc k")
    case True
    then have "k \<in> {a..<a + n}" using assms(1) by (auto simp: run_state_def)
    then show ?thesis using assms(2) by (auto simp: run_at_def)
  qed (use that assms(1) in \<open>auto simp: run_state_def\<close>)
  then show ?thesis using assms by (auto simp: run_state_def)
qed

lemma run_state_count:
  assumes st: "run_state v b n s k cnt" and "(k \<in> bits_of b) = v" and "Suc cnt < n"
  shows "run_state v b n s (Suc k) (Suc cnt)"
proof -
  have "\<not> run_at v b n a" if "s \<le> a" "a + n \<le> Suc k" for a
  proof (cases "a + n = Suc k")
    case True
    then have "k - cnt - 1 \<in> {a..<a + n}" "s + cnt < k" using assms(3) that by auto
    then show ?thesis using st by (auto simp: run_at_def run_state_def)
  qed (use that st in \<open>auto simp: run_state_def\<close>)
  moreover have "{k - cnt..<Suc k} = insert k {k - cnt..<k}" by auto
  ultimately show ?thesis using assms by (auto simp: run_state_def)
qed

lemma run_state_found:
  assumes st: "run_state v b n s k cnt" and "(k \<in> bits_of b) = v" and "k < bs_bits b" and "n \<le> Suc cnt"
  shows "run_at v b n (k - cnt)" and "k - cnt + n = Suc k" and "s \<le> k - cnt"
    and "\<forall>c. s \<le> c \<longrightarrow> c < k - cnt \<longrightarrow> \<not> run_at v b n c"
proof -
  have n: "n = Suc cnt" "s + cnt \<le> k" using st assms(4) by (auto simp: run_state_def)
  moreover have "{k - cnt..<Suc k} = insert k {k - cnt..<k}" by auto
  ultimately show "run_at v b n (k - cnt)"
    using assms by (auto simp: run_state_def run_at_def)
  show "k - cnt + n = Suc k" "s \<le> k - cnt" using n by auto
  show "\<forall>c. s \<le> c \<longrightarrow> c < k - cnt \<longrightarrow> \<not> run_at v b n c" using st n by (auto simp: run_state_def)
qed

lemma run_loop_Some:
  assumes "bitstr_wf b" and "k \<le> e" and "e \<le> bs_bits b" and "run_state v b n s k cnt"
  shows "\<exists>r. run_loop v b (int n) [k..<e] cnt = Some r \<and> first_run v b n s e r"
  using assms
proof (induction "e - k" arbitrary: k cnt)
  case 0
  then have "\<not> (\<exists>a \<ge> s. a + n \<le> e \<and> run_at v b n a)" by (auto simp: run_state_def)
  with 0 show ?case by (simp add: first_run_def)
next
  case (Suc d)
  then have k: "k < e" "k < bs_bits b" and up: "[k..<e] = k # [Suc k..<e]" and d: "d = e - Suc k"
    by (simp_all add: upt_conv_Cons)
  consider (miss) "(k \<in> bits_of b) \<noteq> v" | (count) "(k \<in> bits_of b) = v" "Suc cnt < n"
    | (hit) "(k \<in> bits_of b) = v" "n \<le> Suc cnt" by linarith
  then show ?case
  proof cases
    case miss
    with Suc.hyps(1) [OF d _ _ _ run_state_reset [OF Suc.prems(4) miss]] Suc.prems k show ?thesis
      by (simp add: up abort_simps)
  next
    case count
    with Suc.hyps(1) [OF d _ _ _ run_state_count [OF Suc.prems(4) count]] Suc.prems k show ?thesis
      by (simp add: up abort_simps)
  next
    case hit
    note f = run_state_found [OF Suc.prems(4) hit(1) k(2) hit(2)]
    have "run_loop v b (int n) [k..<e] cnt = Some (int (k - cnt))"
      using hit Suc.prems k by (simp add: up abort_simps of_nat_diff run_state_def)
    moreover have "first_run v b n s e (int (k - cnt))" using f k by (intro first_runI) auto
    ultimately show ?thesis by blast
  qed
qed


lemma bit_nffc_Some:
  assumes "bitstr_wf b" and "0 < n" and "n < bs_bits b"
  shows "\<exists>r. bit_nffc b (int n) = Some r \<and> first_run False b n 0 (bs_bits b) r"
  using run_loop_Some [OF assms(1) _ _ run_state_init [OF assms(2)], of 0 "bs_bits b" False] assms
  by (simp add: bit_nffc_def abort_simps)

lemma bit_nffs_Some:
  assumes "bitstr_wf b" and "0 < n" and "n \<le> bs_bits b"
  shows "\<exists>r. bit_nffs b (int n) = Some r \<and> first_run True b n 0 (bs_bits b - n + 1) r"
proof -
  have "nat (int (bs_bits b) - int n + 1) = bs_bits b - n + 1" using assms by simp
  then show ?thesis
    using run_loop_Some [OF assms(1) _ _ run_state_init [OF assms(2)], of 0 "bs_bits b - n + 1" True] assms
    by (simp add: bit_nffs_def abort_simps del: upt_Suc)
qed

lemma noc_loop_Some:
  assumes "bitstr_wf b" and "k \<le> bs_bits b" and "run_state False b n 0 k cnt"
    and none: "\<And>a. seed \<le> a \<Longrightarrow> \<not> run_at False b n a"
  shows "\<exists>r. noc_loop b (int n) (int seed) [k..<bs_bits b] cnt = Some r \<and> first_run False b n 0 (bs_bits b) r"
  using assms(1-3)
proof (induction "bs_bits b - k" arbitrary: k cnt)
  case 0
  then have "first_run False b n 0 (bs_bits b) (-1)"
    by (intro first_run_noneI) (auto simp: run_state_def)
  with 0 show ?case by simp
next
  case (Suc d)
  then have k: "k < bs_bits b" and up: "[k..<bs_bits b] = k # [Suc k..<bs_bits b]"
    and d: "d = bs_bits b - Suc k"
    by (simp_all add: upt_conv_Cons)
  consider (stop) "k \<in> bits_of b" "seed \<le> k" | (miss) "k \<in> bits_of b" "k < seed"
    | (count) "k \<notin> bits_of b" "Suc cnt < n" | (hit) "k \<notin> bits_of b" "n \<le> Suc cnt" by linarith
  then show ?case
  proof cases
    case stop
    have "\<not> run_at False b n a" for a
    proof (cases "a < seed \<and> k < a + n")
      case True
      then have "k \<in> {a..<a + n}" using stop by auto
      then show ?thesis using stop by (auto simp: run_at_def)
    qed (use none Suc.prems(3) in \<open>auto simp: run_state_def\<close>)
    then have "first_run False b n 0 (bs_bits b) (-1)" by (intro first_run_noneI) auto
    with stop Suc.prems k show ?thesis by (simp add: up abort_simps)
  next
    case miss
    with Suc.hyps(1) [OF d _ _ run_state_reset [OF Suc.prems(3)]] Suc.prems k show ?thesis
      by (simp add: up abort_simps)
  next
    case count
    with Suc.hyps(1) [OF d _ _ run_state_count [OF Suc.prems(3)]] Suc.prems k show ?thesis
      by (simp add: up abort_simps)
  next
    case hit
    note f = run_state_found [OF Suc.prems(3) _ k hit(2)]
    have "noc_loop b (int n) (int seed) [k..<bs_bits b] cnt = Some (int (k - cnt))"
      using hit Suc.prems k by (simp add: up abort_simps of_nat_diff run_state_def)
    moreover have "first_run False b n 0 (bs_bits b) (int (k - cnt))"
      using f hit k by (intro first_runI) auto
    ultimately show ?thesis by blast
  qed
qed

lemma first_run_minus1: "first_run v b n s e r \<Longrightarrow> r = -1 \<longleftrightarrow> \<not> (\<exists>a \<ge> s. a + n \<le> e \<and> run_at v b n a)"
  by (auto simp: first_run_def split: if_splits)

lemma bit_noc_Some:
  assumes wf: "bitstr_wf b" and n: "0 < n" "n \<le> bs_bits b" and "seed + n \<le> 0x7fffffff"
  shows "\<exists>r. bit_noc b (int n) (int seed) = Some r \<and>
    first_run False b n (if seed + n < bs_bits b \<and> (\<exists>a \<ge> seed. run_at False b n a) then seed else 0) (bs_bits b) r"
proof -
  define s where "s = (if seed + n \<ge> bs_bits b then bs_bits b else seed)"
  have s: "s \<le> bs_bits b" by (simp add: s_def)
  obtain r where r: "run_loop False b (int n) [s..<bs_bits b] 0 = Some r" "first_run False b n s (bs_bits b) r"
    using run_loop_Some [OF wf s _ run_state_init [OF n(1)], of False] by auto
  have eq: "bit_noc b (int n) (int seed) =
      (if r \<noteq> -1 then Some r else noc_loop b (int n) (int s) [0..<bs_bits b] 0)"
    using wf n assms(4) r(1) by (auto simp: bit_noc_def abort_simps s_def Let_def)
  have bound: "run_at False b n a \<Longrightarrow> a + n \<le> bs_bits b" for a by (simp add: run_at_def)
  show ?thesis
  proof (cases "r = -1")
    case False
    then have "\<exists>a \<ge> s. a + n \<le> bs_bits b \<and> run_at False b n a" using first_run_minus1 [OF r(2)] by blast
    then have "s = seed" "seed + n < bs_bits b" "\<exists>a \<ge> seed. run_at False b n a"
      using n by (auto simp: s_def split: if_splits)
    with eq False r(2) show ?thesis by simp
  next
    case True
    then have none: "\<not> run_at False b n a" if "s \<le> a" for a
      using first_run_minus1 [OF r(2)] bound that by blast
    then have "\<not> (seed + n < bs_bits b \<and> (\<exists>a \<ge> seed. run_at False b n a))" by (auto simp: s_def)
    moreover have "\<exists>r. noc_loop b (int n) (int s) [0..<bs_bits b] 0 = Some r \<and> first_run False b n 0 (bs_bits b) r"
      using noc_loop_Some [OF wf _ run_state_init [OF n(1)] none, of s] by simp
    ultimately show ?thesis using eq True by auto
  qed
qed



section \<open>Correctness of rotation\<close>

text \<open>\<open>rotate_bits N n S\<close>: every position moved up by \<open>n\<close>, modulo \<open>N\<close>.\<close>

definition rotate_bits :: "nat \<Rightarrow> int \<Rightarrow> nat set \<Rightarrow> nat set" where
  "rotate_bits N n S = (\<lambda>i. nat ((int i + n) mod int N)) ` S"

lemma rotate_bits_split:
  assumes k: "int k = n mod int N" "k < N" and S: "S \<subseteq> {..<bits}" and m: "bits = m + w" "m + k \<le> N"
    and w: "w = 0 \<or> m + k = N" and "bits \<le> N"
  shows "rotate_bits N n S = (\<lambda>j. j + k) ` {j \<in> {0..<m}. j \<in> S} \<union> {d \<in> {0..<w}. m + d \<in> S}"
proof -
  have r: "nat ((int i + n) mod int N) = (i + k) mod N" for i
  proof -
    have "(int i + n) mod int N = int ((i + k) mod N)"
      using k(1) mod_add_right_eq [of "int i" n "int N"] by (simp add: zmod_int)
    then show ?thesis by (metis nat_int)
  qed
  have low: "(i + k) mod N = i + k" if "i < m" for i using that m by simp
  have high: "(m + d + k) mod N = d" if "d < w" for d
  proof -
    have "m + d + k = N + d" and d: "d < N" using that w m assms(7) by auto
    then have "(m + d + k) mod N = (N + d) mod N" by (simp only:)
    then show ?thesis using d by simp
  qed
  have "S = {j \<in> {0..<m}. j \<in> S} \<union> (\<lambda>d. m + d) ` {d \<in> {0..<w}. m + d \<in> S}"
  proof (intro equalityI subsetI)
    fix i assume i: "i \<in> S"
    then have "i < m + w" using S m(1) by auto
    then show "i \<in> {j \<in> {0..<m}. j \<in> S} \<union> (\<lambda>d. m + d) ` {d \<in> {0..<w}. m + d \<in> S}"
      using i by (cases "i < m") (auto intro!: image_eqI [of _ _ "i - m"])
  qed auto
  then have "(\<lambda>i. (i + k) mod N) ` S = (\<lambda>i. (i + k) mod N) ` ({j \<in> {0..<m}. j \<in> S} \<union>
      (\<lambda>d. m + d) ` {d \<in> {0..<w}. m + d \<in> S})"
    by (rule arg_cong)
  then have "rotate_bits N n S = (\<lambda>i. (i + k) mod N) ` {j \<in> {0..<m}. j \<in> S} \<union>
      (\<lambda>d. (m + d + k) mod N) ` {d \<in> {0..<w}. m + d \<in> S}"
    unfolding rotate_bits_def r by (simp only: image_Un image_image)
  also have "\<dots> = (\<lambda>j. j + k) ` {j \<in> {0..<m}. j \<in> S} \<union> {d \<in> {0..<w}. m + d \<in> S}"
    using low high by (auto simp: image_iff)
  finally show ?thesis .
qed

lemma bit_set_magic: "bit_set b i = Some b' \<Longrightarrow> bs_magic b' = bs_magic b"
  by (auto simp: bit_set_def Let_def split: bind_splits)

lemma bit_rotate_copy_Some:
  assumes wf: "bitstr_wf b1" and N: "0 < N" "bs_bits b1 \<le> N" "N \<le> 0x40000000"
  obtains new where "bit_rotate_copy b1 n (int N) = Some new" and "bitstr_wf new" and "bs_bits new = N"
    and "bs_magic new = BITSTR_MAGIC" and "bits_of new = rotate_bits N n (bits_of b1)"
proof -
  define k where "k = nat (n mod int N)"
  have k: "int k = n mod int N" "k < N" using N by (simp_all add: k_def nat_less_iff)
  define w where "w = (if k > N - bs_bits b1 then k - (N - bs_bits b1) else 0)"
  define m where "m = bs_bits b1 - w"
  have wm: "bs_bits b1 = m + w" "m + k \<le> N" "w = 0 \<or> m + k = N" "w \<le> N"
    using k(2) N by (auto simp: w_def m_def)
  obtain new0 where new0: "bit_alloc (int N) = Some new0" "bitstr_wf new0" "bs_bits new0 = N"
    "bits_of new0 = {}" "bs_magic new0 = BITSTR_MAGIC"
    using bit_alloc_Some [OF N(3)] .
  obtain new1 where new1: "bit_nclear new0 (int 0) (int (N - 1)) = Some new1" "bitstr_wf new1"
    "bs_bits new1 = N" "bits_of new1 = {}" "bs_magic new1 = BITSTR_MAGIC"
  proof (rule bit_nclear_Some [OF new0(2), of 0 "N - 1"])
    fix b' assume b': "bit_nclear new0 (int 0) (int (N - 1)) = Some b'" "filled False {int 0..int (N - 1)} new0 b'"
      "bitstr_wf b'" "bs_bits b' = bs_bits new0" "bits_of b' = bits_of new0 - {0..N - 1}"
    then show thesis using new0 by (intro that [of b']) (simp_all add: filled_def)
  qed (use new0(3) N(1) in simp_all)
  define shift where "shift = (\<lambda>bt new. do {
    t \<leftarrow> bit_test b1 (int bt); if t then bit_set new (int (bt + k)) else Some new })"
  define wrap where "wrap = (\<lambda>dst new. do {
    t \<leftarrow> bit_test b1 (int (m + dst)); if t then bit_set new (int dst) else Some new })"
  obtain new2 where new2: "forM [0..<m] shift new1 = Some new2" "bitstr_wf new2" "bs_bits new2 = N"
    "bits_of new2 = (\<lambda>j. j + k) ` {j \<in> {0..<m}. j \<in> bits_of b1}"
    using bit_copy_loop [OF wf new1(2), of "[0..<m]" "\<lambda>j. j" "\<lambda>j. j + k"] wm new1(3,4)
    by (auto simp: shift_def)
  obtain new3 where new3: "forM [0..<w] wrap new2 = Some new3" "bitstr_wf new3" "bs_bits new3 = N"
    "bits_of new3 = bits_of new2 \<union> {d \<in> {0..<w}. m + d \<in> bits_of b1}"
    using bit_copy_loop [OF wf new2(2), of "[0..<w]" "\<lambda>d. m + d" "\<lambda>d. d"] wm new2(3)
    by (auto simp: wrap_def)
  have "bs_magic new2 = BITSTR_MAGIC"
    using new2(1) new1(5) by (rule forM_invariant) (auto simp: shift_def bit_set_magic split: bind_splits if_splits)
  with new3(1) have magic: "bs_magic new3 = BITSTR_MAGIC"
    by (rule forM_invariant) (auto simp: wrap_def bit_set_magic split: bind_splits if_splits)
  have kn: "(if crem n (int N) < 0 then crem n (int N) + int N else crem n (int N)) = int k"
    using crem_normalized [of "int N" n] N(1) k(1) by simp
  have wn: "(if int k > int N - int (bs_bits b1) then int k - (int N - int (bs_bits b1)) else 0) = int w"
    using N(2) by (auto simp: w_def)
  have mn: "nat (int (bs_bits b1) - int w) = m" "nat (int (bs_bits b1)) - m = w" using wm(1) by auto
  have guards: "assertC (int (bs_bits b1) \<le> int N) = Some ()" "assertC (int N \<noteq> 0) = Some ()"
    and pred: "int (N - 1) = int N - 1"
    using N by auto
  have "bit_rotate_copy b1 n (int N) = do {
      new \<leftarrow> bit_nclear new0 (int 0) (int (N - 1)); new \<leftarrow> forM [0..<m] shift new; forM [0..<w] wrap new }"
    by (simp only: bit_rotate_copy_def Let_def bitstr_wf_valid [OF wf] bit_size_Some [OF wf]
        bind.bind_lunit guards kn wn mn new0(1) shift_def wrap_def of_nat_add pred) simp
  then have "bit_rotate_copy b1 n (int N) = Some new3" using new1(1) new2(1) new3(1) by simp
  moreover have "bits_of new3 = rotate_bits N n (bits_of b1)"
    unfolding new3(4) new2(4)
    by (rule rotate_bits_split [OF k _ wm(1,2,3) N(2), symmetric]) (auto dest: bits_of_bound)
  ultimately show thesis using that new3 magic by blast
qed

lemma bit_rotate_Some:
  assumes wf: "bitstr_wf b1" and "0 < bs_bits b1"
  obtains b' where "bit_rotate b1 n = Some b'" and "bitstr_wf b'" and "bs_bits b' = bs_bits b1"
    and "bits_of b' = rotate_bits (bs_bits b1) n (bits_of b1)"
proof (cases "n = 0")
  case True
  have "rotate_bits (bs_bits b1) 0 (bits_of b1) = (\<lambda>i. i) ` bits_of b1"
    unfolding rotate_bits_def by (rule image_cong) (auto simp: bits_of_def)
  with True that [of b1] wf show thesis by (simp add: bit_rotate_def)
next
  case False
  have "bs_bits b1 \<le> 0x40000000" using wf by (simp add: bitstr_wf_def)
  then obtain new where new: "bit_rotate_copy b1 n (int (bs_bits b1)) = Some new" "bitstr_wf new"
    "bs_bits new = bs_bits b1" "bs_magic new = BITSTR_MAGIC"
    "bits_of new = rotate_bits (bs_bits b1) n (bits_of b1)"
    using bit_rotate_copy_Some [OF wf assms(2) order_refl] by metis
  have "bits_of (b1\<lparr>bs_words := bs_words new\<rparr>) = bits_of new" using new(3) by (simp add: bits_of_def)
  moreover have "bitstr_wf (b1\<lparr>bs_words := bs_words new\<rparr>)" using wf new(2,3) by (simp add: bitstr_wf_def)
  moreover have "bit_rotate b1 n = Some (b1\<lparr>bs_words := bs_words new\<rparr>)"
    using False wf new by (simp add: bit_rotate_def abort_simps bit_copybits_Some bit_free_def)
  ultimately show thesis using that new(5) by simp
qed

section \<open>Properties of the searches\<close>

text \<open>
  \<^verbatim>\<open>bit_ffs\<close> and \<^verbatim>\<open>bit_ffc\<close> return the lowest set and the lowest clear position,
  \<^verbatim>\<open>bit_fls\<close> the highest set one, and each of them -1 when there is none, although they skip
  whole words.
\<close>

theorem bit_first_last:
  assumes "bitstr_wf b"
  shows "(\<exists>r. bit_ffs b = Some r \<and> first_bit True b r) \<and>
         (\<exists>r. bit_ffc b = Some r \<and> first_bit False b r) \<and>
         (\<exists>r. bit_fls b = Some r \<and> last_bit b r)"
  using bit_ffs_Some [OF assms] bit_ffc_Some [OF assms] bit_fls_Some [OF assms] by blast

theorem bit_first_last_witness: "\<exists>r. bit_fls sample1 = Some r \<and> last_bit sample1 r"
  using bit_first_last [of sample1] by simp



text \<open>
  The search for \<open>n\<close> set bits sees only the runs that end within the first \<open>size - n + 1\<close>
  positions: its loop bound leaves out the last \<open>n - 1\<close> bits.
\<close>

theorem bit_nffs_prefix:
  assumes "bitstr_wf b" and "0 < n" and "n \<le> bs_bits b"
  shows "\<exists>r. bit_nffs b (int n) = Some r \<and> first_run True b n 0 (bs_bits b - n + 1) r"
  by (rule bit_nffs_Some [OF assms])

theorem bit_nffs_prefix_witness:
  "\<exists>r. bit_nffs sample1 (int 2) = Some r \<and> first_run True sample1 2 0 69 r"
  using bit_nffs_prefix [of sample1 2] by simp

text \<open>
  A bitmap all of whose bits are set has a run of two set bits, which \<^verbatim>\<open>bit_nffs\<close>
  does not find when the bitmap has exactly two bits.
\<close>

theorem bit_nffs_misses_run:
  "run_at True \<lparr>bs_magic = BITSTR_MAGIC, bs_bits = 2, bs_words = [3]\<rparr> 2 0 \<and>
   bit_nffs \<lparr>bs_magic = BITSTR_MAGIC, bs_bits = 2, bs_words = [3]\<rparr> 2 = Some (-1)"
proof
  let ?b = "\<lparr>bs_magic = BITSTR_MAGIC, bs_bits = 2, bs_words = [3]\<rparr> :: bitstr"
  have three: "bit (3 :: u64) 0" "bit (3 :: u64) (Suc 0)" by simp_all
  have "i \<in> bits_of ?b" if "i < 2" for i
  proof -
    have "i = 0 \<or> i = 1" using that by auto
    then show ?thesis using three by (auto simp: bits_of_def wbit_def)
  qed
  then show "run_at True ?b 2 0" by (simp add: run_at_def)
  have wf: "bitstr_wf ?b" by (simp add: bitstr_wf_def bitstr_words_def)
  have "first_run True ?b 2 0 1 r \<Longrightarrow> r = -1" for r by (auto simp: first_run_def)
  then show "bit_nffs ?b 2 = Some (-1)" using bit_nffs_Some [OF wf, of 2] by auto
qed

text \<open>
  Rotating a non-empty bitmap by any distance, positive or negative, moves every set
  position by that distance modulo the size, in place and into a larger copy.
\<close>

theorem bit_rotate_moves:
  assumes "bitstr_wf b" and "0 < bs_bits b" and "bs_bits b \<le> N" and "N \<le> 0x40000000"
  shows "(\<exists>b'. bit_rotate b n = Some b' \<and> bitstr_wf b' \<and> bits_of b' = rotate_bits (bs_bits b) n (bits_of b)) \<and>
    (\<exists>b'. bit_rotate_copy b n (int N) = Some b' \<and> bs_bits b' = N \<and> bits_of b' = rotate_bits N n (bits_of b))"
proof -
  have "0 < N" using assms(2,3) by simp
  then show ?thesis
    using bit_rotate_Some [OF assms(1,2), of n] bit_rotate_copy_Some [OF assms(1) _ assms(3,4), of n] by metis
qed

theorem bit_rotate_moves_witness:
  "\<exists>b'. bit_rotate sample1 (-3) = Some b' \<and> bits_of b' = rotate_bits 70 (-3) (bits_of sample1)"
  using bit_rotate_moves [of sample1 100 "-3"] by auto

end
