(* ===== verification/Transition.thy ===== *)
theory Transition
  imports Prelude
begin

text \<open>
  Labelled transition systems: reachability and the principle that an invariant of the initial
  states that every step keeps holds in every reachable state. The concurrent components
  interpret the locale on their own step relations.
\<close>

inductive reach :: "('s \<Rightarrow> bool) \<Rightarrow> ('l \<Rightarrow> 's \<Rightarrow> 's \<Rightarrow> bool) \<Rightarrow> 's \<Rightarrow> bool"
  for init :: "'s \<Rightarrow> bool" and step :: "'l \<Rightarrow> 's \<Rightarrow> 's \<Rightarrow> bool" where
  reach_init: "init s \<Longrightarrow> reach init step s"
| reach_step: "reach init step s \<Longrightarrow> step l s s' \<Longrightarrow> reach init step s'"

locale inductive_invariant =
  fixes init :: "'s \<Rightarrow> bool" and step :: "'l \<Rightarrow> 's \<Rightarrow> 's \<Rightarrow> bool" and I :: "'s \<Rightarrow> bool"
  assumes holds_init: "init s \<Longrightarrow> I s"
    and kept_step: "I s \<Longrightarrow> step l s s' \<Longrightarrow> I s'"
begin

lemma reachable: "reach init step s \<Longrightarrow> I s"
  by (induction rule: reach.induct) (auto intro: holds_init kept_step)

end


text \<open>
  A component whose operations are deterministic functions refines its specification when each
  operation allowed by the specification runs, gives the same result, and keeps the two states
  related. Then so does every sequence of operations.
\<close>

fun run_ops :: "('op \<Rightarrow> 's \<Rightarrow> ('r \<times> 's) option) \<Rightarrow> 'op list \<Rightarrow> 's \<Rightarrow> ('r list \<times> 's) option" where
  "run_ops f [] s = Some ([], s)"
| "run_ops f (op # ops) s = do {
     (r, s) \<leftarrow> f op s;
     (rs, s) \<leftarrow> run_ops f ops s;
     Some (r # rs, s) }"

locale functional_refinement =
  fixes exec :: "'op \<Rightarrow> 'c \<Rightarrow> ('r \<times> 'c) option"
    and spec :: "'op \<Rightarrow> 'a \<Rightarrow> ('r \<times> 'a) option"
    and sim :: "'a \<Rightarrow> 'c \<Rightarrow> bool"
  assumes sim_step: "sim s c \<Longrightarrow> spec op s = Some (r, s') \<Longrightarrow> \<exists>c'. exec op c = Some (r, c') \<and> sim s' c'"
begin

lemma sim_run:
  "sim s c \<Longrightarrow> run_ops spec ops s = Some (rs, s') \<Longrightarrow> \<exists>c'. run_ops exec ops c = Some (rs, c') \<and> sim s' c'"
proof (induction ops arbitrary: s c rs)
  case (Cons op ops)
  obtain r t rs' where r: "spec op s = Some (r, t)" "run_ops spec ops t = Some (rs', s')" "rs = r # rs'"
    using Cons.prems(2) by (auto split: bind_splits)
  obtain d where d: "exec op c = Some (r, d)" "sim t d" using sim_step [OF Cons.prems(1) r(1)] by blast
  with Cons.IH [OF d(2) r(2)] r(3) show ?case by auto
qed simp

end

end
