(* ===== verification/Locks.thy ===== *)
theory Locks
  imports Transition
begin

text \<open>
  The read/write locks of the controller (src/slurmctld/locks.c and locks.h): five data types,
  each with four counters in one integer array, writers preferred over readers, and the
  acquisition of any combination of locks in a fixed order. Every critical section of the code,
  from taking \<^verbatim>\<open>locks_mutex\<close> to releasing it or waiting on the condition variable, is one
  function on the counters; the threads that execute them are a step relation.
\<close>

section \<open>Counters and critical sections\<close>

datatype lock_level = NO_LOCK | READ_LOCK | WRITE_LOCK

record slurmctld_lock =
  lk_config :: lock_level
  lk_job :: lock_level
  lk_node :: lock_level
  lk_partition :: lock_level
  lk_federation :: lock_level

datatype lock_datatype = CONFIG_LOCK | JOB_LOCK | NODE_LOCK | PART_LOCK | FED_LOCK

fun lock_num :: "lock_datatype \<Rightarrow> nat" where
  "lock_num CONFIG_LOCK = 0"
| "lock_num JOB_LOCK = 1"
| "lock_num NODE_LOCK = 2"
| "lock_num PART_LOCK = 3"
| "lock_num FED_LOCK = 4"

definition ENTITY_COUNT :: nat where
  "ENTITY_COUNT = 5"

definition read_lock :: "lock_datatype \<Rightarrow> nat" where
  "read_lock t = lock_num t * 4 + 0"

definition write_lock :: "lock_datatype \<Rightarrow> nat" where
  "write_lock t = lock_num t * 4 + 1"

definition write_wait_lock :: "lock_datatype \<Rightarrow> nat" where
  "write_wait_lock t = lock_num t * 4 + 2"

definition write_cnt_lock :: "lock_datatype \<Rightarrow> nat" where
  "write_cnt_lock t = lock_num t * 4 + 3"

type_synonym lock_flags = "int list"

definition init_locks :: lock_flags where
  "init_locks = replicate (ENTITY_COUNT * 4) 0"

text \<open>The body of the loop in \<^verbatim>\<open>_wr_rdlock\<close>: the new counters, or nothing when it must wait.\<close>

definition rd_attempt :: "lock_flags \<Rightarrow> lock_datatype \<Rightarrow> lock_flags option" where
  "rd_attempt e t =
     (if e ! write_lock t = 0 \<and> e ! write_wait_lock t = 0
      then Some (e[read_lock t := e ! read_lock t + 1, write_cnt_lock t := 0])
      else None)"

definition wr_rdlock_nowait :: "lock_flags \<Rightarrow> lock_datatype \<Rightarrow> bool \<times> lock_flags" where
  "wr_rdlock_nowait e t = (case rd_attempt e t of Some e' \<Rightarrow> (True, e') | None \<Rightarrow> (False, e))"

definition wr_rdunlock :: "lock_flags \<Rightarrow> lock_datatype \<Rightarrow> lock_flags" where
  "wr_rdunlock e t = e[read_lock t := e ! read_lock t - 1]"

text \<open>\<^verbatim>\<open>_wr_wrlock\<close> announces itself before its loop.\<close>

definition wr_enter :: "lock_flags \<Rightarrow> lock_datatype \<Rightarrow> lock_flags" where
  "wr_enter e t = e[write_wait_lock t := e ! write_wait_lock t + 1]"

definition wr_attempt :: "lock_flags \<Rightarrow> lock_datatype \<Rightarrow> lock_flags option" where
  "wr_attempt e t =
     (if e ! read_lock t = 0 \<and> e ! write_lock t = 0
      then Some (e[write_lock t := e ! write_lock t + 1,
                   write_wait_lock t := e ! write_wait_lock t - 1,
                   write_cnt_lock t := e ! write_cnt_lock t + 1])
      else None)"

definition wr_wrlock_nowait :: "lock_flags \<Rightarrow> lock_datatype \<Rightarrow> bool \<times> lock_flags" where
  "wr_wrlock_nowait e t =
     (let e1 = wr_enter e t in
      case wr_attempt e1 t of
        Some e' \<Rightarrow> (True, e')
      | None \<Rightarrow> (False, e1[write_wait_lock t := e1 ! write_wait_lock t - 1]))"

definition wr_wrunlock :: "lock_flags \<Rightarrow> lock_datatype \<Rightarrow> lock_flags" where
  "wr_wrunlock e t = e[write_lock t := e ! write_lock t - 1]"


section \<open>Combinations of locks\<close>

fun level :: "slurmctld_lock \<Rightarrow> lock_datatype \<Rightarrow> lock_level" where
  "level lv CONFIG_LOCK = lk_config lv"
| "level lv JOB_LOCK = lk_job lv"
| "level lv NODE_LOCK = lk_node lv"
| "level lv PART_LOCK = lk_partition lv"
| "level lv FED_LOCK = lk_federation lv"

text \<open>The order in which \<^verbatim>\<open>lock_slurmctld\<close> and \<^verbatim>\<open>try_lock_slurmctld\<close> treat the data types.\<close>

definition lock_order :: "lock_datatype list" where
  "lock_order = [CONFIG_LOCK, JOB_LOCK, NODE_LOCK, PART_LOCK, FED_LOCK]"

definition acquire_nowait :: "slurmctld_lock \<Rightarrow> lock_datatype \<Rightarrow> lock_flags \<Rightarrow> bool \<times> lock_flags" where
  "acquire_nowait lv t e =
     (case level lv t of
        READ_LOCK \<Rightarrow> wr_rdlock_nowait e t
      | WRITE_LOCK \<Rightarrow> wr_wrlock_nowait e t
      | NO_LOCK \<Rightarrow> (True, e))"

definition release :: "slurmctld_lock \<Rightarrow> lock_datatype \<Rightarrow> lock_flags \<Rightarrow> lock_flags" where
  "release lv t e =
     (case level lv t of
        READ_LOCK \<Rightarrow> wr_rdunlock e t
      | WRITE_LOCK \<Rightarrow> wr_wrunlock e t
      | NO_LOCK \<Rightarrow> e)"

text \<open>
  \<^verbatim>\<open>try_lock_slurmctld\<close>, run without interleaving: \<open>got\<close> holds the data types treated so far,
  the latest first, which is the order in which a failure releases them.
\<close>

fun try_from :: "slurmctld_lock \<Rightarrow> lock_datatype list \<Rightarrow> lock_datatype list \<Rightarrow> lock_flags \<Rightarrow> int \<times> lock_flags" where
  "try_from lv got [] e = (0, e)"
| "try_from lv got (t # ts) e =
     (let (success, e') = acquire_nowait lv t e in
      if success then try_from lv (t # got) ts e'
      else (-1, fold (release lv) got e'))"

definition try_lock_slurmctld :: "slurmctld_lock \<Rightarrow> lock_flags \<Rightarrow> int \<times> lock_flags" where
  "try_lock_slurmctld lv e = try_from lv [] lock_order e"

definition unlock_slurmctld :: "slurmctld_lock \<Rightarrow> lock_flags \<Rightarrow> lock_flags" where
  "unlock_slurmctld lv e = fold (release lv) (rev lock_order) e"


section \<open>Threads\<close>

text \<open>
  Where a thread is in the code. \<open>Locking lv ts\<close> is in \<^verbatim>\<open>lock_slurmctld\<close> with \<open>ts\<close> still to
  acquire; \<open>WaitRead\<close> and \<open>WaitWrite\<close> are in \<^verbatim>\<open>slurm_cond_wait\<close> for the data type \<open>t\<close>, the flag
  telling whether the wait has ended; \<open>Trying\<close> is in \<^verbatim>\<open>try_lock_slurmctld\<close>; \<open>Unlocking lv ts\<close>
  has \<open>ts\<close> still to release, in \<^verbatim>\<open>unlock_slurmctld\<close> or in the failure path of
  \<^verbatim>\<open>try_lock_slurmctld\<close>; \<open>Exited\<close> left by \<^verbatim>\<open>pthread_exit\<close> while waiting, as a writer if its
  last argument holds.
\<close>

datatype pc =
    Idle
  | Locking slurmctld_lock "lock_datatype list"
  | WaitRead slurmctld_lock lock_datatype "lock_datatype list" bool
  | WaitWrite slurmctld_lock lock_datatype "lock_datatype list" bool
  | Trying slurmctld_lock "lock_datatype list"
  | Holding slurmctld_lock
  | Unlocking slurmctld_lock "lock_datatype list"
  | Exited slurmctld_lock lock_datatype "lock_datatype list" bool

text \<open>
  \<open>mutex_lost\<close>: a thread exited between \<^verbatim>\<open>slurm_cond_wait\<close> and \<^verbatim>\<open>slurm_mutex_unlock\<close>, so
  \<^verbatim>\<open>locks_mutex\<close> stays locked and no critical section can start.
\<close>

record lock_state =
  flags :: lock_flags
  kill_thread :: bool
  mutex_lost :: bool
  threads :: "pc list"

fun wake :: "pc \<Rightarrow> pc" where
  "wake (WaitRead lv t ts sig) = WaitRead lv t ts True"
| "wake (WaitWrite lv t ts sig) = WaitWrite lv t ts True"
| "wake p = p"

text \<open>
  The effect of thread \<open>i\<close> moving to \<open>p\<close> with counters \<open>e\<close>; with \<open>bc\<close> it also broadcasts the
  condition.
\<close>

definition goto :: "nat \<Rightarrow> pc \<Rightarrow> lock_flags \<Rightarrow> bool \<Rightarrow> lock_state \<Rightarrow> lock_state" where
  "goto i p e bc s =
     s\<lparr>flags := e,
       threads := (if bc then map wake ((threads s)[i := p]) else (threads s)[i := p])\<rparr>"

text \<open>
  What thread code does at its own position, a function of the position and the counters:
  the next position, the counters, and whether it broadcasts. \<^term>\<open>None\<close> is a thread that
  cannot move by itself.
\<close>

fun advance :: "bool \<Rightarrow> lock_flags \<Rightarrow> pc \<Rightarrow> (pc \<times> lock_flags \<times> bool) option" where
  "advance kill e Idle = None"
| "advance kill e (Locking lv []) = Some (Holding lv, e, False)"
| "advance kill e (Locking lv (t # ts)) =
     (case level lv t of
        NO_LOCK \<Rightarrow> Some (Locking lv ts, e, False)
      | READ_LOCK \<Rightarrow>
          (case rd_attempt e t of
             Some e' \<Rightarrow> Some (Locking lv ts, e', False)
           | None \<Rightarrow> Some (WaitRead lv t ts False, e, False))
      | WRITE_LOCK \<Rightarrow>
          (let e1 = wr_enter e t in
           case wr_attempt e1 t of
             Some e' \<Rightarrow> Some (Locking lv ts, e', False)
           | None \<Rightarrow> Some (WaitWrite lv t ts False, e1, False)))"
| "advance kill e (WaitRead lv t ts sig) =
     (if \<not> sig then None
      else if kill then Some (Exited lv t ts False, e, False)
      else case rd_attempt e t of
             Some e' \<Rightarrow> Some (Locking lv ts, e', False)
           | None \<Rightarrow> Some (WaitRead lv t ts False, e, False))"
| "advance kill e (WaitWrite lv t ts sig) =
     (if \<not> sig then None
      else if kill then Some (Exited lv t ts True, e, False)
      else case wr_attempt e t of
             Some e' \<Rightarrow> Some (Locking lv ts, e', False)
           | None \<Rightarrow> Some (WaitWrite lv t ts False, e, False))"
| "advance kill e (Trying lv []) = Some (Holding lv, e, False)"
| "advance kill e (Trying lv (t # ts)) =
     (let (success, e') = acquire_nowait lv t e in
      if success then Some (Trying lv ts, e', False)
      else Some (Unlocking lv (drop (Suc (length ts)) (rev lock_order)), e', False))"
| "advance kill e (Holding lv) = Some (Unlocking lv (rev lock_order), e, False)"
| "advance kill e (Unlocking lv []) = Some (Idle, e, False)"
| "advance kill e (Unlocking lv (t # ts)) =
     Some (Unlocking lv ts, release lv t e, level lv t \<noteq> NO_LOCK)"
| "advance kill e (Exited lv t ts w) = None"

text \<open>
  The steps. The label names the thread that moves, or is \<^term>\<open>None\<close> for
  \<^verbatim>\<open>kill_locked_threads\<close> and for a wait that ends without a signal, which POSIX allows.
\<close>

fun is_exited :: "pc \<Rightarrow> bool" where
  "is_exited (Exited lv t ts w) = True"
| "is_exited p = False"

text \<open>The positions whose next action begins by taking \<^verbatim>\<open>locks_mutex\<close>.\<close>

fun takes_mutex :: "pc \<Rightarrow> bool" where
  "takes_mutex (Locking lv (t # ts)) = (level lv t \<noteq> NO_LOCK)"
| "takes_mutex (WaitRead lv t ts sig) = True"
| "takes_mutex (WaitWrite lv t ts sig) = True"
| "takes_mutex (Trying lv (t # ts)) = (level lv t \<noteq> NO_LOCK)"
| "takes_mutex (Unlocking lv (t # ts)) = (level lv t \<noteq> NO_LOCK)"
| "takes_mutex p = False"

inductive lock_step :: "nat option \<Rightarrow> lock_state \<Rightarrow> lock_state \<Rightarrow> bool" where
  start_lock: "i < length (threads s) \<Longrightarrow> threads s ! i = Idle \<Longrightarrow>
    lock_step (Some i) s (goto i (Locking lv lock_order) (flags s) False s)"
| start_try: "i < length (threads s) \<Longrightarrow> threads s ! i = Idle \<Longrightarrow>
    lock_step (Some i) s (goto i (Trying lv lock_order) (flags s) False s)"
| move: "i < length (threads s) \<Longrightarrow> \<not> (mutex_lost s \<and> takes_mutex (threads s ! i)) \<Longrightarrow>
    advance (kill_thread s) (flags s) (threads s ! i) = Some (p, e, bc) \<Longrightarrow>
    lock_step (Some i) s ((goto i p e bc s)\<lparr>mutex_lost := mutex_lost s \<or> is_exited p\<rparr>)"
| spurious: "i < length (threads s) \<Longrightarrow>
    lock_step None s (s\<lparr>threads := (threads s)[i := wake (threads s ! i)]\<rparr>)"
| kill_locked_threads:
    "lock_step None s (s\<lparr>kill_thread := True, threads := map wake (threads s)\<rparr>)"

definition lock_init :: "lock_state \<Rightarrow> bool" where
  "lock_init s \<longleftrightarrow> flags s = init_locks \<and> \<not> kill_thread s \<and> \<not> mutex_lost s \<and>
     (\<forall>p \<in> set (threads s). p = Idle)"

inductive_cases lock_stepE: "lock_step l s s'"


section \<open>The invariant\<close>

text \<open>What a thread holds at each position, and whether it is counted as a waiting writer.\<close>

fun held :: "pc \<Rightarrow> lock_datatype \<Rightarrow> lock_level" where
  "held Idle t = NO_LOCK"
| "held (Locking lv ts) t = (if t \<in> set ts then NO_LOCK else level lv t)"
| "held (WaitRead lv t' ts sig) t = (if t \<in> set (t' # ts) then NO_LOCK else level lv t)"
| "held (WaitWrite lv t' ts sig) t = (if t \<in> set (t' # ts) then NO_LOCK else level lv t)"
| "held (Trying lv ts) t = (if t \<in> set ts then NO_LOCK else level lv t)"
| "held (Holding lv) t = level lv t"
| "held (Unlocking lv ts) t = (if t \<in> set ts then level lv t else NO_LOCK)"
| "held (Exited lv t' ts w) t = (if t \<in> set (t' # ts) then NO_LOCK else level lv t)"

fun waits_write :: "pc \<Rightarrow> lock_datatype \<Rightarrow> bool" where
  "waits_write (WaitWrite lv t' ts sig) t = (t' = t)"
| "waits_write (Exited lv t' ts w) t = (w \<and> t' = t)"
| "waits_write p t = False"

text \<open>The lists of data types in a position are the tails of the acquisition or release order.\<close>

definition todo :: "lock_datatype list \<Rightarrow> bool" where
  "todo ts \<longleftrightarrow> (\<exists>n. ts = drop n lock_order)"

definition undo :: "lock_datatype list \<Rightarrow> bool" where
  "undo ts \<longleftrightarrow> (\<exists>n. ts = drop n (rev lock_order))"

fun pc_ok :: "pc \<Rightarrow> bool" where
  "pc_ok (Locking lv ts) = todo ts"
| "pc_ok (WaitRead lv t ts sig) = (todo (t # ts) \<and> level lv t = READ_LOCK)"
| "pc_ok (WaitWrite lv t ts sig) = (todo (t # ts) \<and> level lv t = WRITE_LOCK)"
| "pc_ok (Trying lv ts) = todo ts"
| "pc_ok (Unlocking lv ts) = undo ts"
| "pc_ok (Exited lv t ts w) = todo (t # ts)"
| "pc_ok p = True"

text \<open>A thread whose wait has not been ended still cannot have its lock.\<close>

fun asleep_ok :: "lock_flags \<Rightarrow> pc \<Rightarrow> bool" where
  "asleep_ok e (WaitRead lv t ts sig) = (sig \<or> rd_attempt e t = None)"
| "asleep_ok e (WaitWrite lv t ts sig) = (sig \<or> wr_attempt e t = None)"
| "asleep_ok e p = True"

definition count_pc :: "(pc \<Rightarrow> bool) \<Rightarrow> pc list \<Rightarrow> int" where
  "count_pc P ps = int (length (filter P ps))"

definition counters_ok :: "lock_flags \<Rightarrow> pc list \<Rightarrow> bool" where
  "counters_ok e ps \<longleftrightarrow> length e = ENTITY_COUNT * 4 \<and>
     (\<forall>t. e ! read_lock t = count_pc (\<lambda>p. held p t = READ_LOCK) ps \<and>
          e ! write_lock t = count_pc (\<lambda>p. held p t = WRITE_LOCK) ps \<and>
          e ! write_wait_lock t = count_pc (\<lambda>p. waits_write p t) ps)"

definition exclusive :: "lock_flags \<Rightarrow> bool" where
  "exclusive e \<longleftrightarrow> (\<forall>t. e ! write_lock t = 0 \<or> e ! write_lock t = 1 \<and> e ! read_lock t = 0)"

definition lock_inv :: "lock_state \<Rightarrow> bool" where
  "lock_inv s \<longleftrightarrow> counters_ok (flags s) (threads s) \<and> exclusive (flags s) \<and>
     (\<forall>p \<in> set (threads s). pc_ok p \<and> asleep_ok (flags s) p) \<and>
     (mutex_lost s \<longrightarrow> kill_thread s) \<and>
     (\<forall>p \<in> set (threads s). is_exited p \<longrightarrow> kill_thread s)"

lemma lock_index [simp]:
  "read_lock t = read_lock t' \<longleftrightarrow> t = t'" "write_lock t = write_lock t' \<longleftrightarrow> t = t'"
  "write_wait_lock t = write_wait_lock t' \<longleftrightarrow> t = t'" "write_cnt_lock t = write_cnt_lock t' \<longleftrightarrow> t = t'"
  "read_lock t \<noteq> write_lock t'" "read_lock t \<noteq> write_wait_lock t'" "read_lock t \<noteq> write_cnt_lock t'"
  "write_lock t \<noteq> read_lock t'" "write_lock t \<noteq> write_wait_lock t'" "write_lock t \<noteq> write_cnt_lock t'"
  "write_wait_lock t \<noteq> read_lock t'" "write_wait_lock t \<noteq> write_lock t'" "write_wait_lock t \<noteq> write_cnt_lock t'"
  "write_cnt_lock t \<noteq> read_lock t'" "write_cnt_lock t \<noteq> write_lock t'" "write_cnt_lock t \<noteq> write_wait_lock t'"
  by (cases t; cases t'; simp add: read_lock_def write_lock_def write_wait_lock_def write_cnt_lock_def)+

lemma lock_index_bound [simp]:
  "read_lock t < ENTITY_COUNT * 4" "write_lock t < ENTITY_COUNT * 4"
  "write_wait_lock t < ENTITY_COUNT * 4" "write_cnt_lock t < ENTITY_COUNT * 4"
  by (cases t; simp add: read_lock_def write_lock_def write_wait_lock_def write_cnt_lock_def ENTITY_COUNT_def)+

lemma count_pc_update:
  assumes "i < length ps"
  shows "count_pc P (ps[i := p]) = count_pc P ps - of_bool (P (ps ! i)) + of_bool (P p)"
proof -
  have ps: "ps = take i ps @ ps ! i # drop (Suc i) ps" using assms by (simp add: id_take_nth_drop)
  have "ps[i := p] = take i ps @ p # drop (Suc i) ps" using assms by (simp add: upd_conv_take_nth_drop)
  then have "length (filter P (ps[i := p])) =
      length (filter P (take i ps)) + of_bool (P p) + length (filter P (drop (Suc i) ps))"
    by simp
  moreover have "length (filter P ps) =
      length (filter P (take i ps)) + of_bool (P (ps ! i)) + length (filter P (drop (Suc i) ps))"
    by (subst ps) simp
  ultimately show ?thesis by (simp add: count_pc_def)
qed

lemma count_pc_map_wake: "(\<And>p. P (wake p) = P p) \<Longrightarrow> count_pc P (map wake ps) = count_pc P ps"
  by (simp add: count_pc_def filter_map comp_def)

lemma wake_simps [simp]:
  "held (wake p) t = held p t" "waits_write (wake p) t = waits_write p t" "pc_ok (wake p) = pc_ok p"
  "is_exited (wake p) = is_exited p" "asleep_ok e (wake p)"
  by (cases p; simp)+

lemma count_pc_nonneg [simp]: "0 \<le> count_pc P ps"
  by (simp add: count_pc_def)

lemma count_pc_pos: "i < length ps \<Longrightarrow> P (ps ! i) \<Longrightarrow> 0 < count_pc P ps"
  by (auto simp: count_pc_def length_filter_conv_card card_gt_0_iff)

lemma count_pc_pos_ex: "count_pc P ps \<noteq> 0 \<Longrightarrow> \<exists>i < length ps. P (ps ! i)"
  by (auto simp: count_pc_def filter_empty_conv in_set_conv_nth)

lemma counters_ok_wake: "counters_ok e (map wake ps) = counters_ok e ps"
  by (simp add: counters_ok_def count_pc_map_wake)

text \<open>One thread moves: the counters change by what it gains and gives up.\<close>

lemma counters_ok_move:
  assumes "counters_ok e ps" and "i < length ps" and "length e' = length e"
    and "\<And>t. e' ! read_lock t = e ! read_lock t - of_bool (held (ps ! i) t = READ_LOCK) + of_bool (held p t = READ_LOCK)"
    and "\<And>t. e' ! write_lock t = e ! write_lock t - of_bool (held (ps ! i) t = WRITE_LOCK) + of_bool (held p t = WRITE_LOCK)"
    and "\<And>t. e' ! write_wait_lock t = e ! write_wait_lock t - of_bool (waits_write (ps ! i) t) + of_bool (waits_write p t)"
  shows "counters_ok e' (ps[i := p])"
  using assms by (simp add: counters_ok_def count_pc_update)

lemma drop_Cons_cases: "ys = drop n (x # xs) \<longleftrightarrow> n = 0 \<and> ys = x # xs \<or> (\<exists>m. n = Suc m \<and> ys = drop m xs)"
  by (cases n) auto

lemma todo_iff: "todo ts \<longleftrightarrow> ts \<in> set [drop 0 lock_order, drop 1 lock_order, drop 2 lock_order,
    drop 3 lock_order, drop 4 lock_order, []]"
proof
  assume "todo ts"
  then obtain n where n: "ts = drop n lock_order" by (auto simp: todo_def)
  have "n = 0 \<or> n = 1 \<or> n = 2 \<or> n = 3 \<or> n = 4 \<or> 5 \<le> n" by arith
  then show "ts \<in> set [drop 0 lock_order, drop 1 lock_order, drop 2 lock_order,
    drop 3 lock_order, drop 4 lock_order, []]"
    using n by (auto simp: lock_order_def)
next
  assume "ts \<in> set [drop 0 lock_order, drop 1 lock_order, drop 2 lock_order,
    drop 3 lock_order, drop 4 lock_order, []]"
  moreover have "[] = drop 5 lock_order" by (simp add: lock_order_def)
  ultimately show "todo ts" unfolding todo_def by (auto intro: exI [of _ 0])
qed

lemma all_data_types: "(UNIV :: lock_datatype set) = set lock_order"
  unfolding lock_order_def using lock_datatype.exhaust by auto

lemma todo_Cons: "todo (t # ts) \<Longrightarrow> todo ts \<and> t \<notin> set ts"
  by (auto simp: todo_iff lock_order_def)

lemma todo_order: "todo lock_order"
  by (auto simp: todo_def intro: exI [of _ 0])

lemma undo_Cons: "undo (t # ts) \<Longrightarrow> undo ts \<and> t \<notin> set ts"
proof -
  assume "undo (t # ts)"
  then obtain n where n: "t # ts = drop n (rev lock_order)" by (auto simp: undo_def)
  then have "ts = drop (Suc n) (rev lock_order)" by (metis drop_Suc tl_drop list.sel(3))
  moreover have "distinct (t # ts)" unfolding n by (simp add: lock_order_def)
  ultimately show ?thesis by (auto simp: undo_def)
qed

lemma rollback_set: "todo us \<Longrightarrow> t \<in> set (drop (length us) (rev lock_order)) \<longleftrightarrow> t \<notin> set us"
  by (cases t) (auto simp: todo_iff lock_order_def)

text \<open>\<open>delta e e' r w q\<close>: how the counters differ.\<close>

definition delta :: "lock_flags \<Rightarrow> lock_flags \<Rightarrow> (lock_datatype \<Rightarrow> int) \<Rightarrow> (lock_datatype \<Rightarrow> int) \<Rightarrow>
    (lock_datatype \<Rightarrow> int) \<Rightarrow> bool" where
  "delta e e' r w q \<longleftrightarrow> length e' = length e \<and>
     (\<forall>t. e' ! read_lock t = e ! read_lock t + r t \<and> e' ! write_lock t = e ! write_lock t + w t \<and>
          e' ! write_wait_lock t = e ! write_wait_lock t + q t)"

lemma rd_attempt_delta:
  "length e = ENTITY_COUNT * 4 \<Longrightarrow> rd_attempt e t = Some e' \<Longrightarrow>
   delta e e' (\<lambda>u. of_bool (u = t)) (\<lambda>u. 0) (\<lambda>u. 0)"
  by (auto simp: rd_attempt_def delta_def nth_list_update split: if_splits)

lemma wr_attempt_delta:
  "length e = ENTITY_COUNT * 4 \<Longrightarrow> wr_attempt e t = Some e' \<Longrightarrow>
   delta e e' (\<lambda>u. 0) (\<lambda>u. of_bool (u = t)) (\<lambda>u. - of_bool (u = t))"
  by (auto simp: wr_attempt_def delta_def nth_list_update split: if_splits)

lemma wr_enter_delta:
  "length e = ENTITY_COUNT * 4 \<Longrightarrow> delta e (wr_enter e t) (\<lambda>u. 0) (\<lambda>u. 0) (\<lambda>u. of_bool (u = t))"
  by (auto simp: wr_enter_def delta_def nth_list_update)

lemma wr_enter_attempt_delta:
  assumes "length e = ENTITY_COUNT * 4" and "wr_attempt (wr_enter e t) t = Some e'"
  shows "delta e e' (\<lambda>u. 0) (\<lambda>u. of_bool (u = t)) (\<lambda>u. 0)"
  using wr_enter_delta [OF assms(1), of t] wr_attempt_delta [OF _ assms(2)] assms(1) by (auto simp: delta_def)

lemma release_delta:
  "length e = ENTITY_COUNT * 4 \<Longrightarrow>
   delta e (release lv t e) (\<lambda>u. - of_bool (u = t \<and> level lv t = READ_LOCK))
     (\<lambda>u. - of_bool (u = t \<and> level lv t = WRITE_LOCK)) (\<lambda>u. 0)"
  by (auto simp: release_def wr_rdunlock_def wr_wrunlock_def delta_def nth_list_update split: lock_level.splits)

lemma acquire_nowait_cases:
  assumes "acquire_nowait lv t e = (ok, e')"
  obtains (no) "level lv t = NO_LOCK" "ok" "e' = e"
    | (rd) "level lv t = READ_LOCK" "ok" "rd_attempt e t = Some e'"
    | (wr) "level lv t = WRITE_LOCK" "ok" "wr_attempt (wr_enter e t) t = Some e'"
    | (fail) "\<not> ok" "e' = e"
proof -
  have undo: "(wr_enter e t)[write_wait_lock t := wr_enter e t ! write_wait_lock t - 1] = e"
    by (cases "write_wait_lock t < length e") (simp_all add: wr_enter_def list_update_beyond not_less)
  show thesis
  proof (cases "level lv t")
    case NO_LOCK
    then show thesis using assms no by (simp add: acquire_nowait_def)
  next
    case READ_LOCK
    then show thesis using assms rd fail
      by (auto simp: acquire_nowait_def wr_rdlock_nowait_def split: option.splits)
  next
    case WRITE_LOCK
    then show thesis using assms wr fail undo
      by (auto simp: acquire_nowait_def wr_wrlock_nowait_def Let_def split: option.splits)
  qed
qed

text \<open>Acquiring a lock keeps exclusion and wakes nobody that could run.\<close>

definition keeps :: "lock_flags \<Rightarrow> lock_flags \<Rightarrow> bool" where
  "keeps e e' \<longleftrightarrow> exclusive e' \<and> (\<forall>p. asleep_ok e p \<longrightarrow> asleep_ok e' p)"

definition counts_nonneg :: "lock_flags \<Rightarrow> bool" where
  "counts_nonneg e \<longleftrightarrow> (\<forall>t. 0 \<le> e ! read_lock t \<and> 0 \<le> e ! write_lock t \<and> 0 \<le> e ! write_wait_lock t)"

lemma asleep_ok_mono:
  assumes "\<And>t. rd_attempt e t = None \<Longrightarrow> rd_attempt e' t = None"
    and "\<And>t. wr_attempt e t = None \<Longrightarrow> wr_attempt e' t = None"
  shows "asleep_ok e p \<longrightarrow> asleep_ok e' p"
  using assms by (cases p) auto

lemma attempt_None_iff:
  "rd_attempt e t = None \<longleftrightarrow> e ! write_lock t \<noteq> 0 \<or> e ! write_wait_lock t \<noteq> 0"
  "wr_attempt e t = None \<longleftrightarrow> e ! read_lock t \<noteq> 0 \<or> e ! write_lock t \<noteq> 0"
  by (auto simp: rd_attempt_def wr_attempt_def)

lemma keeps_refl: "exclusive e \<Longrightarrow> keeps e e"
  by (simp add: keeps_def)

lemma keeps_rd:
  assumes "length e = ENTITY_COUNT * 4" and "exclusive e" and "counts_nonneg e" and att: "rd_attempt e t = Some e'"
  shows "keeps e e'"
proof -
  note d = rd_attempt_delta [OF assms(1) att]
  have t: "e ! write_lock t = 0" using att by (simp add: rd_attempt_def split: if_splits)
  have "exclusive e'" using assms(2) d t by (auto simp: exclusive_def delta_def)
  moreover have "wr_attempt e' u = None" if "wr_attempt e u = None" for u
  proof -
    have "e' ! read_lock u = e ! read_lock u + of_bool (u = t)" "e' ! write_lock u = e ! write_lock u"
      "0 \<le> e ! read_lock u"
      using d assms(3) by (auto simp: delta_def counts_nonneg_def)
    then show ?thesis using that by (auto simp: attempt_None_iff)
  qed
  moreover have "rd_attempt e' u = None" if "rd_attempt e u = None" for u
    using that d by (auto simp: attempt_None_iff delta_def)
  ultimately show ?thesis unfolding keeps_def using asleep_ok_mono by blast
qed

lemma keeps_wr:
  assumes "length e = ENTITY_COUNT * 4" and "exclusive e" and "e ! write_lock t = 0" and "e ! read_lock t = 0"
    and "delta e e' (\<lambda>u. 0) (\<lambda>u. of_bool (u = t)) q" and "\<And>u. u \<noteq> t \<Longrightarrow> q u = 0"
  shows "keeps e e'"
proof -
  have e': "e' ! read_lock u = e ! read_lock u" "e' ! write_lock u = e ! write_lock u + of_bool (u = t)"
    "u \<noteq> t \<Longrightarrow> e' ! write_wait_lock u = e ! write_wait_lock u" for u
    using assms(5,6) by (auto simp: delta_def)
  have "exclusive e'" using assms(2,3,4) e' by (auto simp: exclusive_def)
  moreover have "wr_attempt e' u = None" if "wr_attempt e u = None" for u
    using that e' assms(3) by (cases "u = t") (auto simp: attempt_None_iff)
  moreover have "rd_attempt e' u = None" if "rd_attempt e u = None" for u
    using that e' assms(3) by (cases "u = t") (auto simp: attempt_None_iff)
  ultimately show ?thesis unfolding keeps_def using asleep_ok_mono by blast
qed

lemma wr_attempt_free: "wr_attempt e t = Some e' \<Longrightarrow> e ! write_lock t = 0 \<and> e ! read_lock t = 0"
  by (auto simp: wr_attempt_def split: if_splits)

lemma keeps_enter:
  assumes "length e = ENTITY_COUNT * 4" and "exclusive e" and "counts_nonneg e"
  shows "keeps e (wr_enter e t)"
proof -
  have e': "wr_enter e t ! read_lock u = e ! read_lock u" "wr_enter e t ! write_lock u = e ! write_lock u"
    "wr_enter e t ! write_wait_lock u = e ! write_wait_lock u + of_bool (u = t)"
    "0 \<le> e ! write_wait_lock u" for u
    using wr_enter_delta [OF assms(1), of t] assms(3) by (auto simp: delta_def counts_nonneg_def)
  have "exclusive (wr_enter e t)" using assms(2) e' by (auto simp: exclusive_def)
  moreover have "rd_attempt (wr_enter e t) u = None" if "rd_attempt e u = None" for u
    using that e' [of u] by (auto simp: attempt_None_iff)
  moreover have "wr_attempt (wr_enter e t) u = None" if "wr_attempt e u = None" for u
    using that e' [of u] by (auto simp: attempt_None_iff)
  ultimately show ?thesis unfolding keeps_def using asleep_ok_mono by blast
qed

lemma keeps_wr_enter:
  assumes "length e = ENTITY_COUNT * 4" and "exclusive e" and att: "wr_attempt (wr_enter e t) t = Some e'"
  shows "keeps e e'"
proof -
  have "wr_enter e t ! read_lock t = e ! read_lock t" "wr_enter e t ! write_lock t = e ! write_lock t"
    using wr_enter_delta [OF assms(1), of t] by (auto simp: delta_def)
  with wr_attempt_free [OF att] show ?thesis
    using keeps_wr [OF assms(1,2) _ _ wr_enter_attempt_delta [OF assms(1) att]] by simp
qed

lemma release_exclusive:
  assumes "length e = ENTITY_COUNT * 4" and "exclusive e" and "counts_nonneg (release lv t e)"
  shows "exclusive (release lv t e)"
proof -
  have e': "release lv t e ! read_lock u = e ! read_lock u - of_bool (u = t \<and> level lv t = READ_LOCK)"
    "release lv t e ! write_lock u = e ! write_lock u - of_bool (u = t \<and> level lv t = WRITE_LOCK)"
    "0 \<le> release lv t e ! read_lock u" "0 \<le> release lv t e ! write_lock u"
    "e ! write_lock u = 0 \<or> e ! write_lock u = 1 \<and> e ! read_lock u = 0" for u
    using release_delta [OF assms(1), of lv t] assms(2,3)
    by (auto simp: delta_def counts_nonneg_def exclusive_def)
  have "release lv t e ! write_lock u = 0 \<or> release lv t e ! write_lock u = 1 \<and> release lv t e ! read_lock u = 0" for u
    using e' [of u] by (cases "u = t") (auto simp: of_bool_def split: if_splits)
  then show ?thesis by (simp add: exclusive_def)
qed

lemma counters_ok_delta:
  assumes "counters_ok e ps" and "i < length ps" and "delta e e' r w q"
    and "\<And>t. r t = of_bool (held p t = READ_LOCK) - of_bool (held (ps ! i) t = READ_LOCK)"
    and "\<And>t. w t = of_bool (held p t = WRITE_LOCK) - of_bool (held (ps ! i) t = WRITE_LOCK)"
    and "\<And>t. q t = of_bool (waits_write p t) - of_bool (waits_write (ps ! i) t)"
  shows "counters_ok e' (ps[i := p])"
  using assms by (intro counters_ok_move [OF assms(1,2)]) (simp_all add: delta_def)

lemma counters_nonneg: "counters_ok e ps \<Longrightarrow> counts_nonneg e"
  by (simp add: counters_ok_def counts_nonneg_def)

text \<open>The three things a move must keep, gathered for the case analysis.\<close>

definition good_move :: "lock_flags \<Rightarrow> pc list \<Rightarrow> nat \<Rightarrow> pc \<Rightarrow> lock_flags \<Rightarrow> bool \<Rightarrow> bool" where
  "good_move e ps i p e' bc \<longleftrightarrow> counters_ok e' (ps[i := p]) \<and> exclusive e' \<and> pc_ok p \<and>
     (bc \<or> asleep_ok e' p \<and> keeps e e')"

lemma good_moveI:
  assumes "counters_ok e ps" and "i < length ps" and "delta e e' r w q" and "keeps e e'"
    and "\<And>t. r t = of_bool (held p t = READ_LOCK) - of_bool (held (ps ! i) t = READ_LOCK)"
    and "\<And>t. w t = of_bool (held p t = WRITE_LOCK) - of_bool (held (ps ! i) t = WRITE_LOCK)"
    and "\<And>t. q t = of_bool (waits_write p t) - of_bool (waits_write (ps ! i) t)"
    and "pc_ok p" and "asleep_ok e' p"
  shows "good_move e ps i p e' bc"
  using counters_ok_delta [OF assms(1,2,3) assms(5,6,7)] assms(4,8,9) by (simp add: good_move_def keeps_def)

lemma good_move_same:
  assumes "counters_ok e ps" and "exclusive e" and "i < length ps"
    and "\<And>t. held p t = held (ps ! i) t" and "\<And>t. waits_write p t = waits_write (ps ! i) t"
    and "pc_ok p" and "asleep_ok e p"
  shows "good_move e ps i p e bc"
  by (rule good_moveI [where r = "\<lambda>t. 0" and w = "\<lambda>t. 0" and q = "\<lambda>t. 0"])
     (use assms in \<open>simp_all add: delta_def keeps_refl\<close>)

lemma advance_Locking:
  assumes c: "counters_ok e ps" and x: "exclusive e" and i: "i < length ps"
    and pi: "ps ! i = Locking lv us" and ok: "todo us"
    and adv: "advance k e (Locking lv us) = Some (p, e', bc)"
  shows "good_move e ps i p e' bc"
proof (cases us)
  case Nil
  then have "p = Holding lv" and e: "e' = e" using adv by auto
  then show ?thesis unfolding e using pi Nil by (intro good_move_same [OF c x i]) auto
next
  case (Cons t ts)
  have len: "length e = ENTITY_COUNT * 4" using c by (simp add: counters_ok_def)
  have ts: "todo ts" "t \<notin> set ts" using ok Cons todo_Cons by auto
  show ?thesis
  proof (cases "level lv t")
    case NO_LOCK
    then have "p = Locking lv ts" and e: "e' = e" using adv Cons by auto
    then show ?thesis unfolding e using pi Cons ts NO_LOCK by (intro good_move_same [OF c x i]) auto
  next
    case READ_LOCK
    show ?thesis
    proof (cases "rd_attempt e t")
      case None
      then have "p = WaitRead lv t ts False" and e: "e' = e" using adv Cons READ_LOCK by auto
      then show ?thesis unfolding e using pi Cons None READ_LOCK ok by (intro good_move_same [OF c x i]) auto
    next
      case (Some f)
      then have "p = Locking lv ts" "e' = f" using adv Cons READ_LOCK by auto
      then show ?thesis using Cons ts READ_LOCK pi Some
        by (intro good_moveI [OF c i rd_attempt_delta [OF len] keeps_rd [OF len x counters_nonneg [OF c]]])
           (auto simp: of_bool_def)
    qed
  next
    case WRITE_LOCK
    show ?thesis
    proof (cases "wr_attempt (wr_enter e t) t")
      case None
      then have p: "p = WaitWrite lv t ts False" and e: "e' = wr_enter e t"
        using adv Cons WRITE_LOCK by (auto simp: Let_def)
      show ?thesis unfolding e p using Cons ok WRITE_LOCK pi None
        by (intro good_moveI [OF c i wr_enter_delta [OF len] keeps_enter [OF len x counters_nonneg [OF c]]]) auto
    next
      case (Some f)
      then have "p = Locking lv ts" "e' = f" using adv Cons WRITE_LOCK by (auto simp: Let_def)
      then show ?thesis using Cons ts WRITE_LOCK pi Some
        by (intro good_moveI [OF c i wr_enter_attempt_delta [OF len] keeps_wr_enter [OF len x]])
           (auto simp: of_bool_def)
    qed
  qed
qed

lemma advance_Trying:
  assumes c: "counters_ok e ps" and x: "exclusive e" and i: "i < length ps"
    and pi: "ps ! i = Trying lv us" and ok: "todo us"
    and adv: "advance k e (Trying lv us) = Some (p, e', bc)"
  shows "good_move e ps i p e' bc"
proof (cases us)
  case Nil
  then have "p = Holding lv" and e: "e' = e" using adv by auto
  then show ?thesis unfolding e using pi Nil by (intro good_move_same [OF c x i]) auto
next
  case (Cons t ts)
  have len: "length e = ENTITY_COUNT * 4" using c by (simp add: counters_ok_def)
  have ts: "todo ts" "t \<notin> set ts" using ok Cons todo_Cons by auto
  obtain b f where bf: "acquire_nowait lv t e = (b, f)" by fastforce
  then show ?thesis
  proof (cases rule: acquire_nowait_cases)
    case no
    then have "p = Trying lv ts" "e' = e" using adv Cons bf by auto
    then show ?thesis using no pi Cons ts by (auto intro!: good_move_same [OF c x i])
  next
    case rd
    then have "p = Trying lv ts" "e' = f" using adv Cons bf by auto
    then show ?thesis using rd Cons ts pi
      by (intro good_moveI [OF c i rd_attempt_delta [OF len] keeps_rd [OF len x counters_nonneg [OF c]]])
         (auto simp: of_bool_def)
  next
    case wr
    then have "p = Trying lv ts" "e' = f" using adv Cons bf by auto
    then show ?thesis using wr Cons ts pi
      by (intro good_moveI [OF c i wr_enter_attempt_delta [OF len] keeps_wr_enter [OF len x]])
         (auto simp: of_bool_def)
  next
    case fail
    then have p: "p = Unlocking lv (drop (length us) (rev lock_order))" "e' = e" using adv Cons bf by auto
    have "held p u = held (ps ! i) u" for u using rollback_set [OF ok, of u] by (simp add: p pi)
    then show ?thesis using p pi unfolding p(2) by (intro good_move_same [OF c x i]) (auto simp: undo_def)
  qed
qed

lemma advance_WaitRead:
  assumes c: "counters_ok e ps" and x: "exclusive e" and i: "i < length ps"
    and pi: "ps ! i = WaitRead lv t ts sig" and ok: "todo (t # ts)" "level lv t = READ_LOCK"
    and adv: "advance k e (WaitRead lv t ts sig) = Some (p, e', bc)"
  shows "good_move e ps i p e' bc"
proof (cases "\<not> k \<and> (\<exists>f. rd_attempt e t = Some f)")
  case False
  then have e': "e' = e" and p: "p = Exited lv t ts False \<or> p = WaitRead lv t ts False \<and> rd_attempt e t = None"
    using adv by (auto split: if_splits option.splits)
  show ?thesis unfolding e' using p pi ok by (intro good_move_same [OF c x i]) auto
next
  case True
  have len: "length e = ENTITY_COUNT * 4" using c by (simp add: counters_ok_def)
  from True adv have "p = Locking lv ts" "rd_attempt e t = Some e'" by (auto split: if_splits)
  then show ?thesis using pi ok todo_Cons [OF ok(1)]
    by (intro good_moveI [OF c i rd_attempt_delta [OF len] keeps_rd [OF len x counters_nonneg [OF c]]])
       (auto simp: of_bool_def)
qed

lemma advance_WaitWrite:
  assumes c: "counters_ok e ps" and x: "exclusive e" and i: "i < length ps"
    and pi: "ps ! i = WaitWrite lv t ts sig" and ok: "todo (t # ts)" "level lv t = WRITE_LOCK"
    and adv: "advance k e (WaitWrite lv t ts sig) = Some (p, e', bc)"
  shows "good_move e ps i p e' bc"
proof (cases "\<not> k \<and> (\<exists>f. wr_attempt e t = Some f)")
  case False
  then have e': "e' = e" and p: "p = Exited lv t ts True \<or> p = WaitWrite lv t ts False \<and> wr_attempt e t = None"
    using adv by (auto split: if_splits option.splits)
  show ?thesis unfolding e' using p pi ok by (intro good_move_same [OF c x i]) auto
next
  case True
  have len: "length e = ENTITY_COUNT * 4" using c by (simp add: counters_ok_def)
  from True adv have p: "p = Locking lv ts" and att: "wr_attempt e t = Some e'" by (auto split: if_splits)
  note d = wr_attempt_delta [OF len att]
  have "keeps e e'" using wr_attempt_free [OF att] by (intro keeps_wr [OF len x _ _ d]) auto
  then show ?thesis using pi ok todo_Cons [OF ok(1)] p
    by (intro good_moveI [OF c i d]) (auto simp: of_bool_def)
qed

lemma advance_Unlocking:
  assumes c: "counters_ok e ps" and x: "exclusive e" and i: "i < length ps"
    and pi: "ps ! i = Unlocking lv us" and ok: "undo us"
    and adv: "advance k e (Unlocking lv us) = Some (p, e', bc)"
  shows "good_move e ps i p e' bc"
proof (cases us)
  case Nil
  then show ?thesis using adv pi good_move_same [OF c x i, of Idle] by simp
next
  case (Cons t ts)
  have len: "length e = ENTITY_COUNT * 4" using c by (simp add: counters_ok_def)
  have ts: "undo ts" "t \<notin> set ts" using ok Cons undo_Cons by auto
  have p: "p = Unlocking lv ts" "e' = release lv t e" "bc = (level lv t \<noteq> NO_LOCK)" using adv Cons by auto
  have "counters_ok e' (ps[i := p])"
    using pi Cons ts p(1) unfolding p(2)
    by (intro counters_ok_delta [OF c i release_delta [OF len]]) (auto simp: of_bool_def)
  moreover from this have "exclusive e'" unfolding p(2)
    by (intro release_exclusive [OF len x] counters_nonneg)
  moreover have "keeps e e'" if "\<not> bc" using that p x by (simp add: release_def keeps_refl)
  ultimately show ?thesis using p ts by (auto simp: good_move_def)
qed

lemma advance_good:
  assumes "counters_ok e ps" and "exclusive e" and "i < length ps" and "pc_ok (ps ! i)"
    and "advance k e (ps ! i) = Some (p, e', bc)"
  shows "good_move e ps i p e' bc"
proof (cases "ps ! i")
  case (Locking lv us)
  then show ?thesis using assms advance_Locking by simp
next
  case (WaitRead lv t ts sig)
  then show ?thesis using assms by (intro advance_WaitRead [OF assms(1-3) WaitRead]) simp_all
next
  case (WaitWrite lv t ts sig)
  then show ?thesis using assms by (intro advance_WaitWrite [OF assms(1-3) WaitWrite]) simp_all
next
  case (Trying lv us)
  then show ?thesis using assms advance_Trying by simp
next
  case (Unlocking lv us)
  then show ?thesis using assms advance_Unlocking by simp
next
  case (Holding lv)
  have "held (Unlocking lv (rev lock_order)) t = held (ps ! i) t" for t
    using all_data_types by (auto simp: Holding)
  moreover have "p = Unlocking lv (rev lock_order)" and e: "e' = e" using assms(5) Holding by auto
  moreover have "undo (rev lock_order)" by (auto simp: undo_def intro: exI [of _ 0])
  ultimately show ?thesis unfolding e using Holding by (intro good_move_same [OF assms(1-3)]) simp_all
qed (use assms(5) in simp_all)

lemma counters_ok_init: "\<forall>p \<in> set ps. p = Idle \<Longrightarrow> counters_ok init_locks ps"
proof -
  assume idle: "\<forall>p \<in> set ps. p = Idle"
  have "filter P ps = []" if "\<not> P Idle" for P using that idle by (auto simp: filter_empty_conv)
  then show ?thesis by (auto simp: counters_ok_def init_locks_def count_pc_def)
qed

lemma lock_inv_init: "lock_init s \<Longrightarrow> lock_inv s"
  using counters_ok_init [of "threads s"]
  by (auto simp: lock_init_def lock_inv_def exclusive_def init_locks_def)

lemma lock_inv_goto:
  assumes "lock_inv s" and "i < length (threads s)" and "good_move (flags s) (threads s) i p e bc"
    and "is_exited p \<longrightarrow> kill_thread s"
  shows "lock_inv ((goto i p e bc s)\<lparr>mutex_lost := mutex_lost s \<or> is_exited p\<rparr>)"
proof -
  have "pc_ok q \<and> (is_exited q \<longrightarrow> kill_thread s)" if "q \<in> set ((threads s)[i := p])" for q
    using that assms set_update_subset_insert [of "threads s" i p] by (auto simp: lock_inv_def good_move_def)
  moreover have "asleep_ok e q" if "q \<in> set ((threads s)[i := p])" "\<not> bc" for q
    using that assms set_update_subset_insert [of "threads s" i p]
    by (auto simp: lock_inv_def good_move_def keeps_def)
  ultimately show ?thesis using assms
    by (auto simp: lock_inv_def goto_def good_move_def counters_ok_wake)
qed

lemma advance_exit: "advance k e p = Some (p', e', bc) \<Longrightarrow> is_exited p' \<Longrightarrow> k"
  by (induction k e p rule: advance.induct)
     (auto split: if_splits option.splits lock_level.splits prod.splits simp: Let_def)

lemma good_move_start:
  assumes "lock_inv s" and "i < length (threads s)" and "threads s ! i = Idle"
    and "p = Locking lv lock_order \<or> p = Trying lv lock_order"
  shows "good_move (flags s) (threads s) i p (flags s) False"
proof -
  have "held p t = NO_LOCK" for t using assms(4) all_data_types by auto
  then show ?thesis using assms todo_order
    by (intro good_move_same) (auto simp: lock_inv_def)
qed

lemma lock_inv_step: "lock_inv s \<Longrightarrow> lock_step l s s' \<Longrightarrow> lock_inv s'"
proof (erule lock_step.cases)
  fix i t lv
  assume s: "lock_inv s" "s' = goto i (Locking lv lock_order) (flags t) False t" "s = t"
    "i < length (threads t)" "threads t ! i = Idle"
  then have "lock_inv ((goto i (Locking lv lock_order) (flags s) False s)\<lparr>mutex_lost := mutex_lost s \<or> False\<rparr>)"
    using lock_inv_goto [OF s(1) _ good_move_start [OF s(1)], of i "Locking lv lock_order"] by simp
  then show "lock_inv s'" using s by (simp add: goto_def)
next
  fix i t lv
  assume s: "lock_inv s" "s' = goto i (Trying lv lock_order) (flags t) False t" "s = t"
    "i < length (threads t)" "threads t ! i = Idle"
  then have "lock_inv ((goto i (Trying lv lock_order) (flags s) False s)\<lparr>mutex_lost := mutex_lost s \<or> False\<rparr>)"
    using lock_inv_goto [OF s(1) _ good_move_start [OF s(1)], of i "Trying lv lock_order"] by simp
  then show "lock_inv s'" using s by (simp add: goto_def)
next
  fix i t p e bc
  assume s: "lock_inv s" "s = t" "i < length (threads t)"
    "s' = (goto i p e bc t)\<lparr>mutex_lost := mutex_lost t \<or> is_exited p\<rparr>"
    and adv: "advance (kill_thread t) (flags t) (threads t ! i) = Some (p, e, bc)"
  have "pc_ok (threads t ! i)" using s by (auto simp: lock_inv_def)
  then have "good_move (flags s) (threads s) i p e bc"
    using s adv by (intro advance_good [where k = "kill_thread t"]) (auto simp: lock_inv_def)
  then show "lock_inv s'" using s lock_inv_goto advance_exit [OF adv] by auto
next
  fix i t
  assume s: "lock_inv s" "s = t" "i < length (threads t)" "s' = t\<lparr>threads := (threads t)[i := wake (threads t ! i)]\<rparr>"
  have "counters_ok (flags t) ((threads t)[i := wake (threads t ! i)])"
    using s by (intro counters_ok_move) (auto simp: lock_inv_def)
  moreover have "q = wake (threads t ! i) \<or> q \<in> set (threads t)" if "q \<in> set ((threads t)[i := wake (threads t ! i)])" for q
    using that set_update_subset_insert by fast
  ultimately show "lock_inv s'" using s by (fastforce simp: lock_inv_def)
next
  fix t
  assume s: "lock_inv s" "s = t" "s' = t\<lparr>kill_thread := True, threads := map wake (threads t)\<rparr>"
  then show "lock_inv s'" by (auto simp: lock_inv_def counters_ok_wake)
qed

interpretation lk: inductive_invariant lock_init lock_step lock_inv
  by unfold_locales (auto intro: lock_inv_init lock_inv_step)


section \<open>Progress\<close>

text \<open>A thread that cannot move: idle, gone, or in a wait that nobody has ended.\<close>

fun asleep :: "pc \<Rightarrow> bool" where
  "asleep (WaitRead lv t ts sig) = (\<not> sig)"
| "asleep (WaitWrite lv t ts sig) = (\<not> sig)"
| "asleep p = False"

lemma awake_moves: "p \<noteq> Idle \<Longrightarrow> \<not> asleep p \<Longrightarrow> \<not> is_exited p \<Longrightarrow> \<exists>x. advance k e p = Some x"
  by (induction k e p rule: advance.induct)
     (auto split: option.splits lock_level.splits prod.splits simp: Let_def)

text \<open>The data type a sleeping thread waits for.\<close>

fun waits_for :: "pc \<Rightarrow> nat" where
  "waits_for (WaitRead lv t ts sig) = lock_num t"
| "waits_for (WaitWrite lv t ts sig) = lock_num t"
| "waits_for p = 0"

text \<open>Locks are taken in increasing order: a sleeping thread holds only smaller ones.\<close>

lemma todo_held_less: "todo (t # ts) \<Longrightarrow> u \<notin> set (t # ts) \<Longrightarrow> lock_num u < lock_num t"
  by (cases u) (auto simp: todo_iff lock_order_def)

lemma asleep_holds_less:
  "asleep p \<Longrightarrow> pc_ok p \<Longrightarrow> held p u \<noteq> NO_LOCK \<Longrightarrow> lock_num u < waits_for p"
  by (cases p) (auto split: if_splits intro: todo_held_less)

lemma writer_blocked_by_holder:
  assumes "counters_ok e ps" and "wr_attempt e t = None"
  shows "\<exists>p \<in> set ps. held p t \<noteq> NO_LOCK"
proof -
  have "count_pc (\<lambda>p. held p t = READ_LOCK) ps \<noteq> 0 \<or> count_pc (\<lambda>p. held p t = WRITE_LOCK) ps \<noteq> 0"
    using assms by (auto simp: attempt_None_iff counters_ok_def)
  then have "\<exists>i < length ps. held (ps ! i) t = READ_LOCK \<or> held (ps ! i) t = WRITE_LOCK"
    using count_pc_pos_ex by blast
  then obtain i where "i < length ps" "held (ps ! i) t \<noteq> NO_LOCK" by auto
  then show ?thesis using nth_mem by blast
qed

lemma reader_blocked_by:
  assumes "counters_ok e ps" and "rd_attempt e t = None"
  shows "\<exists>p \<in> set ps. held p t \<noteq> NO_LOCK \<or> waits_write p t"
proof -
  have "count_pc (\<lambda>p. waits_write p t) ps \<noteq> 0 \<or> count_pc (\<lambda>p. held p t = WRITE_LOCK) ps \<noteq> 0"
    using assms by (auto simp: attempt_None_iff counters_ok_def)
  then have "\<exists>i < length ps. waits_write (ps ! i) t \<or> held (ps ! i) t = WRITE_LOCK"
    using count_pc_pos_ex by blast
  then obtain i where "i < length ps" "held (ps ! i) t \<noteq> NO_LOCK \<or> waits_write (ps ! i) t" by auto
  then show ?thesis using nth_mem by blast
qed

text \<open>
  Not every busy thread can be asleep: one that waits for the greatest data type is blocked by a
  thread that holds it, which is further on, or by a writer waiting for it, which is in turn
  blocked by such a thread.
\<close>

lemma not_all_asleep:
  assumes inv: "lock_inv s" and live: "\<not> kill_thread s"
    and busy: "p0 \<in> set (threads s)" "p0 \<noteq> Idle"
  shows "\<exists>p \<in> set (threads s). p \<noteq> Idle \<and> \<not> asleep p"
proof (rule ccontr)
  assume none: "\<not> ?thesis"
  let ?S = "{p \<in> set (threads s). p \<noteq> Idle}"
  have sleep: "asleep p" if "p \<in> ?S" for p using none that by auto
  have c: "counters_ok (flags s) (threads s)" and ok: "\<And>p. p \<in> set (threads s) \<Longrightarrow> pc_ok p \<and> asleep_ok (flags s) p"
    using inv by (auto simp: lock_inv_def)
  define m where "m = Max (waits_for ` ?S)"
  have fin: "finite (waits_for ` ?S)" "waits_for ` ?S \<noteq> {}" using busy by auto
  obtain p where p: "p \<in> ?S" "waits_for p = m" using Max_in [OF fin] unfolding m_def by auto
  have no_holder: "held q t = NO_LOCK" if "lock_num t = m" "q \<in> set (threads s)" for q t
  proof (rule ccontr)
    assume h: "held q t \<noteq> NO_LOCK"
    then have q: "q \<in> ?S" using that by auto
    have "lock_num t < waits_for q" using asleep_holds_less [OF sleep [OF q]] ok q h by auto
    moreover have "waits_for q \<le> m" unfolding m_def using fin q by (intro Max_ge) auto
    ultimately show False using that by simp
  qed
  have no_writer: False if "WaitWrite lv t ts sig \<in> ?S" "lock_num t = m" for lv t ts sig
    using writer_blocked_by_holder [OF c, of t] sleep [OF that(1)] ok [of "WaitWrite lv t ts sig"]
      no_holder [OF that(2)] that(1) by auto
  from sleep [OF p(1)] show False
  proof (cases p)
    case (WaitRead lv t ts sig)
    then have "rd_attempt (flags s) t = None" "lock_num t = m"
      using sleep [OF p(1)] ok [of p] p by auto
    then obtain q where q: "q \<in> set (threads s)" "held q t \<noteq> NO_LOCK \<or> waits_write q t"
      using reader_blocked_by [OF c] by blast
    then have "waits_write q t" using no_holder \<open>lock_num t = m\<close> by auto
    moreover from this have "q \<noteq> Idle" by auto
    ultimately have "waits_write q t" "asleep q" using q sleep [of q] by auto
    then show False using q \<open>lock_num t = m\<close> no_writer by (cases q) auto
  next
    case (WaitWrite lv t ts sig)
    then show False using p no_writer by auto
  qed auto
qed

section \<open>Properties of the locks\<close>

lemma count_pc_two:
  assumes "i < length ps" and "j < length ps" and "i \<noteq> j" and "P (ps ! i)" and "P (ps ! j)" and "\<not> P q"
  shows "2 \<le> count_pc P ps"
  using count_pc_update [OF assms(1), of P q] count_pc_pos [of j "ps[i := q]" P] assms by simp

text \<open>Runs of the system with two idle threads: one takes a lock on jobs, then the other tries.\<close>

definition job_lock :: "lock_level \<Rightarrow> slurmctld_lock" where
  "job_lock l = \<lparr>lk_config = NO_LOCK, lk_job = l, lk_node = NO_LOCK, lk_partition = NO_LOCK,
     lk_federation = NO_LOCK\<rparr>"

definition two_idle :: lock_state where
  "two_idle = \<lparr>flags = init_locks, kill_thread = False, mutex_lost = False, threads = [Idle, Idle]\<rparr>"

definition run_thread :: "nat \<Rightarrow> lock_state \<Rightarrow> lock_state" where
  "run_thread i s =
     (case advance (kill_thread s) (flags s) (threads s ! i) of
        Some (p, e, bc) \<Rightarrow> (goto i p e bc s)\<lparr>mutex_lost := mutex_lost s \<or> is_exited p\<rparr>
      | None \<Rightarrow> s)"

definition after_lock :: "lock_level \<Rightarrow> lock_state" where
  "after_lock l = (run_thread 0 ^^ 6) (goto 0 (Locking (job_lock l) lock_order) init_locks False two_idle)"

definition after_wait :: lock_state where
  "after_wait = (run_thread 1 ^^ 2) (goto 1 (Locking (job_lock WRITE_LOCK) lock_order)
     (flags (after_lock READ_LOCK)) False (after_lock READ_LOCK))"

lemma reach_run_thread:
  assumes "reach lock_init lock_step s" and "i < length (threads s)"
    and "\<not> (mutex_lost s \<and> takes_mutex (threads s ! i))"
  shows "reach lock_init lock_step (run_thread i s)"
proof (cases "advance (kill_thread s) (flags s) (threads s ! i)")
  case None
  then show ?thesis using assms by (simp add: run_thread_def)
next
  case (Some x)
  obtain p e bc where x: "x = (p, e, bc)" by (cases x)
  have "lock_step (Some i) s ((goto i p e bc s)\<lparr>mutex_lost := mutex_lost s \<or> is_exited p\<rparr>)"
    using assms Some x by (intro lock_step.move) auto
  from reach_step [OF assms(1) this] show ?thesis by (simp add: run_thread_def Some x)
qed

lemmas lock_eval = run_thread_def goto_def two_idle_def job_lock_def lock_order_def eval_nat_numeral
  init_locks_def ENTITY_COUNT_def wr_enter_def wr_attempt_def rd_attempt_def read_lock_def write_lock_def
  write_wait_lock_def write_cnt_lock_def

lemma after_lock_eval:
  "after_lock READ_LOCK = \<lparr>flags = init_locks[4 := 1], kill_thread = False, mutex_lost = False,
     threads = [Holding (job_lock READ_LOCK), Idle]\<rparr>"
  "after_lock WRITE_LOCK = \<lparr>flags = init_locks[5 := 1, 7 := 1], kill_thread = False, mutex_lost = False,
     threads = [Holding (job_lock WRITE_LOCK), Idle]\<rparr>"
  by (simp_all add: after_lock_def lock_eval)

lemma after_wait_eval:
  "after_wait = \<lparr>flags = init_locks[4 := 1, 6 := 1], kill_thread = False, mutex_lost = False,
     threads = [Holding (job_lock READ_LOCK),
                WaitWrite (job_lock WRITE_LOCK) JOB_LOCK [NODE_LOCK, PART_LOCK, FED_LOCK] False]\<rparr>"
  by (simp add: after_wait_def after_lock_eval lock_eval)

text \<open>
  C1: Mutual exclusion. In every reachable state, if a thread holds the write lock on a data
  type, no other thread holds a lock on it.
\<close>

theorem lock_mutual_exclusion:
  assumes "reach lock_init lock_step s"
    and "i < length (threads s)" and "j < length (threads s)" and "i \<noteq> j"
    and "held (threads s ! i) t = WRITE_LOCK"
  shows "held (threads s ! j) t = NO_LOCK"
proof -
  have c: "counters_ok (flags s) (threads s)" and x: "exclusive (flags s)"
    using lk.reachable [OF assms(1)] by (auto simp: lock_inv_def)
  let ?w = "count_pc (\<lambda>p. held p t = WRITE_LOCK) (threads s)"
  let ?r = "count_pc (\<lambda>p. held p t = READ_LOCK) (threads s)"
  have "0 < ?w" using assms(2,5) by (intro count_pc_pos) auto
  moreover have "flags s ! write_lock t = ?w" "flags s ! read_lock t = ?r"
    "flags s ! write_lock t = 0 \<or> flags s ! write_lock t = 1 \<and> flags s ! read_lock t = 0"
    using c x by (auto simp: counters_ok_def exclusive_def)
  ultimately have one: "?w = 1" "?r = 0" by auto
  have "held (threads s ! j) t \<noteq> WRITE_LOCK"
    using count_pc_two [OF assms(2-4), of "\<lambda>p. held p t = WRITE_LOCK" Idle] assms(5) one by auto
  moreover have "held (threads s ! j) t \<noteq> READ_LOCK"
    using count_pc_pos [OF assms(3), of "\<lambda>p. held p t = READ_LOCK"] one by auto
  ultimately show ?thesis by (cases "held (threads s ! j) t") auto
qed

lemma run_thread_quiet:
  "\<not> kill_thread s \<Longrightarrow> \<not> mutex_lost s \<Longrightarrow> \<not> kill_thread (run_thread i s) \<and> \<not> mutex_lost (run_thread i s) \<and>
   length (threads (run_thread i s)) = length (threads s)"
  using advance_exit by (auto simp: run_thread_def goto_def split: option.splits)

lemma reach_runs:
  assumes "reach lock_init lock_step s" and "i < length (threads s)" and "\<not> kill_thread s" and "\<not> mutex_lost s"
  shows "reach lock_init lock_step ((run_thread i ^^ n) s) \<and> \<not> kill_thread ((run_thread i ^^ n) s) \<and>
    \<not> mutex_lost ((run_thread i ^^ n) s) \<and> length (threads ((run_thread i ^^ n) s)) = length (threads s)"
proof (induction n)
  case (Suc n)
  let ?s = "(run_thread i ^^ n) s"
  have "reach lock_init lock_step (run_thread i ?s)" using Suc assms(2) by (intro reach_run_thread) auto
  then show ?case using Suc run_thread_quiet [of ?s i] by simp
qed (use assms in simp)

lemma after_lock_reach: "reach lock_init lock_step (after_lock l)"
proof -
  have "lock_init two_idle" by (simp add: lock_init_def two_idle_def)
  moreover have "lock_step (Some 0) two_idle (goto 0 (Locking (job_lock l) lock_order) (flags two_idle) False two_idle)"
    by (rule lock_step.start_lock) (simp_all add: two_idle_def)
  ultimately have "reach lock_init lock_step (goto 0 (Locking (job_lock l) lock_order) init_locks False two_idle)"
    by (auto simp: two_idle_def intro: reach.intros)
  then show ?thesis
    unfolding after_lock_def by (rule reach_runs [THEN conjunct1]) (simp_all add: goto_def two_idle_def)
qed

lemma after_wait_reach: "reach lock_init lock_step after_wait"
proof -
  let ?s = "after_lock READ_LOCK"
  have "lock_step (Some 1) ?s (goto 1 (Locking (job_lock WRITE_LOCK) lock_order) (flags ?s) False ?s)"
    by (rule lock_step.start_lock) (simp_all add: after_lock_eval)
  from reach_step [OF after_lock_reach this] show ?thesis
    unfolding after_wait_def by (rule reach_runs [THEN conjunct1]) (simp_all add: goto_def after_lock_eval)
qed

theorem lock_mutual_exclusion_witness: "held (threads (after_lock WRITE_LOCK) ! 1) JOB_LOCK = NO_LOCK"
  using lock_mutual_exclusion [OF after_lock_reach, of 0 WRITE_LOCK 1 JOB_LOCK]
  by (simp add: after_lock_eval job_lock_def)

text \<open>
  C17: Deadlock freedom and no lost wakeups. As long as nobody called \<^verbatim>\<open>kill_locked_threads\<close>,
  in every reachable state in which some thread is inside the locking code or holds locks, some
  such thread can take its next step: it is not left in a wait that nobody ends.
\<close>

theorem lock_deadlock_free:
  assumes "reach lock_init lock_step s" and "\<not> kill_thread s"
    and "i < length (threads s)" and "threads s ! i \<noteq> Idle"
  shows "\<exists>j s'. j < length (threads s) \<and> threads s ! j \<noteq> Idle \<and> lock_step (Some j) s s'"
proof -
  note inv = lk.reachable [OF assms(1)]
  obtain j where j: "j < length (threads s)" "threads s ! j \<noteq> Idle" "\<not> asleep (threads s ! j)"
    using not_all_asleep [OF inv assms(2) nth_mem [OF assms(3)] assms(4)] by (auto simp: in_set_conv_nth)
  have "\<not> mutex_lost s" "\<not> is_exited (threads s ! j)"
    using inv assms(2) j(1) by (auto simp: lock_inv_def)
  moreover then obtain p e bc where "advance (kill_thread s) (flags s) (threads s ! j) = Some (p, e, bc)"
    using awake_moves [OF j(2,3)] by (metis prod_cases3)
  ultimately show ?thesis using j lock_step.move by blast
qed

theorem lock_deadlock_free_witness:
  "\<exists>j s'. j < length (threads after_wait) \<and> threads after_wait ! j \<noteq> Idle \<and> lock_step (Some j) after_wait s'"
  using lock_deadlock_free [OF after_wait_reach, of 1] by (simp add: after_wait_eval)

lemma advance_new_read:
  assumes "advance k e p = Some (p', e', bc)" and "pc_ok p" and "held p' t = READ_LOCK" and "held p t \<noteq> READ_LOCK"
  shows "rd_attempt e t \<noteq> None"
proof (cases "\<exists>lv u us. p = Trying lv (u # us)")
  case True
  then obtain lv u us where p: "p = Trying lv (u # us)" by blast
  obtain b f where bf: "acquire_nowait lv u e = (b, f)" by fastforce
  show ?thesis
    by (rule acquire_nowait_cases [OF bf])
       (use assms p bf rollback_set [of "u # us" t] in \<open>auto split: if_splits\<close>)
next
  case False
  have "t \<in> set lock_order" using all_data_types by auto
  with assms False show ?thesis
    by (induction k e p rule: advance.induct)
       (auto split: if_splits option.splits lock_level.splits simp: Let_def)
qed

text \<open>
  C18: Writers are preferred. While a thread waits for the write lock on a data type, no step
  gives another thread a new read lock on it.
\<close>

theorem lock_writer_preference:
  assumes "reach lock_init lock_step s" and "lock_step l s s'"
    and "i < length (threads s)" and "waits_write (threads s ! i) t"
    and "j < length (threads s)" and "held (threads s' ! j) t = READ_LOCK"
  shows "held (threads s ! j) t = READ_LOCK"
proof (rule ccontr)
  assume new: "held (threads s ! j) t \<noteq> READ_LOCK"
  have c: "counters_ok (flags s) (threads s)" and ok: "pc_ok (threads s ! j)"
    using lk.reachable [OF assms(1)] assms(5) by (auto simp: lock_inv_def)
  have "0 < count_pc (\<lambda>p. waits_write p t) (threads s)" using assms(3,4) by (intro count_pc_pos) auto
  then have blocked: "rd_attempt (flags s) t = None" using c by (auto simp: attempt_None_iff counters_ok_def)
  have all: "t \<in> set lock_order" using all_data_types by auto
  from assms(2) show False
  proof cases
    case (move k p e bc)
    then have "held p t = READ_LOCK" "k = j"
      using assms(5,6) new by (auto simp: goto_def nth_list_update split: if_splits)
    with move advance_new_read [OF _ ok _ new] blocked show False by blast
  qed (use assms(5,6) new all in \<open>auto simp: goto_def nth_list_update split: if_splits\<close>)
qed

theorem lock_writer_preference_witness:
  "\<exists>s'. lock_step (Some 0) after_wait s' \<and> held (threads s' ! 0) JOB_LOCK = READ_LOCK \<and>
     held (threads after_wait ! 0) JOB_LOCK = READ_LOCK"
proof -
  let ?s' = "goto 0 (Unlocking (job_lock READ_LOCK) (rev lock_order)) (flags after_wait) False after_wait"
  have step: "lock_step (Some 0) after_wait (?s'\<lparr>mutex_lost := mutex_lost after_wait \<or>
      is_exited (Unlocking (job_lock READ_LOCK) (rev lock_order))\<rparr>)"
    by (rule lock_step.move) (simp_all add: after_wait_eval)
  have "held (threads ?s' ! 0) JOB_LOCK = READ_LOCK"
    by (simp add: after_wait_eval goto_def lock_order_def job_lock_def)
  with step lock_writer_preference [OF after_wait_reach step, of 1 JOB_LOCK 0] show ?thesis
    by (auto simp: after_wait_eval goto_def)
qed


subsection \<open>Trying without waiting\<close>

text \<open>The data type can be had at the wanted level right now.\<close>

definition available :: "slurmctld_lock \<Rightarrow> lock_flags \<Rightarrow> lock_datatype \<Rightarrow> bool" where
  "available lv e t \<longleftrightarrow>
     (level lv t = READ_LOCK \<longrightarrow> e ! write_lock t = 0 \<and> e ! write_wait_lock t = 0) \<and>
     (level lv t = WRITE_LOCK \<longrightarrow> e ! read_lock t = 0 \<and> e ! write_lock t = 0)"

text \<open>\<open>taken lv T e e'\<close>: \<open>e'\<close> is \<open>e\<close> with the locks of \<open>lv\<close> on the data types \<open>T\<close> added.\<close>

definition taken :: "slurmctld_lock \<Rightarrow> lock_datatype set \<Rightarrow> lock_flags \<Rightarrow> lock_flags \<Rightarrow> bool" where
  "taken lv T e e' \<longleftrightarrow> delta e e' (\<lambda>u. of_bool (u \<in> T \<and> level lv u = READ_LOCK))
     (\<lambda>u. of_bool (u \<in> T \<and> level lv u = WRITE_LOCK)) (\<lambda>u. 0)"

lemma taken_available: "taken lv T e e' \<Longrightarrow> t \<notin> T \<Longrightarrow> available lv e' t = available lv e t"
  by (auto simp: taken_def delta_def available_def)

lemma acquire_nowait_Some:
  assumes "length e = ENTITY_COUNT * 4"
  shows "if available lv e t then \<exists>e'. acquire_nowait lv t e = (True, e') \<and> taken lv {t} e e'
    else acquire_nowait lv t e = (False, e)"
proof -
  obtain b f where bf: "acquire_nowait lv t e = (b, f)" by fastforce
  have enter: "wr_enter e t ! read_lock t = e ! read_lock t" "wr_enter e t ! write_lock t = e ! write_lock t"
    using wr_enter_delta [OF assms, of t] by (auto simp: delta_def)
  have "b \<longleftrightarrow> available lv e t"
    using bf enter
    by (auto simp: acquire_nowait_def available_def wr_rdlock_nowait_def wr_wrlock_nowait_def Let_def
        rd_attempt_def wr_attempt_def split: lock_level.splits option.splits if_splits)
  moreover have "taken lv {t} e f" if b
    by (rule acquire_nowait_cases [OF bf])
       (use that rd_attempt_delta [OF assms, of t f] wr_enter_attempt_delta [OF assms, of t f] in
         \<open>auto simp: taken_def delta_def of_bool_def\<close>)
  moreover have "f = e" if "\<not> b"
    by (rule acquire_nowait_cases [OF bf]) (use that in auto)
  ultimately show ?thesis using bf by auto
qed

lemma taken_length: "taken lv T e e' \<Longrightarrow> length e' = length e"
  by (simp add: taken_def delta_def)

lemma taken_insert: "taken lv T e f \<Longrightarrow> taken lv {t} f g \<Longrightarrow> t \<notin> T \<Longrightarrow> taken lv (insert t T) e g"
  by (auto simp: taken_def delta_def of_bool_def)

lemma taken_release:
  "length e = ENTITY_COUNT * 4 \<Longrightarrow> taken lv (insert t T) e f \<Longrightarrow> t \<notin> T \<Longrightarrow> taken lv T e (release lv t f)"
  using release_delta [of f lv t] by (auto simp: taken_def delta_def of_bool_def)

lemma taken_release_all:
  "length e = ENTITY_COUNT * 4 \<Longrightarrow> distinct got \<Longrightarrow> taken lv (set got) e f \<Longrightarrow> taken lv {} e (fold (release lv) got f)"
  by (induction got arbitrary: f) (auto intro: taken_release)

lemma try_from_Some:
  assumes "length e = ENTITY_COUNT * 4" and "distinct (ts @ got)" and "taken lv (set got) e f"
  shows "if \<forall>t \<in> set ts. available lv e t
    then \<exists>g. try_from lv got ts f = (0, g) \<and> taken lv (set got \<union> set ts) e g
    else \<exists>g. try_from lv got ts f = (-1, g) \<and> taken lv {} e g"
  using assms
proof (induction ts arbitrary: got f)
  case (Cons t ts)
  have len: "length f = ENTITY_COUNT * 4" and av: "available lv f t = available lv e t"
    using Cons.prems taken_length taken_available [OF Cons.prems(3), of t] by auto
  show ?case
  proof (cases "available lv e t")
    case True
    then obtain h where h: "acquire_nowait lv t f = (True, h)" "taken lv {t} f h"
      using acquire_nowait_Some [OF len, of lv t] av by auto
    have "taken lv (set (t # got)) e h" using taken_insert [OF Cons.prems(3) h(2)] Cons.prems(2) by simp
    with Cons.IH [of "t # got" h] Cons.prems(1,2) h(1) True show ?thesis by (auto split: if_splits)
  next
    case False
    then show ?thesis
      using acquire_nowait_Some [OF len, of lv t] av taken_release_all [OF Cons.prems(1) _ Cons.prems(3)] Cons.prems(2)
      by auto
  qed
qed simp

text \<open>
  C19: \<^verbatim>\<open>try_lock_slurmctld\<close> is all or nothing. It returns 0 exactly when every wanted lock is
  available and then adds exactly those locks, which \<^verbatim>\<open>unlock_slurmctld\<close> gives back; otherwise it
  returns -1 and the read, write and waiting counters are as before.
\<close>

theorem try_lock_all_or_nothing:
  assumes "length e = ENTITY_COUNT * 4"
  shows "if \<forall>t. available lv e t
    then \<exists>e'. try_lock_slurmctld lv e = (0, e') \<and> taken lv UNIV e e' \<and> taken lv {} e (unlock_slurmctld lv e')
    else \<exists>e'. try_lock_slurmctld lv e = (-1, e') \<and> taken lv {} e e'"
proof -
  have d: "distinct lock_order" by (simp add: lock_order_def)
  have all: "(\<forall>t \<in> set lock_order. available lv e t) \<longleftrightarrow> (\<forall>t. available lv e t)"
    using all_data_types by auto
  have "taken lv (set []) e e" by (simp add: taken_def delta_def)
  from try_from_Some [OF assms _ this, of lock_order] d
  have "if \<forall>t. available lv e t
    then \<exists>g. try_lock_slurmctld lv e = (0, g) \<and> taken lv UNIV e g
    else \<exists>g. try_lock_slurmctld lv e = (-1, g) \<and> taken lv {} e g"
    unfolding try_lock_slurmctld_def all all_data_types by (auto split: if_splits)
  moreover have "taken lv {} e (unlock_slurmctld lv g)" if "taken lv UNIV e g" for g
    unfolding unlock_slurmctld_def
    by (rule taken_release_all [OF assms]) (use that d all_data_types in simp_all)
  ultimately show ?thesis by (auto split: if_splits)
qed

theorem try_lock_all_or_nothing_witness:
  "\<exists>e'. try_lock_slurmctld (job_lock WRITE_LOCK) (flags after_wait) = (-1, e') \<and>
     taken (job_lock WRITE_LOCK) {} (flags after_wait) e'"
proof -
  have "\<not> available (job_lock WRITE_LOCK) (flags after_wait) JOB_LOCK"
    by (simp add: available_def after_wait_eval lock_eval)
  then show ?thesis
    using try_lock_all_or_nothing [of "flags after_wait" "job_lock WRITE_LOCK"]
    by (auto simp: after_wait_eval init_locks_def split: if_splits)
qed


subsection \<open>Killing the waiting threads\<close>


text \<open>
  The states before and after: a writer waits while another thread reads, the locked threads are
  killed, and the writer exits.
\<close>

definition after_kill :: lock_state where
  "after_kill = run_thread 1 (after_wait\<lparr>kill_thread := True, threads := map wake (threads after_wait)\<rparr>)"

lemma after_kill_eval:
  "after_kill = \<lparr>flags = init_locks[4 := 1, 6 := 1], kill_thread = True, mutex_lost = True,
     threads = [Holding (job_lock READ_LOCK),
                Exited (job_lock WRITE_LOCK) JOB_LOCK [NODE_LOCK, PART_LOCK, FED_LOCK] True]\<rparr>"
  by (simp add: after_kill_def after_wait_eval run_thread_def goto_def)

lemma after_kill_reach: "reach lock_init lock_step after_kill"
proof -
  let ?s = "after_wait\<lparr>kill_thread := True, threads := map wake (threads after_wait)\<rparr>"
  have "reach lock_init lock_step ?s"
    by (rule reach_step [OF after_wait_reach lock_step.kill_locked_threads])
  then show ?thesis unfolding after_kill_def by (rule reach_run_thread) (simp_all add: after_wait_eval)
qed

text \<open>The reader begins to unlock and reaches the point where it needs the mutex.\<close>

definition after_stuck :: lock_state where
  "after_stuck = (run_thread 0 ^^ 4) after_kill"

lemma after_stuck_eval:
  "after_stuck = after_kill\<lparr>threads := [Unlocking (job_lock READ_LOCK) [JOB_LOCK, CONFIG_LOCK], threads after_kill ! 1]\<rparr>"
  by (simp add: after_stuck_def after_kill_eval lock_eval release_def)

lemma after_stuck_reach: "reach lock_init lock_step after_stuck"
proof -
  have four: "(run_thread 0 ^^ 4) s = run_thread 0 (run_thread 0 (run_thread 0 (run_thread 0 s)))" for s
    by (simp add: eval_nat_numeral)
  show ?thesis
    unfolding after_stuck_def four
    by (intro reach_run_thread after_kill_reach)
       (simp_all add: after_kill_eval run_thread_def goto_def lock_order_def job_lock_def release_def del: funpow.simps)
qed


end
