(* ===== verification/Pack.thy ===== *)
theory Pack
  imports Prelude
begin

text \<open>
  The wire format (src/common/pack.c and pack.h): buffers that grow as values are packed into
  them, integers in network byte order, memory blocks with a length in front, and arrays.

  A byte of a buffer is \<^term>\<open>None\<close> until it is written, since the code enlarges buffers without
  clearing them; reading such a byte, or leaving the allocated area, makes the whole operation
  \<^term>\<open>None\<close>. An unpacking function returns the value, or \<^term>\<open>None\<close> for \<^verbatim>\<open>SLURM_ERROR\<close>, with
  the buffer as it leaves it. Sizes are 32-bit words, with the wrap-around of the code.
\<close>

section \<open>Protocol versions\<close>

definition SLURM_17_02_PROTOCOL_VERSION :: u16 where
  "SLURM_17_02_PROTOCOL_VERSION = push_bit 8 31"

definition SLURM_16_05_PROTOCOL_VERSION :: u16 where
  "SLURM_16_05_PROTOCOL_VERSION = push_bit 8 30"

definition SLURM_MIN_PROTOCOL_VERSION :: u16 where
  "SLURM_MIN_PROTOCOL_VERSION = push_bit 8 29"


section \<open>Buffers\<close>

record slurm_buf =
  buf_magic :: u32
  buf_head :: "u8 option list"
  buf_size :: u32
  buf_processed :: u32

definition BUF_MAGIC :: u32 where
  "BUF_MAGIC = 0x42554545"

definition BUF_SIZE :: u32 where
  "BUF_SIZE = 16 * 1024"

definition MAX_BUF_SIZE :: u32 where
  "MAX_BUF_SIZE = 0xffff0000"

definition MAX_PACK_ARRAY_LEN :: u32 where
  "MAX_PACK_ARRAY_LEN = 128 * 1024"

definition MAX_PACK_MEM_LEN :: u32 where
  "MAX_PACK_MEM_LEN = 1024 * 1024 * 1024"

definition remaining_buf :: "slurm_buf \<Rightarrow> u32" where
  "remaining_buf b = buf_size b - buf_processed b"

definition set_buf_offset :: "slurm_buf \<Rightarrow> u32 \<Rightarrow> slurm_buf" where
  "set_buf_offset b off = b\<lparr>buf_processed := off\<rparr>"

text \<open>\<^verbatim>\<open>create_buf\<close> and \<^verbatim>\<open>init_buf\<close> return NULL, here \<^term>\<open>None\<close>, for sizes over the limit.\<close>

definition create_buf :: "u8 option list \<Rightarrow> u32 \<Rightarrow> slurm_buf option" where
  "create_buf data sz =
     (if sz > MAX_BUF_SIZE then None
      else Some \<lparr>buf_magic = BUF_MAGIC, buf_head = data, buf_size = sz, buf_processed = 0\<rparr>)"

definition init_buf :: "u32 \<Rightarrow> slurm_buf option" where
  "init_buf sz =
     (if sz > MAX_BUF_SIZE then None
      else let sz = (if sz \<le> 0 then BUF_SIZE else sz) in
           Some \<lparr>buf_magic = BUF_MAGIC, buf_head = replicate (unat sz) (Some 0), buf_size = sz,
                 buf_processed = 0\<rparr>)"

definition xfer_buf_data :: "slurm_buf \<Rightarrow> u8 option list option" where
  "xfer_buf_data b = do { assertC (buf_magic b = BUF_MAGIC); Some (buf_head b) }"

text \<open>\<^verbatim>\<open>xrealloc_nz\<close> to the current \<^verbatim>\<open>size\<close>: the new bytes are not initialised.\<close>

definition resize :: "u32 \<Rightarrow> slurm_buf \<Rightarrow> slurm_buf" where
  "resize sz b =
     b\<lparr>buf_size := sz,
       buf_head := take (unat sz) (buf_head b) @ replicate (unat sz - length (buf_head b)) None\<rparr>"

definition grow_buf :: "slurm_buf \<Rightarrow> u32 \<Rightarrow> slurm_buf" where
  "grow_buf b sz =
     (if buf_size b + sz > MAX_BUF_SIZE then b else resize (buf_size b + sz) b)"

definition memcpy_in :: "u32 \<Rightarrow> u8 list \<Rightarrow> slurm_buf \<Rightarrow> slurm_buf option" where
  "memcpy_in off bs b =
     (let p = unat off; n = length bs in
      if p + n \<le> length (buf_head b)
      then Some (b\<lparr>buf_head := take p (buf_head b) @ map Some bs @ drop (p + n) (buf_head b)\<rparr>)
      else None)"

definition memcpy_out :: "u32 \<Rightarrow> nat \<Rightarrow> slurm_buf \<Rightarrow> u8 list option" where
  "memcpy_out off n b =
     (if unat off + n \<le> length (buf_head b) then those (take n (drop (unat off) (buf_head b)))
      else None)"


section \<open>Integers\<close>

text \<open>Network byte order: the most significant byte first.\<close>

fun be_bytes :: "nat \<Rightarrow> 'a::len word \<Rightarrow> u8 list" where
  "be_bytes 0 w = []"
| "be_bytes (Suc n) w = ucast (drop_bit (8 * n) w) # be_bytes n w"

definition of_be :: "u8 list \<Rightarrow> 'a::len word" where
  "of_be bs = foldl (\<lambda>w x. push_bit 8 w OR ucast x) 0 bs"

text \<open>Copying bytes to the current position and moving past them.\<close>

definition put_bytes :: "u8 list \<Rightarrow> slurm_buf \<Rightarrow> slurm_buf option" where
  "put_bytes bs b = do {
     b' \<leftarrow> memcpy_in (buf_processed b) bs b;
     Some (b'\<lparr>buf_processed := buf_processed b' + of_nat (length bs)\<rparr>) }"

text \<open>
  The text shared by \<^verbatim>\<open>pack8\<close>, \<^verbatim>\<open>pack16\<close>, \<^verbatim>\<open>pack32\<close>, \<^verbatim>\<open>pack64\<close> and \<^verbatim>\<open>pack_time\<close>: a full buffer
  is enlarged by \<^verbatim>\<open>BUF_SIZE\<close>, and at the limit the value is dropped with an error message.
\<close>

definition pack_fixed :: "u8 list \<Rightarrow> slurm_buf \<Rightarrow> slurm_buf option" where
  "pack_fixed bs b =
     (if unat (remaining_buf b) < length bs
      then if buf_size b + BUF_SIZE > MAX_BUF_SIZE then Some b
           else put_bytes bs (resize (buf_size b + BUF_SIZE) b)
      else put_bytes bs b)"

definition unpack_fixed :: "nat \<Rightarrow> slurm_buf \<Rightarrow> ('a::len word option \<times> slurm_buf) option" where
  "unpack_fixed n b =
     (if unat (remaining_buf b) < n then Some (None, b)
      else do {
        bs \<leftarrow> memcpy_out (buf_processed b) n b;
        Some (Some (of_be bs), b\<lparr>buf_processed := buf_processed b + of_nat n\<rparr>) })"

definition pack_time :: "u64 \<Rightarrow> slurm_buf \<Rightarrow> slurm_buf option" where
  "pack_time v b = pack_fixed (be_bytes 8 v) b"

definition unpack_time :: "slurm_buf \<Rightarrow> (u64 option \<times> slurm_buf) option" where
  "unpack_time b = unpack_fixed 8 b"

definition pack64 :: "u64 \<Rightarrow> slurm_buf \<Rightarrow> slurm_buf option" where
  "pack64 v b = pack_fixed (be_bytes 8 v) b"

definition unpack64 :: "slurm_buf \<Rightarrow> (u64 option \<times> slurm_buf) option" where
  "unpack64 b = unpack_fixed 8 b"

definition pack32 :: "u32 \<Rightarrow> slurm_buf \<Rightarrow> slurm_buf option" where
  "pack32 v b = pack_fixed (be_bytes 4 v) b"

definition unpack32 :: "slurm_buf \<Rightarrow> (u32 option \<times> slurm_buf) option" where
  "unpack32 b = unpack_fixed 4 b"

definition pack16 :: "u16 \<Rightarrow> slurm_buf \<Rightarrow> slurm_buf option" where
  "pack16 v b = pack_fixed (be_bytes 2 v) b"

definition unpack16 :: "slurm_buf \<Rightarrow> (u16 option \<times> slurm_buf) option" where
  "unpack16 b = unpack_fixed 2 b"

definition pack8 :: "u8 \<Rightarrow> slurm_buf \<Rightarrow> slurm_buf option" where
  "pack8 v b = pack_fixed (be_bytes 1 v) b"

definition unpack8 :: "slurm_buf \<Rightarrow> (u8 option \<times> slurm_buf) option" where
  "unpack8 b = unpack_fixed 1 b"


section \<open>Arrays\<close>

text \<open>
  The loops of the array functions. \<open>valp\<close> is the caller's array; reading past its end is
  undefined.
\<close>

definition pack_loop :: "('v \<Rightarrow> slurm_buf \<Rightarrow> slurm_buf option) \<Rightarrow> 'v list \<Rightarrow> u32 \<Rightarrow> slurm_buf \<Rightarrow> slurm_buf option" where
  "pack_loop pk valp size_val b =
     forM [0..<unat size_val] (\<lambda>i b. if i < length valp then pk (valp ! i) b else None) b"

fun unpack_loop :: "(slurm_buf \<Rightarrow> ('v option \<times> slurm_buf) option) \<Rightarrow> nat \<Rightarrow> slurm_buf \<Rightarrow>
    ('v list option \<times> slurm_buf) option" where
  "unpack_loop upk 0 b = Some (Some [], b)"
| "unpack_loop upk (Suc n) b = do {
     (r, b) \<leftarrow> upk b;
     (case r of
        None \<Rightarrow> Some (None, b)
      | Some v \<Rightarrow> do {
          (rs, b) \<leftarrow> unpack_loop upk n b;
          Some (map_option ((#) v) rs, b) }) }"

definition pack_array :: "('v \<Rightarrow> slurm_buf \<Rightarrow> slurm_buf option) \<Rightarrow> 'v list \<Rightarrow> u32 \<Rightarrow> slurm_buf \<Rightarrow> slurm_buf option" where
  "pack_array pk valp size_val b = do {
     b \<leftarrow> pack32 size_val b;
     pack_loop pk valp size_val b }"

definition unpack_array :: "(slurm_buf \<Rightarrow> ('v option \<times> slurm_buf) option) \<Rightarrow> slurm_buf \<Rightarrow>
    ('v list option \<times> slurm_buf) option" where
  "unpack_array upk b = do {
     (r, b) \<leftarrow> unpack32 b;
     (case r of None \<Rightarrow> Some (None, b) | Some size_val \<Rightarrow> unpack_loop upk (unat size_val) b) }"

definition pack16_array :: "u16 list \<Rightarrow> u32 \<Rightarrow> slurm_buf \<Rightarrow> slurm_buf option" where
  "pack16_array = pack_array pack16"

definition unpack16_array :: "slurm_buf \<Rightarrow> (u16 list option \<times> slurm_buf) option" where
  "unpack16_array = unpack_array unpack16"

definition pack32_array :: "u32 list \<Rightarrow> u32 \<Rightarrow> slurm_buf \<Rightarrow> slurm_buf option" where
  "pack32_array = pack_array pack32"

definition unpack32_array :: "slurm_buf \<Rightarrow> (u32 list option \<times> slurm_buf) option" where
  "unpack32_array = unpack_array unpack32"

definition pack64_array :: "u64 list \<Rightarrow> u32 \<Rightarrow> slurm_buf \<Rightarrow> slurm_buf option" where
  "pack64_array = pack_array pack64"

definition unpack64_array :: "slurm_buf \<Rightarrow> (u64 list option \<times> slurm_buf) option" where
  "unpack64_array = unpack_array unpack64"

definition pack64_array_as_32 :: "u64 list \<Rightarrow> u32 \<Rightarrow> slurm_buf \<Rightarrow> slurm_buf option" where
  "pack64_array_as_32 = pack_array (\<lambda>v. pack32 (ucast v))"

definition unpack64_array_from_32 :: "slurm_buf \<Rightarrow> (u64 list option \<times> slurm_buf) option" where
  "unpack64_array_from_32 =
     unpack_array (\<lambda>b. map_option (\<lambda>(r, b). (map_option ucast r, b)) (unpack32 b))"


section \<open>Memory blocks and strings\<close>

definition packmem :: "u8 list \<Rightarrow> u32 \<Rightarrow> slurm_buf \<Rightarrow> slurm_buf option" where
  "packmem valp size_val b =
     (if size_val > MAX_PACK_MEM_LEN then Some b
      else if unat (remaining_buf b) < 4 + unat size_val \<and>
              buf_size b + size_val + BUF_SIZE > MAX_BUF_SIZE then Some b
      else do {
        b \<leftarrow> (if unat (remaining_buf b) < 4 + unat size_val
              then Some (resize (buf_size b + (size_val + BUF_SIZE)) b) else Some b);
        b \<leftarrow> put_bytes (be_bytes 4 size_val) b;
        (if size_val \<noteq> 0
         then if unat size_val \<le> length valp then put_bytes (take (unat size_val) valp) b else None
         else Some b) })"

text \<open>
  The header shared by the unpacking functions for memory blocks; it yields the offset of the
  block, or \<^term>\<open>None\<close> for NULL, and its size. \<^verbatim>\<open>unpackmem_ptr\<close> returns just that.
\<close>

definition unpackmem_ptr :: "slurm_buf \<Rightarrow> ((u32 option \<times> u32) option \<times> slurm_buf) option" where
  "unpackmem_ptr b = do {
     (r, b) \<leftarrow> unpack32 b;
     (case r of
        None \<Rightarrow> Some (None, b)
      | Some size_val \<Rightarrow>
          if size_val > MAX_PACK_MEM_LEN then Some (None, b)
          else if size_val > 0
               then if remaining_buf b < size_val then Some (None, b)
                    else Some (Some (Some (buf_processed b), size_val),
                               b\<lparr>buf_processed := buf_processed b + size_val\<rparr>)
          else Some (Some (None, size_val), b)) }"

definition unpackmem_xmalloc :: "slurm_buf \<Rightarrow> ((u8 list option \<times> u32) option \<times> slurm_buf) option" where
  "unpackmem_xmalloc b = do {
     (r, b) \<leftarrow> unpackmem_ptr b;
     (case r of
        None \<Rightarrow> Some (None, b)
      | Some (None, size_val) \<Rightarrow> Some (Some (None, size_val), b)
      | Some (Some off, size_val) \<Rightarrow> do {
          bs \<leftarrow> memcpy_out off (unat size_val) b;
          Some (Some (Some bs, size_val), b) }) }"

definition unpackmem_malloc :: "slurm_buf \<Rightarrow> ((u8 list option \<times> u32) option \<times> slurm_buf) option" where
  "unpackmem_malloc b = unpackmem_xmalloc b"

text \<open>
  \<^verbatim>\<open>unpackmem\<close> copies to memory the caller provides, \<open>avail\<close> bytes; an empty block stores a
  terminating zero there.
\<close>

definition unpackmem :: "nat \<Rightarrow> slurm_buf \<Rightarrow> ((u8 list \<times> u32) option \<times> slurm_buf) option" where
  "unpackmem avail b = do {
     (r, b) \<leftarrow> unpackmem_xmalloc b;
     (case r of
        None \<Rightarrow> Some (None, b)
      | Some (v, size_val) \<Rightarrow>
          (let out = (case v of Some bs \<Rightarrow> bs | None \<Rightarrow> [0]) in
           if length out \<le> avail then Some (Some (out, size_val), b) else None)) }"

text \<open>
  \<^verbatim>\<open>unpackstr_xmalloc_escaped\<close> puts a backslash before every backslash and quote, up to the
  first zero byte, and terminates the copy. The size returned counts the added backslashes.
\<close>

fun escape :: "u8 list \<Rightarrow> u8 list" where
  "escape [] = []"
| "escape (c # cs) = (if c = 0 then [] else if c = 92 \<or> c = 39 then 92 # c # escape cs else c # escape cs)"

definition escapes :: "u8 list \<Rightarrow> nat" where
  "escapes cs = length (filter (\<lambda>c. c = 92 \<or> c = 39) (takeWhile (\<lambda>c. c \<noteq> 0) cs))"

definition unpackstr_xmalloc_escaped :: "slurm_buf \<Rightarrow> ((u8 list option \<times> u32) option \<times> slurm_buf) option" where
  "unpackstr_xmalloc_escaped b = do {
     (r, b) \<leftarrow> unpackmem_xmalloc b;
     Some (case r of
        Some (Some cs, cnt) \<Rightarrow> Some (Some (escape cs @ [0]), cnt + of_nat (escapes cs))
      | r \<Rightarrow> r, b) }"

definition unpackstr_xmalloc_chooser :: "bool \<Rightarrow> slurm_buf \<Rightarrow> ((u8 list option \<times> u32) option \<times> slurm_buf) option" where
  "unpackstr_xmalloc_chooser slurmdbd_conf b =
     (if slurmdbd_conf then unpackstr_xmalloc_escaped b else unpackmem_xmalloc b)"

text \<open>A C string is the list of its non-zero bytes; NULL is \<^term>\<open>None\<close>.\<close>

definition packstr :: "u8 list option \<Rightarrow> slurm_buf \<Rightarrow> slurm_buf option" where
  "packstr str b = do {
     assertC (buf_magic b = BUF_MAGIC);
     (case str of
        None \<Rightarrow> packmem [] 0 b
      | Some s \<Rightarrow> packmem (s @ [0]) (of_nat (length s) + 1) b) }"

definition packnull :: "slurm_buf \<Rightarrow> slurm_buf option" where
  "packnull b = do { assertC (buf_magic b = BUF_MAGIC); packmem [] 0 b }"

definition packstr_array :: "u8 list option list \<Rightarrow> u32 \<Rightarrow> slurm_buf \<Rightarrow> slurm_buf option" where
  "packstr_array valp size_val b =
     (if unat (remaining_buf b) < 4 \<and> buf_size b + BUF_SIZE > MAX_BUF_SIZE then Some b
      else do {
        b \<leftarrow> pack32 size_val b;
        pack_loop packstr valp size_val b })"

definition unpackstr_array :: "slurm_buf \<Rightarrow> (u8 list option list option \<times> slurm_buf) option" where
  "unpackstr_array b = do {
     (r, b) \<leftarrow> unpack32 b;
     (case r of
        None \<Rightarrow> Some (None, b)
      | Some size_val \<Rightarrow>
          if size_val > MAX_PACK_ARRAY_LEN then Some (None, b)
          else unpack_loop (\<lambda>b. map_option (\<lambda>(r, b). (map_option fst r, b)) (unpackmem_xmalloc b))
                 (unat size_val) b) }"

text \<open>
  The \<^verbatim>\<open>safe_unpack\<close> macros: on an error of \<open>upk\<close> control goes to the label \<open>err\<close>, otherwise to
  the statements \<open>k\<close> that follow.
\<close>

definition safe_unpack :: "(slurm_buf \<Rightarrow> ('v option \<times> slurm_buf) option) \<Rightarrow> slurm_buf \<Rightarrow>
    (slurm_buf \<Rightarrow> 'r option) \<Rightarrow> ('v \<Rightarrow> slurm_buf \<Rightarrow> 'r option) \<Rightarrow> 'r option" where
  "safe_unpack upk b err k = do {
     assertC (buf_magic b = BUF_MAGIC);
     (r, b) \<leftarrow> upk b;
     (case r of None \<Rightarrow> err b | Some v \<Rightarrow> k v b) }"

text \<open>A string field is the bytes before the first zero of the block that was read.\<close>

definition str_field :: "u8 list option \<times> u32 \<Rightarrow> c_string option" where
  "str_field r = map_option (takeWhile (\<lambda>c. c \<noteq> 0)) (fst r)"

text \<open>Blocks whose length is known to both sides.\<close>

definition packmem_array :: "u8 list \<Rightarrow> u32 \<Rightarrow> slurm_buf \<Rightarrow> slurm_buf option" where
  "packmem_array valp size_val b =
     (if remaining_buf b < size_val \<and> buf_size b + size_val + BUF_SIZE > MAX_BUF_SIZE then Some b
      else if length valp < unat size_val then None
      else if remaining_buf b < size_val
      then put_bytes (take (unat size_val) valp) (resize (buf_size b + (size_val + BUF_SIZE)) b)
      else put_bytes (take (unat size_val) valp) b)"

definition unpackmem_array :: "u32 \<Rightarrow> slurm_buf \<Rightarrow> (u8 list option \<times> slurm_buf) option" where
  "unpackmem_array size_val b =
     (if remaining_buf b \<ge> size_val
      then do {
        bs \<leftarrow> memcpy_out (buf_processed b) (unat size_val) b;
        Some (Some bs, b\<lparr>buf_processed := buf_processed b + size_val\<rparr>) }
      else Some (None, b))"


section \<open>Byte order\<close>

lemma length_be_bytes [simp]: "length (be_bytes n w) = n"
  by (induction n) auto

lemma of_be_snoc: "of_be (bs @ [x]) = push_bit 8 (of_be bs) OR ucast x"
  by (simp add: of_be_def)

text \<open>Bit \<open>i\<close> of the value read is bit \<open>i mod 8\<close> of byte \<open>i div 8\<close>, counted from the end.\<close>

lemma bit_of_be:
  fixes bs :: "u8 list"
  shows "bit (of_be bs :: 'a::len word) i \<longleftrightarrow>
    i < LENGTH('a) \<and> i div 8 < length bs \<and> bit (rev bs ! (i div 8)) (i mod 8)"
proof (induction bs arbitrary: i rule: rev_induct)
  case Nil
  then show ?case by (simp add: of_be_def)
next
  case (snoc x bs)
  show ?case
  proof (cases "i < 8")
    case True
    then show ?thesis by (auto simp: of_be_snoc bit_simps)
  next
    case False
    then obtain j where j: "i = j + 8" by (metis le_add_diff_inverse2 not_less)
    then have "(j + 8) div 8 = Suc (j div 8)" "(j + 8) mod 8 = j mod 8" by auto
    then show ?thesis using snoc [of j] unfolding j
      by (auto simp: of_be_snoc bit_simps dest: bit_imp_le_length)
  qed
qed

lemma rev_be_bytes_nth: "k < n \<Longrightarrow> rev (be_bytes n w) ! k = ucast (drop_bit (8 * k) w)"
  by (induction n) (auto simp: nth_append less_Suc_eq)

lemma of_be_be_bytes:
  fixes w :: "'a::len word"
  assumes "LENGTH('a) = 8 * n"
  shows "of_be (be_bytes n w) = w"
proof (rule bit_word_eqI)
  fix i assume i: "i < LENGTH('a)"
  then have "i div 8 < n" using assms by auto
  then show "bit (of_be (be_bytes n w) :: 'a word) i = bit w i"
    using i by (simp add: bit_of_be rev_be_bytes_nth bit_simps)
qed


section \<open>What packing does to a buffer\<close>

definition buf_ok :: "slurm_buf \<Rightarrow> bool" where
  "buf_ok b \<longleftrightarrow> buf_magic b = BUF_MAGIC \<and> length (buf_head b) = unat (buf_size b) \<and>
     buf_processed b \<le> buf_size b \<and> buf_size b \<le> MAX_BUF_SIZE"

text \<open>\<open>wrote b bs b'\<close>: \<open>b'\<close> holds what \<open>b\<close> held up to its position, then \<open>bs\<close>.\<close>

definition wrote :: "slurm_buf \<Rightarrow> u8 list \<Rightarrow> slurm_buf \<Rightarrow> bool" where
  "wrote b bs b' \<longleftrightarrow> buf_ok b' \<and> unat (buf_processed b') = unat (buf_processed b) + length bs \<and>
     take (unat (buf_processed b')) (buf_head b') = take (unat (buf_processed b)) (buf_head b) @ map Some bs"

text \<open>\<open>holds b bs\<close>: the next bytes to read are \<open>bs\<close>.\<close>

definition holds :: "slurm_buf \<Rightarrow> u8 list \<Rightarrow> bool" where
  "holds b bs \<longleftrightarrow> (\<exists>rest. drop (unat (buf_processed b)) (buf_head b) = map Some bs @ rest)"

definition skip_bytes :: "slurm_buf \<Rightarrow> nat \<Rightarrow> slurm_buf" where
  "skip_bytes b n = b\<lparr>buf_processed := buf_processed b + of_nat n\<rparr>"

text \<open>
  \<open>fits b c\<close>: \<open>c\<close> more bytes leave room for one enlargement below the limit, so that no
  enlargement on the way fails.
\<close>

definition fits :: "slurm_buf \<Rightarrow> nat \<Rightarrow> bool" where
  "fits b c \<longleftrightarrow> unat (buf_processed b) + c + unat BUF_SIZE \<le> unat MAX_BUF_SIZE"

lemma unat_consts [simp]:
  "unat BUF_SIZE = 16384" "unat MAX_BUF_SIZE = 4294901760" "unat MAX_PACK_MEM_LEN = 1073741824"
  "unat MAX_PACK_ARRAY_LEN = 131072"
  by (simp_all add: BUF_SIZE_def MAX_BUF_SIZE_def MAX_PACK_MEM_LEN_def MAX_PACK_ARRAY_LEN_def)

lemma unat_remaining: "buf_ok b \<Longrightarrow> unat (remaining_buf b) = unat (buf_size b) - unat (buf_processed b)"
  by (simp add: buf_ok_def remaining_buf_def unat_sub)

lemma buf_ok_le:
  assumes "buf_ok b"
  shows "unat (buf_processed b) \<le> unat (buf_size b)" and "unat (buf_size b) \<le> 4294901760"
  using assms word_le_nat_alt [of "buf_processed b"] word_le_nat_alt [of "buf_size b" MAX_BUF_SIZE]
  by (simp_all add: buf_ok_def)

lemma unat_add_small: "unat x + n < 2 ^ 32 \<Longrightarrow> unat (x + of_nat n :: u32) = unat x + n"
  by (simp add: unat_word_ariths unat_of_nat)

lemma put_bytes_wrote:
  assumes ok: "buf_ok b" and room: "length bs \<le> unat (remaining_buf b)"
  obtains b' where "put_bytes bs b = Some b'" and "wrote b bs b'" and "buf_size b' = buf_size b"
proof -
  let ?p = "unat (buf_processed b)"
  let ?b = "b\<lparr>buf_head := take ?p (buf_head b) @ map Some bs @ drop (?p + length bs) (buf_head b),
    buf_processed := buf_processed b + of_nat (length bs)\<rparr>"
  have le: "?p + length bs \<le> unat (buf_size b)" "unat (buf_size b) \<le> 4294901760" "length (buf_head b) = unat (buf_size b)"
    using room unat_remaining [OF ok] buf_ok_le [OF ok] ok by (auto simp: buf_ok_def)
  then have u: "unat (buf_processed b + of_nat (length bs)) = ?p + length bs"
    by (intro unat_add_small) simp
  have "put_bytes bs b = Some ?b" using le by (simp add: put_bytes_def memcpy_in_def Let_def)
  moreover have "wrote b bs ?b"
    using le ok u by (simp add: wrote_def buf_ok_def word_le_nat_alt)
  ultimately show thesis using that by simp
qed

lemma resize_ok:
  assumes "buf_ok b" and "buf_size b \<le> sz" and "sz \<le> MAX_BUF_SIZE"
  shows "buf_ok (resize sz b)" and "take (unat (buf_processed b)) (buf_head (resize sz b)) = take (unat (buf_processed b)) (buf_head b)"
    and "buf_processed (resize sz b) = buf_processed b" and "buf_size (resize sz b) = sz"
  using assms buf_ok_le [OF assms(1)] by (auto simp: buf_ok_def resize_def word_le_nat_alt)

lemma wrote_resize:
  assumes "buf_ok b" and "buf_size b \<le> sz" and "sz \<le> MAX_BUF_SIZE" and "wrote (resize sz b) bs b'"
  shows "wrote b bs b'"
  using assms(4) unfolding wrote_def resize_ok(2,3) [OF assms(1-3)] .

lemma wrote_append: "wrote b xs b1 \<Longrightarrow> wrote b1 ys b2 \<Longrightarrow> wrote b (xs @ ys) b2"
  by (auto simp: wrote_def)

lemma wrote_nil: "buf_ok b \<Longrightarrow> wrote b [] b"
  by (simp add: wrote_def)

lemma pack_fixed_wrote:
  assumes ok: "buf_ok b" and n: "length bs \<le> 16384" and fit: "fits b (length bs)"
  obtains b' where "pack_fixed bs b = Some b'" and "wrote b bs b'"
proof (cases "unat (remaining_buf b) < length bs")
  case True
  let ?sz = "buf_size b + BUF_SIZE"
  have small: "unat (buf_size b) + 16384 \<le> 4294901760"
    using True fit unat_remaining [OF ok] by (simp add: fits_def)
  then have sz: "unat ?sz = unat (buf_size b) + 16384"
    using unat_add_small [of "buf_size b" 16384] by (simp add: BUF_SIZE_def)
  have le: "buf_size b \<le> ?sz" "?sz \<le> MAX_BUF_SIZE" using small sz by (simp_all add: word_le_nat_alt)
  note r = resize_ok [OF ok le]
  have "length bs \<le> unat (remaining_buf (resize ?sz b))"
    using n sz unat_remaining [OF r(1)] r(3,4) buf_ok_le [OF ok] by simp
  then obtain b' where b': "put_bytes bs (resize ?sz b) = Some b'" "wrote (resize ?sz b) bs b'"
    using put_bytes_wrote [OF r(1)] by blast
  show thesis
    by (rule that [of b']) (use True le b' wrote_resize [OF ok le b'(2)] in \<open>simp_all add: pack_fixed_def not_less\<close>)
next
  case False
  then obtain b' where "put_bytes bs b = Some b'" "wrote b bs b'"
    using put_bytes_wrote [OF ok] by (metis not_less)
  with False that show thesis by (simp add: pack_fixed_def)
qed

lemma holds_skip:
  assumes "buf_ok b" and "holds b bs"
  shows "length bs \<le> unat (remaining_buf b)" and "buf_ok (skip_bytes b (length bs))"
    and "unat (buf_processed (skip_bytes b (length bs))) = unat (buf_processed b) + length bs"
    and "memcpy_out (buf_processed b) (length bs) b = Some bs"
proof -
  obtain rest where rest: "drop (unat (buf_processed b)) (buf_head b) = map Some bs @ rest"
    using assms(2) by (auto simp: holds_def)
  have "length (drop (unat (buf_processed b)) (buf_head b)) = length bs + length rest" unfolding rest by simp
  moreover have "length (buf_head b) = unat (buf_size b)" using assms(1) by (simp add: buf_ok_def)
  ultimately have le: "unat (buf_processed b) + length bs \<le> unat (buf_size b)"
    using buf_ok_le [OF assms(1)] by simp
  show "length bs \<le> unat (remaining_buf b)" using le unat_remaining [OF assms(1)] by simp
  show u: "unat (buf_processed (skip_bytes b (length bs))) = unat (buf_processed b) + length bs"
    unfolding skip_bytes_def using le buf_ok_le [OF assms(1)] by (simp add: unat_add_small)
  show "buf_ok (skip_bytes b (length bs))"
    using assms(1) le u by (auto simp: buf_ok_def skip_bytes_def word_le_nat_alt)
  have "those (map Some xs) = Some xs" for xs :: "u8 list" by (induction xs) auto
  then show "memcpy_out (buf_processed b) (length bs) b = Some bs"
    using le rest \<open>length (buf_head b) = _\<close> by (simp add: memcpy_out_def)
qed

lemma holds_append: "buf_ok b \<Longrightarrow> holds b (xs @ ys) \<Longrightarrow> holds b xs \<and> holds (skip_bytes b (length xs)) ys"
proof -
  assume ok: "buf_ok b" and h: "holds b (xs @ ys)"
  then obtain rest where rest: "drop (unat (buf_processed b)) (buf_head b) = map Some xs @ map Some ys @ rest"
    by (auto simp: holds_def)
  then have x: "holds b xs" by (auto simp: holds_def)
  have "drop (length xs) (drop (unat (buf_processed b)) (buf_head b)) = map Some ys @ rest"
    unfolding rest by simp
  then have "holds (skip_bytes b (length xs)) ys"
    using holds_skip(3) [OF ok x] by (auto simp: holds_def skip_bytes_def add.commute)
  with x show ?thesis by simp
qed

lemma skip_skip: "skip_bytes (skip_bytes b m) n = skip_bytes b (m + n)"
  by (simp add: skip_bytes_def add.assoc)

text \<open>Going back to where the packing began.\<close>

lemma wrote_rewind:
  assumes "buf_ok b" and "wrote b bs b'"
  shows "buf_ok (set_buf_offset b' (buf_processed b))" and "holds (set_buf_offset b' (buf_processed b)) bs"
    and "skip_bytes (set_buf_offset b' (buf_processed b)) (length bs) = b'"
proof -
  let ?p = "unat (buf_processed b)" and ?q = "unat (buf_processed b')"
  have ok': "buf_ok b'" and q: "?q = ?p + length bs"
    and t: "take ?q (buf_head b') = take ?p (buf_head b) @ map Some bs"
    using assms(2) by (auto simp: wrote_def)
  show "buf_ok (set_buf_offset b' (buf_processed b))"
    using ok' q by (auto simp: buf_ok_def set_buf_offset_def word_le_nat_alt)
  have len: "length (take ?p (buf_head b)) = ?p"
    using buf_ok_le [OF assms(1)] assms(1) by (simp add: buf_ok_def)
  have "buf_head b' = (take ?p (buf_head b) @ map Some bs) @ drop ?q (buf_head b')"
    unfolding t [symmetric] by simp
  then have "drop ?p (buf_head b') = map Some bs @ drop ?q (buf_head b')"
    by (metis append_assoc append_eq_conv_conj len)
  then show "holds (set_buf_offset b' (buf_processed b)) bs"
    by (auto simp: holds_def set_buf_offset_def)
  have "unat (buf_processed b + of_nat (length bs)) = ?p + length bs"
    using q buf_ok_le [OF ok'] by (intro unat_add_small) simp
  then have "buf_processed b + of_nat (length bs) = buf_processed b'"
    using q by (simp add: word_unat_eq_iff)
  then show "skip_bytes (set_buf_offset b' (buf_processed b)) (length bs) = b'"
    by (simp add: skip_bytes_def set_buf_offset_def)
qed

end
