(* ===== verification/Pack_Codec.thy ===== *)
theory Pack_Codec
  imports Pack
begin

text \<open>
  Round trips and safety of the wire format. The locale \<open>codec\<close> is the contract between a packing
  and an unpacking function: the bytes written are those of an encoding, and reading an encoding
  gives the value back. Arrays are treated once, inside the locale. The locale \<open>safe_unpacker\<close> is
  the contract on arbitrary input: the function returns, inside the buffer.
\<close>

section \<open>Codecs\<close>

locale packer =
  fixes pk :: "'v \<Rightarrow> slurm_buf \<Rightarrow> slurm_buf option"
    and enc :: "'v \<Rightarrow> u8 list"
    and cost :: "'v \<Rightarrow> nat"
    and ok :: "'v \<Rightarrow> bool"
  assumes enc_cost: "ok v \<Longrightarrow> length (enc v) \<le> cost v"
    and pk_wrote: "buf_ok b \<Longrightarrow> ok v \<Longrightarrow> fits b (cost v) \<Longrightarrow> \<exists>b'. pk v b = Some b' \<and> wrote b (enc v) b'"
begin

text \<open>After a value has been written, what is left of a budget still fits.\<close>

lemma fits_after: "ok v \<Longrightarrow> fits b (cost v + c) \<Longrightarrow> wrote b (enc v) b' \<Longrightarrow> fits b' c"
  using enc_cost [of v] by (simp add: fits_def wrote_def)

lemma pk_list:
  assumes "buf_ok b" and "\<forall>v \<in> set vs. ok v" and "fits b (sum_list (map cost vs))"
  shows "\<exists>b'. forM vs pk b = Some b' \<and> wrote b (concat (map enc vs)) b'"
  using assms
proof (induction vs arbitrary: b)
  case Nil
  then show ?case by (simp add: wrote_nil)
next
  case (Cons v vs)
  have "fits b (cost v)" using Cons.prems(3) by (simp add: fits_def)
  then obtain b1 where b1: "pk v b = Some b1" "wrote b (enc v) b1"
    using pk_wrote [of b v] Cons.prems by auto
  moreover have "fits b1 (sum_list (map cost vs))" using fits_after [of v] b1(2) Cons.prems by simp
  moreover have "buf_ok b1" using b1(2) by (simp add: wrote_def)
  ultimately obtain b2 where "forM vs pk b1 = Some b2" "wrote b1 (concat (map enc vs)) b2"
    using Cons.IH Cons.prems by auto
  with b1 show ?case by (auto intro: wrote_append)
qed

text \<open>One field packed before the others.\<close>

lemma then_packer:
  assumes "packer pk2 enc2 cost2 ok2"
  shows "packer (\<lambda>v b. do { b \<leftarrow> pk (f v) b; pk2 v b }) (\<lambda>v. enc (f v) @ enc2 v) (\<lambda>v. cost (f v) + cost2 v)
    (\<lambda>v. ok (f v) \<and> ok2 v)"
proof (rule packer.intro)
  fix v b
  show "length (enc (f v) @ enc2 v) \<le> cost (f v) + cost2 v" if "ok (f v) \<and> ok2 v"
    using enc_cost packer.enc_cost [OF assms] that by (simp add: add_mono)
  show "\<exists>b'. do { b \<leftarrow> pk (f v) b; pk2 v b } = Some b' \<and> wrote b (enc (f v) @ enc2 v) b'"
    if b: "buf_ok b" "ok (f v) \<and> ok2 v" "fits b (cost (f v) + cost2 v)"
  proof -
    have "fits b (cost (f v))" using b(3) by (simp add: fits_def)
    then obtain b1 where b1: "pk (f v) b = Some b1" "wrote b (enc (f v)) b1" using pk_wrote b by blast
    then have "buf_ok b1" "fits b1 (cost2 v)" using fits_after b by (auto simp: wrote_def)
    then obtain b2 where "pk2 v b1 = Some b2" "wrote b1 (enc2 v) b2" using packer.pk_wrote [OF assms] b(2) by blast
    with b1 show ?thesis by (auto intro: wrote_append)
  qed
qed

end

locale codec = packer pk enc cost ok
  for pk :: "'v \<Rightarrow> slurm_buf \<Rightarrow> slurm_buf option" and enc cost ok +
  fixes upk :: "slurm_buf \<Rightarrow> ('v option \<times> slurm_buf) option"
  assumes upk_holds: "buf_ok b \<Longrightarrow> ok v \<Longrightarrow> holds b (enc v) \<Longrightarrow>
      upk b = Some (Some v, skip_bytes b (length (enc v)))"
begin

lemma round_trip:
  assumes "buf_ok b" and "ok v" and "fits b (cost v)"
  shows "\<exists>b'. pk v b = Some b' \<and> wrote b (enc v) b' \<and>
    upk (set_buf_offset b' (buf_processed b)) = Some (Some v, b')"
proof -
  obtain b' where b': "pk v b = Some b'" "wrote b (enc v) b'" using pk_wrote [OF assms] by blast
  note r = wrote_rewind [OF assms(1) b'(2)]
  show ?thesis using b' upk_holds [OF r(1) assms(2) r(2)] r(3) by auto
qed

lemma upk_list:
  assumes "buf_ok b" and "\<forall>v \<in> set vs. ok v" and "holds b (concat (map enc vs))"
  shows "unpack_loop upk (length vs) b = Some (Some vs, skip_bytes b (length (concat (map enc vs))))"
  using assms
proof (induction vs arbitrary: b)
  case Nil
  then show ?case by (simp add: skip_bytes_def)
next
  case (Cons v vs)
  have h: "holds b (enc v)" "holds (skip_bytes b (length (enc v))) (concat (map enc vs))"
    using holds_append [OF Cons.prems(1)] Cons.prems(3) by auto
  have "buf_ok (skip_bytes b (length (enc v)))" using holds_skip(2) [OF Cons.prems(1) h(1)] .
  with Cons.IH h(2) Cons.prems(2) upk_holds [OF Cons.prems(1) _ h(1)] show ?case
    by (simp add: skip_skip)
qed

end

context codec
begin

text \<open>Reading one field of a message of which the rest follows.\<close>

lemma safe_unpack_holds:
  assumes "buf_ok b" and "ok v" and "holds b (enc v @ rest)"
  shows "safe_unpack upk b err k = k v (skip_bytes b (length (enc v)))"
    and "buf_ok (skip_bytes b (length (enc v)))" and "holds (skip_bytes b (length (enc v))) rest"
proof -
  have h: "holds b (enc v)" "holds (skip_bytes b (length (enc v))) rest" using holds_append [OF assms(1)] assms(3) by auto
  show "safe_unpack upk b err k = k v (skip_bytes b (length (enc v)))"
    using upk_holds [OF assms(1,2) h(1)] assms(1) by (simp add: safe_unpack_def buf_ok_def)
  show "buf_ok (skip_bytes b (length (enc v)))" "holds (skip_bytes b (length (enc v))) rest"
    using holds_skip(2) [OF assms(1) h(1)] h(2) by simp_all
qed

end

text \<open>A codec for the same bytes through injective views of the value on both sides.\<close>

lemma fixed_codec:
  assumes "LENGTH('a::len) = 8 * n" and "n \<le> 8"
  shows "codec (\<lambda>v :: 'a word. pack_fixed (be_bytes n v)) (be_bytes n) (\<lambda>v. n) (\<lambda>v. True) (unpack_fixed n)"
proof
  fix b and v :: "'a word"
  assume ok: "buf_ok b"
  show "\<exists>b'. pack_fixed (be_bytes n v) b = Some b' \<and> wrote b (be_bytes n v) b'" if "fits b n"
  proof -
    have "length (be_bytes n v) \<le> 16384" "fits b (length (be_bytes n v))" using assms(2) that by simp_all
    then show ?thesis using pack_fixed_wrote [OF ok] by blast
  qed
  show "unpack_fixed n b = Some (Some v, skip_bytes b (length (be_bytes n v)))" if "holds b (be_bytes n v)"
    using holds_skip(1,4) [OF ok that] of_be_be_bytes [OF assms(1), of v]
    by (simp add: unpack_fixed_def skip_bytes_def)
qed simp

interpretation c64: codec pack64 "be_bytes 8" "\<lambda>v. 8" "\<lambda>v. True" unpack64
  unfolding pack64_def [abs_def] unpack64_def [abs_def] by (rule fixed_codec) simp_all

interpretation ctime: codec pack_time "be_bytes 8" "\<lambda>v. 8" "\<lambda>v. True" unpack_time
  unfolding pack_time_def [abs_def] unpack_time_def [abs_def] by (rule fixed_codec) simp_all

interpretation c32: codec pack32 "be_bytes 4" "\<lambda>v. 4" "\<lambda>v. True" unpack32
  unfolding pack32_def [abs_def] unpack32_def [abs_def] by (rule fixed_codec) simp_all

interpretation c16: codec pack16 "be_bytes 2" "\<lambda>v. 2" "\<lambda>v. True" unpack16
  unfolding pack16_def [abs_def] unpack16_def [abs_def] by (rule fixed_codec) simp_all

interpretation c8: codec pack8 "be_bytes 1" "\<lambda>v. 1" "\<lambda>v. True" unpack8
  unfolding pack8_def [abs_def] unpack8_def [abs_def] by (rule fixed_codec) simp_all


section \<open>Arrays\<close>

definition arr_enc :: "('v \<Rightarrow> u8 list) \<Rightarrow> 'v list \<Rightarrow> u8 list" where
  "arr_enc enc vs = be_bytes 4 (of_nat (length vs) :: u32) @ concat (map enc vs)"

definition arr_cost :: "('v \<Rightarrow> nat) \<Rightarrow> 'v list \<Rightarrow> nat" where
  "arr_cost cost vs = 4 + sum_list (map cost vs)"

definition arr_ok :: "('v \<Rightarrow> bool) \<Rightarrow> 'v list \<Rightarrow> bool" where
  "arr_ok ok vs \<longleftrightarrow> length vs < 2 ^ 32 \<and> (\<forall>v \<in> set vs. ok v)"

context codec
begin

lemma array_codec:
  "codec (\<lambda>vs. pack_array pk vs (of_nat (length vs))) (arr_enc enc) (arr_cost cost) (arr_ok ok) (unpack_array upk)"
proof
  fix vs :: "'v list" and b
  assume vs: "arr_ok ok vs"
  then have n: "unat (of_nat (length vs) :: u32) = length vs" and oks: "\<forall>v \<in> set vs. ok v"
    by (simp_all add: arr_ok_def unat_of_nat)
  have "sum_list (map (\<lambda>v. length (enc v)) vs) \<le> sum_list (map cost vs)"
    using oks enc_cost by (intro sum_list_mono) auto
  then show "length (arr_enc enc vs) \<le> arr_cost cost vs"
    by (simp add: arr_enc_def arr_cost_def length_concat comp_def)
  show "\<exists>b'. pack_array pk vs (of_nat (length vs)) b = Some b' \<and> wrote b (arr_enc enc vs) b'"
    if ok: "buf_ok b" and fit: "fits b (arr_cost cost vs)"
  proof -
    have "fits b 4" using fit by (simp add: fits_def arr_cost_def)
    then obtain b1 where b1: "pack32 (of_nat (length vs)) b = Some b1" "wrote b (be_bytes 4 (of_nat (length vs) :: u32)) b1"
      using c32.pk_wrote [OF ok] by auto
    have "fits b1 (sum_list (map cost vs))" using c32.fits_after [OF _ _ b1(2)] fit by (simp add: arr_cost_def)
    moreover have "buf_ok b1" using b1(2) by (simp add: wrote_def)
    ultimately obtain b2 where "forM vs pk b1 = Some b2" "wrote b1 (concat (map enc vs)) b2"
      using pk_list oks by blast
    with b1 n show ?thesis by (auto simp: pack_array_def pack_loop_def forM_nth arr_enc_def intro: wrote_append)
  qed
  show "unpack_array upk b = Some (Some vs, skip_bytes b (length (arr_enc enc vs)))"
    if ok: "buf_ok b" and h: "holds b (arr_enc enc vs)"
  proof -
    let ?n = "of_nat (length vs) :: u32"
    have h4: "holds b (be_bytes 4 ?n)" and hr: "holds (skip_bytes b 4) (concat (map enc vs))"
      using holds_append [OF ok, of "be_bytes 4 ?n"] h by (simp_all add: arr_enc_def)
    have "buf_ok (skip_bytes b 4)" using holds_skip(2) [OF ok h4] by simp
    from upk_list [OF this oks hr] c32.upk_holds [OF ok _ h4] n show ?thesis
      by (simp add: unpack_array_def arr_enc_def skip_skip)
  qed
qed

end

interpretation a16: codec "\<lambda>vs. pack16_array vs (of_nat (length vs))"
    "arr_enc (be_bytes 2)" "arr_cost (\<lambda>v. 2)" "arr_ok (\<lambda>v. True)" unpack16_array
  unfolding pack16_array_def unpack16_array_def by (rule c16.array_codec)

interpretation a32: codec "\<lambda>vs. pack32_array vs (of_nat (length vs))"
    "arr_enc (be_bytes 4)" "arr_cost (\<lambda>v. 4)" "arr_ok (\<lambda>v. True)" unpack32_array
  unfolding pack32_array_def unpack32_array_def by (rule c32.array_codec)

interpretation a64: codec "\<lambda>vs. pack64_array vs (of_nat (length vs))"
    "arr_enc (be_bytes 8)" "arr_cost (\<lambda>v. 8)" "arr_ok (\<lambda>v. True)" unpack64_array
  unfolding pack64_array_def unpack64_array_def by (rule c64.array_codec)

text \<open>The same bytes through a view of the value on both sides.\<close>

context codec
begin

lemma view_codec:
  "codec (\<lambda>w. pk (f w)) (\<lambda>w. enc (f w)) (\<lambda>w. cost (f w)) (\<lambda>w. ok (f w) \<and> g (f w) = w)
     (\<lambda>b. map_option (\<lambda>(r, b). (map_option g r, b)) (upk b))"
  by unfold_locales (auto simp: enc_cost pk_wrote upk_holds)

end

interpretation c64_as_32: codec "\<lambda>v :: u64. pack32 (ucast v)" "\<lambda>v. be_bytes 4 (ucast v :: u32)" "\<lambda>v. 4"
    "\<lambda>v. True \<and> ucast (ucast v :: u32) = v" "\<lambda>b. map_option (\<lambda>(r, b). (map_option ucast r, b)) (unpack32 b)"
  by (rule c32.view_codec)

interpretation a64_as_32: codec "\<lambda>vs. pack64_array_as_32 vs (of_nat (length vs))"
    "arr_enc (\<lambda>v :: u64. be_bytes 4 (ucast v :: u32))" "arr_cost (\<lambda>v. 4)"
    "arr_ok (\<lambda>v :: u64. True \<and> ucast (ucast v :: u32) = v)" unpack64_array_from_32
  unfolding pack64_array_as_32_def unpack64_array_from_32_def by (rule c64_as_32.array_codec)


section \<open>Memory blocks\<close>

text \<open>A block is NULL, or its bytes; a block of no bytes is packed like NULL.\<close>

definition mem_bytes :: "u8 list option \<Rightarrow> u8 list" where
  "mem_bytes v = (case v of None \<Rightarrow> [] | Some bs \<Rightarrow> bs)"

definition mem_ok :: "u8 list option \<Rightarrow> bool" where
  "mem_ok v \<longleftrightarrow> v \<noteq> Some [] \<and> length (mem_bytes v) \<le> unat MAX_PACK_MEM_LEN"

definition mem_enc :: "u8 list option \<Rightarrow> u8 list" where
  "mem_enc v = be_bytes 4 (of_nat (length (mem_bytes v)) :: u32) @ mem_bytes v"

definition mem_cost :: "u8 list option \<Rightarrow> nat" where
  "mem_cost v = 4 + 2 * length (mem_bytes v)"

definition pack_block :: "u8 list option \<Rightarrow> slurm_buf \<Rightarrow> slurm_buf option" where
  "pack_block v b = packmem (mem_bytes v) (of_nat (length (mem_bytes v))) b"

definition unpack_block :: "slurm_buf \<Rightarrow> (u8 list option option \<times> slurm_buf) option" where
  "unpack_block b = map_option (\<lambda>(r, b). (map_option fst r, b)) (unpackmem_xmalloc b)"

lemma put_two_wrote:
  assumes ok: "buf_ok b" and room: "length xs + length ys \<le> unat (remaining_buf b)"
  obtains b1 b2 where "put_bytes xs b = Some b1" and "put_bytes ys b1 = Some b2" and "wrote b (xs @ ys) b2"
    and "wrote b xs b1"
proof -
  obtain b1 where b1: "put_bytes xs b = Some b1" "wrote b xs b1" "buf_size b1 = buf_size b"
    using put_bytes_wrote [OF ok, of xs] room by auto
  have ok1: "buf_ok b1" and "unat (buf_processed b1) = unat (buf_processed b) + length xs"
    using b1(2) by (simp_all add: wrote_def)
  then have "length ys \<le> unat (remaining_buf b1)"
    using room unat_remaining [OF ok] unat_remaining [OF ok1] b1(3) by simp
  then obtain b2 where "put_bytes ys b1 = Some b2" "wrote b1 ys b2"
    using put_bytes_wrote [OF ok1] by blast
  with b1 that show thesis by (blast intro: wrote_append)
qed

text \<open>The enlargement in \<^verbatim>\<open>packmem\<close> and \<^verbatim>\<open>packmem_array\<close>, within the budget.\<close>

lemma enlarge_ok:
  assumes ok: "buf_ok b" and full: "unat (remaining_buf b) < k + unat n" and k: "k \<le> 4"
    and fit: "fits b (k + 2 * unat n)"
  shows "buf_size b \<le> buf_size b + (n + BUF_SIZE)" and "buf_size b + (n + BUF_SIZE) \<le> MAX_BUF_SIZE"
    and "k + unat n \<le> unat (remaining_buf (resize (buf_size b + (n + BUF_SIZE)) b))"
proof -
  have sum: "unat (buf_size b) + unat n + 16384 \<le> 4294901760"
    using full fit unat_remaining [OF ok] by (simp add: fits_def)
  then have "unat (n + BUF_SIZE) = unat n + 16384"
    using unat_add_small [of n 16384] by (simp add: BUF_SIZE_def)
  with sum have sz: "unat (buf_size b + (n + BUF_SIZE)) = unat (buf_size b) + unat n + 16384"
    using unat_add_small [of "buf_size b" "unat n + 16384"] by (simp add: unat_word_ariths)
  show le: "buf_size b \<le> buf_size b + (n + BUF_SIZE)" "buf_size b + (n + BUF_SIZE) \<le> MAX_BUF_SIZE"
    using sz sum by (simp_all add: word_le_nat_alt)
  note r = resize_ok [OF ok le]
  show "k + unat n \<le> unat (remaining_buf (resize (buf_size b + (n + BUF_SIZE)) b))"
    using sz k unat_remaining [OF r(1)] r(3,4) buf_ok_le [OF ok] by simp
qed

lemma packmem_wrote:
  assumes ok: "buf_ok b" and n: "length bs \<le> unat MAX_PACK_MEM_LEN" and fit: "fits b (4 + 2 * length bs)"
  obtains b' where "packmem bs (of_nat (length bs)) b = Some b'"
    and "wrote b (be_bytes 4 (of_nat (length bs) :: u32) @ bs) b'"
proof -
  let ?n = "of_nat (length bs) :: u32"
  let ?sz = "buf_size b + (?n + BUF_SIZE)"
  have un: "unat ?n = length bs" using n by (simp add: unat_of_nat)
  have small: "\<not> ?n > MAX_PACK_MEM_LEN" using un n by (simp add: word_less_nat_alt)
  have zero: "?n = 0 \<longleftrightarrow> bs = []" using un by (auto simp: unat_eq_0 [symmetric])
  have "\<exists>b0 b1 b2. packmem bs ?n b = (if bs \<noteq> [] then put_bytes bs b1 else Some b1) \<and>
      put_bytes (be_bytes 4 ?n) b0 = Some b1 \<and> put_bytes bs b1 = Some b2 \<and>
      wrote b (be_bytes 4 ?n @ bs) b2 \<and> wrote b (be_bytes 4 ?n) b1"
  proof (cases "unat (remaining_buf b) < 4 + length bs")
    case True
    then have full: "unat (remaining_buf b) < 4 + unat ?n" and f: "fits b (4 + 2 * unat ?n)"
      using fit un by simp_all
    note e = enlarge_ok [OF ok full _ f]
    obtain b1 b2 where b: "put_bytes (be_bytes 4 ?n) (resize ?sz b) = Some b1" "put_bytes bs b1 = Some b2"
      "wrote (resize ?sz b) (be_bytes 4 ?n @ bs) b2" "wrote (resize ?sz b) (be_bytes 4 ?n) b1"
      using put_two_wrote [OF resize_ok(1) [OF ok e(1,2)], of "be_bytes 4 ?n" bs] e(3) un by auto
    have "\<not> buf_size b + ?n + BUF_SIZE > MAX_BUF_SIZE" using e(2) by (simp add: add.assoc)
    with small True un zero b(1) have "packmem bs ?n b = (if bs \<noteq> [] then put_bytes bs b1 else Some b1)"
      by (simp add: packmem_def del: not_less)
    then show ?thesis
      using b(1,2) wrote_resize [OF ok e(1,2) b(3)] wrote_resize [OF ok e(1,2) b(4)] by blast
  next
    case False
    then obtain b1 b2 where b: "put_bytes (be_bytes 4 ?n) b = Some b1" "put_bytes bs b1 = Some b2"
      "wrote b (be_bytes 4 ?n @ bs) b2" "wrote b (be_bytes 4 ?n) b1"
      using put_two_wrote [OF ok, of "be_bytes 4 ?n" bs] by auto
    then have "packmem bs ?n b = (if bs \<noteq> [] then put_bytes bs b1 else Some b1)"
      using False un small zero by (simp add: packmem_def)
    then show ?thesis using b by blast
  qed
  then show thesis using that by (auto split: if_splits)
qed

lemma memcpy_out_skip [simp]: "memcpy_out off n (skip_bytes b k) = memcpy_out off n b"
  by (simp add: memcpy_out_def skip_bytes_def)

lemma skip_bytes_processed: "buf_processed (skip_bytes b n) = buf_processed b + of_nat n"
  by (simp add: skip_bytes_def)

lemma unpackmem_ptr_holds:
  assumes ok: "buf_ok b" and v: "mem_ok v" and h: "holds b (mem_enc v)"
  shows "unpackmem_ptr b = Some (Some (map_option (\<lambda>bs. buf_processed b + 4) v, of_nat (length (mem_bytes v))),
    skip_bytes b (length (mem_enc v)))"
proof -
  let ?n = "of_nat (length (mem_bytes v)) :: u32"
  have un: "unat ?n = length (mem_bytes v)" using v by (simp add: mem_ok_def unat_of_nat)
  have small: "\<not> ?n > MAX_PACK_MEM_LEN" using un v by (simp add: word_less_nat_alt mem_ok_def)
  have h4: "holds b (be_bytes 4 ?n)" and hr: "holds (skip_bytes b 4) (mem_bytes v)"
    using holds_append [OF ok, of "be_bytes 4 ?n"] h by (simp_all add: mem_enc_def)
  have ok4: "buf_ok (skip_bytes b 4)" using holds_skip(2) [OF ok h4] by simp
  have room: "\<not> remaining_buf (skip_bytes b 4) < ?n"
    using holds_skip(1) [OF ok4 hr] un by (simp add: word_less_nat_alt)
  have u32: "unpack32 b = Some (Some ?n, skip_bytes b 4)" using c32.upk_holds [OF ok _ h4] by simp
  show ?thesis
  proof (cases v)
    case None
    then show ?thesis using u32 by (simp add: unpackmem_ptr_def mem_bytes_def mem_enc_def MAX_PACK_MEM_LEN_def)
  next
    case (Some bs)
    then have "0 < ?n" using v un by (simp add: mem_ok_def mem_bytes_def word_less_nat_alt)
    then show ?thesis using u32 small room Some
      by (simp add: unpackmem_ptr_def mem_enc_def skip_bytes_def mem_bytes_def)
  qed
qed

lemma unpackmem_xmalloc_holds:
  assumes ok: "buf_ok b" and v: "mem_ok v" and h: "holds b (mem_enc v)"
  shows "unpackmem_xmalloc b = Some (Some (v, of_nat (length (mem_bytes v))), skip_bytes b (length (mem_enc v)))"
proof -
  let ?n = "of_nat (length (mem_bytes v)) :: u32"
  have un: "unat ?n = length (mem_bytes v)" using v by (simp add: mem_ok_def unat_of_nat)
  have h4: "holds b (be_bytes 4 ?n)" and hr: "holds (skip_bytes b 4) (mem_bytes v)"
    using holds_append [OF ok, of "be_bytes 4 ?n"] h by (simp_all add: mem_enc_def)
  have ok4: "buf_ok (skip_bytes b 4)" using holds_skip(2) [OF ok h4] by simp
  have "memcpy_out (buf_processed b + 4) (length (mem_bytes v)) (skip_bytes b (length (mem_enc v))) = Some (mem_bytes v)"
    using holds_skip(4) [OF ok4 hr] by (simp add: skip_bytes_processed)
  then show ?thesis
    using unpackmem_ptr_holds [OF assms] un
    by (cases v) (simp_all add: unpackmem_xmalloc_def mem_bytes_def)
qed

interpretation cmem: codec pack_block mem_enc mem_cost mem_ok unpack_block
proof
  show "\<exists>b'. pack_block v b = Some b' \<and> wrote b (mem_enc v) b'" if "buf_ok b" "mem_ok v" "fits b (mem_cost v)" for b v
    using packmem_wrote [OF that(1), of "mem_bytes v"] that(2,3)
    unfolding pack_block_def mem_enc_def mem_ok_def mem_cost_def by blast
  show "unpack_block b = Some (Some v, skip_bytes b (length (mem_enc v)))"
    if "buf_ok b" "mem_ok v" "holds b (mem_enc v)" for b v
    using unpackmem_xmalloc_holds [OF that] by (simp add: unpack_block_def)
qed (simp add: mem_enc_def mem_cost_def)


section \<open>Strings\<close>

text \<open>The bytes of a C string include its terminating zero.\<close>

definition str_mem :: "u8 list option \<Rightarrow> u8 list option" where
  "str_mem v = map_option (\<lambda>s. s @ [0]) v"

lemma packstr_block: "buf_ok b \<Longrightarrow> packstr v b = pack_block (str_mem v) b"
  by (cases v) (simp_all add: packstr_def pack_block_def str_mem_def mem_bytes_def buf_ok_def add.commute)

interpretation pstr: packer packstr "\<lambda>v. mem_enc (str_mem v)" "\<lambda>v. mem_cost (str_mem v)" "\<lambda>v. mem_ok (str_mem v)"
  by unfold_locales (auto simp: packstr_block cmem.enc_cost cmem.pk_wrote)

abbreviation str_enc :: "c_string option \<Rightarrow> u8 list" where
  "str_enc s \<equiv> mem_enc (str_mem s)"

definition c_string_ok :: "c_string option \<Rightarrow> bool" where
  "c_string_ok s \<longleftrightarrow> (case s of None \<Rightarrow> True | Some s \<Rightarrow> 0 \<notin> set s \<and> length s < 2 ^ 30)"

lemma c_string_mem_ok: "c_string_ok s \<Longrightarrow> mem_ok (str_mem s)"
  by (auto simp: c_string_ok_def mem_ok_def str_mem_def mem_bytes_def split: option.splits)

lemma str_field_mem: "c_string_ok s \<Longrightarrow> str_field (str_mem s, n) = s"
  by (auto simp: c_string_ok_def str_mem_def str_field_def takeWhile_append split: option.splits)

lemma unpackstr_holds:
  assumes "buf_ok b" and "c_string_ok s" and "holds b (str_enc s @ rest)"
  shows "safe_unpack (unpackstr_xmalloc_chooser False) b err k =
      k (str_mem s, of_nat (length (mem_bytes (str_mem s)))) (skip_bytes b (length (str_enc s)))"
    and "buf_ok (skip_bytes b (length (str_enc s)))" and "holds (skip_bytes b (length (str_enc s))) rest"
proof -
  have h: "holds b (str_enc s)" using holds_append [OF assms(1)] assms(3) by blast
  show "safe_unpack (unpackstr_xmalloc_chooser False) b err k =
      k (str_mem s, of_nat (length (mem_bytes (str_mem s)))) (skip_bytes b (length (str_enc s)))"
    using unpackmem_xmalloc_holds [OF assms(1) c_string_mem_ok [OF assms(2)] h] assms(1)
    by (simp add: safe_unpack_def unpackstr_xmalloc_chooser_def buf_ok_def)
  show "buf_ok (skip_bytes b (length (str_enc s)))" "holds (skip_bytes b (length (str_enc s))) rest"
    using cmem.safe_unpack_holds(2,3) [OF assms(1) c_string_mem_ok [OF assms(2)] assms(3)] by simp_all
qed

lemma unpackstr_array_block:
  "unpackstr_array b = do {
     (r, b) \<leftarrow> unpack32 b;
     (case r of
        None \<Rightarrow> Some (None, b)
      | Some n \<Rightarrow> if n > MAX_PACK_ARRAY_LEN then Some (None, b) else unpack_loop unpack_block (unat n) b) }"
  unfolding unpackstr_array_def unpack_block_def [abs_def] by (rule refl)

lemma strings_round_trip:
  assumes ok: "buf_ok b" and vs: "\<forall>v \<in> set vs. mem_ok (str_mem v)" and n: "length vs \<le> unat MAX_PACK_ARRAY_LEN"
    and fit: "fits b (4 + sum_list (map (\<lambda>v. mem_cost (str_mem v)) vs))"
  obtains b' where "packstr_array vs (of_nat (length vs)) b = Some b'" and "buf_ok b'"
    and "unpackstr_array (set_buf_offset b' (buf_processed b)) = Some (Some (map str_mem vs), b')"
proof -
  let ?n = "of_nat (length vs) :: u32"
  let ?e = "be_bytes 4 ?n @ concat (map (\<lambda>v. mem_enc (str_mem v)) vs)"
  have un: "unat ?n = length vs" using n by (simp add: unat_of_nat)
  have small: "\<not> ?n > MAX_PACK_ARRAY_LEN" using un n by (simp add: word_less_nat_alt)
  have "fits b 4" using fit by (simp add: fits_def)
  then obtain b1 where b1: "pack32 ?n b = Some b1" "wrote b (be_bytes 4 ?n) b1"
    using c32.pk_wrote [OF ok] by auto
  have "fits b1 (sum_list (map (\<lambda>v. mem_cost (str_mem v)) vs))" using c32.fits_after [OF _ fit b1(2)] by simp
  moreover have "buf_ok b1" using b1(2) by (simp add: wrote_def)
  ultimately obtain b2 where b2: "forM vs packstr b1 = Some b2" "wrote b1 (concat (map (\<lambda>v. mem_enc (str_mem v)) vs)) b2"
    using pstr.pk_list vs by blast
  have w: "wrote b ?e b2" using wrote_append [OF b1(2) b2(2)] .
  have "\<not> (unat (remaining_buf b) < 4 \<and> buf_size b + BUF_SIZE > MAX_BUF_SIZE)"
  proof
    assume full: "unat (remaining_buf b) < 4 \<and> buf_size b + BUF_SIZE > MAX_BUF_SIZE"
    then have "pack32 ?n b = Some b" by (simp add: pack32_def pack_fixed_def)
    with b1 show False by (simp add: wrote_def)
  qed
  then have "packstr_array vs ?n b = Some b2"
    using b1(1) b2(1) un by (auto simp: packstr_array_def pack_loop_def forM_nth)
  moreover have "unpackstr_array (set_buf_offset b2 (buf_processed b)) = Some (Some (map str_mem vs), b2)"
  proof -
    let ?r = "set_buf_offset b2 (buf_processed b)"
    note r = wrote_rewind [OF ok w]
    have h4: "holds ?r (be_bytes 4 ?n)" and hr: "holds (skip_bytes ?r 4) (concat (map mem_enc (map str_mem vs)))"
      using holds_append [OF r(1), of "be_bytes 4 ?n"] r(2) by (simp_all add: comp_def)
    have "buf_ok (skip_bytes ?r 4)" using holds_skip(2) [OF r(1) h4] by simp
    from cmem.upk_list [OF this _ hr] vs
    have "unpack_loop unpack_block (length vs) (skip_bytes ?r 4) =
        Some (Some (map str_mem vs), skip_bytes (skip_bytes ?r 4) (length (concat (map mem_enc (map str_mem vs)))))"
      by simp
    moreover have "skip_bytes (skip_bytes ?r 4) (length (concat (map mem_enc (map str_mem vs)))) = b2"
      using r(3) by (simp add: skip_skip comp_def)
    ultimately show ?thesis
      using c32.upk_holds [OF r(1) _ h4] small un by (simp add: unpackstr_array_block)
  qed
  moreover have "buf_ok b2" using w by (simp add: wrote_def)
  ultimately show thesis using that by blast
qed

text \<open>Blocks of a length both sides know.\<close>

lemma packmem_array_wrote:
  assumes ok: "buf_ok b" and n: "length bs < 2 ^ 32" and fit: "fits b (2 * length bs)"
  obtains b' where "packmem_array bs (of_nat (length bs)) b = Some b'" and "wrote b bs b'"
proof -
  let ?n = "of_nat (length bs) :: u32"
  let ?sz = "buf_size b + (?n + BUF_SIZE)"
  have un: "unat ?n = length bs" using n by (simp add: unat_of_nat)
  show thesis
  proof (cases "remaining_buf b < ?n")
    case True
    then have full: "unat (remaining_buf b) < 0 + unat ?n" and f: "fits b (0 + 2 * unat ?n)"
      using fit un by (simp_all add: word_less_nat_alt)
    note e = enlarge_ok [OF ok full _ f]
    have "length bs \<le> unat (remaining_buf (resize ?sz b))" using e(3) un by simp
    then obtain b' where b': "put_bytes bs (resize ?sz b) = Some b'" "wrote (resize ?sz b) bs b'"
      using put_bytes_wrote [OF resize_ok(1) [OF ok e(1,2)]] by blast
    have "\<not> buf_size b + ?n + BUF_SIZE > MAX_BUF_SIZE" using e(2) by (simp add: add.assoc)
    with True un b' wrote_resize [OF ok e(1,2) b'(2)] show thesis
      by (intro that [of b']) (simp_all add: packmem_array_def del: not_less)
  next
    case False
    then have "length bs \<le> unat (remaining_buf b)" using un by (simp add: word_less_nat_alt)
    then obtain b' where "put_bytes bs b = Some b'" "wrote b bs b'" using put_bytes_wrote [OF ok] by blast
    with False un show thesis by (intro that [of b']) (simp_all add: packmem_array_def)
  qed
qed


section \<open>Arbitrary input\<close>

definition defined_buf :: "slurm_buf \<Rightarrow> bool" where
  "defined_buf b \<longleftrightarrow> None \<notin> set (buf_head b)"

text \<open>\<open>moved b b'\<close>: only the position changed, forwards and inside the buffer.\<close>

definition moved :: "slurm_buf \<Rightarrow> slurm_buf \<Rightarrow> bool" where
  "moved b b' \<longleftrightarrow> buf_ok b' \<and> buf_head b' = buf_head b \<and> buf_size b' = buf_size b \<and>
     unat (buf_processed b) \<le> unat (buf_processed b')"

lemma moved_refl: "buf_ok b \<Longrightarrow> moved b b"
  by (simp add: moved_def)

lemma moved_trans: "moved b b1 \<Longrightarrow> moved b1 b2 \<Longrightarrow> moved b b2"
  by (auto simp: moved_def)

lemma moved_defined: "moved b b' \<Longrightarrow> defined_buf b' = defined_buf b"
  by (simp add: moved_def defined_buf_def)

lemma those_defined: "None \<notin> set xs \<Longrightarrow> \<exists>ys. those xs = Some ys \<and> length ys = length xs"
proof (induction xs)
  case (Cons a xs)
  then show ?case by (cases a) auto
qed simp

lemma memcpy_out_defined:
  assumes "defined_buf b" and "unat off + n \<le> length (buf_head b)"
  shows "\<exists>bs. memcpy_out off n b = Some bs \<and> length bs = n"
proof -
  have "None \<notin> set (take n (drop (unat off) (buf_head b)))"
    using assms(1) by (meson defined_buf_def in_set_dropD in_set_takeD)
  then show ?thesis using those_defined assms(2) by (fastforce simp: memcpy_out_def)
qed

lemma moved_skip:
  assumes ok: "buf_ok b" and n: "n \<le> unat (remaining_buf b)"
  shows "moved b (b\<lparr>buf_processed := buf_processed b + of_nat n\<rparr>)" and "unat (buf_processed b) + n \<le> length (buf_head b)"
proof -
  have le: "unat (buf_processed b) + n \<le> unat (buf_size b)"
    using n unat_remaining [OF ok] buf_ok_le(1) [OF ok] by simp
  then have u: "unat (buf_processed b + of_nat n) = unat (buf_processed b) + n"
    using buf_ok_le(2) [OF ok] by (intro unat_add_small) simp
  show "unat (buf_processed b) + n \<le> length (buf_head b)" using le ok by (simp add: buf_ok_def)
  show "moved b (b\<lparr>buf_processed := buf_processed b + of_nat n\<rparr>)"
    using ok le u by (simp add: moved_def buf_ok_def word_le_nat_alt)
qed

locale safe_unpacker =
  fixes upk :: "slurm_buf \<Rightarrow> ('v option \<times> slurm_buf) option"
  assumes safe: "buf_ok b \<Longrightarrow> defined_buf b \<Longrightarrow> \<exists>r b'. upk b = Some (r, b') \<and> moved b b'"
begin

lemma loop_safe:
  "buf_ok b \<Longrightarrow> defined_buf b \<Longrightarrow> \<exists>r b'. unpack_loop upk n b = Some (r, b') \<and> moved b b'"
proof (induction n arbitrary: b)
  case 0
  then show ?case by (simp add: moved_refl)
next
  case (Suc n)
  obtain r b1 where b1: "upk b = Some (r, b1)" "moved b b1" using safe [OF Suc.prems] by blast
  then obtain rs b2 where "unpack_loop upk n b1 = Some (rs, b2)" "moved b1 b2"
    using Suc.IH [of b1] moved_defined [OF b1(2)] Suc.prems by (auto simp: moved_def)
  with b1 show ?case by (cases r) (auto intro: moved_trans)
qed

end

lemma fixed_safe: "safe_unpacker (unpack_fixed n :: slurm_buf \<Rightarrow> ('a::len word option \<times> slurm_buf) option)"
proof
  fix b assume ok: "buf_ok b" and d: "defined_buf b"
  show "\<exists>r b'. (unpack_fixed n b :: ('a word option \<times> slurm_buf) option) = Some (r, b') \<and> moved b b'"
  proof (cases "unat (remaining_buf b) < n")
    case False
    then have n: "n \<le> unat (remaining_buf b)" by simp
    with False moved_skip [OF ok n] memcpy_out_defined [OF d] show ?thesis
      by (fastforce simp: unpack_fixed_def)
  qed (use ok in \<open>simp add: unpack_fixed_def moved_refl\<close>)
qed

interpretation s32: safe_unpacker unpack32
  unfolding unpack32_def [abs_def] by (rule fixed_safe)

context safe_unpacker
begin

lemma array_safe: "safe_unpacker (unpack_array upk)"
proof
  fix b assume b: "buf_ok b" "defined_buf b"
  obtain r b1 where b1: "unpack32 b = Some (r, b1)" "moved b b1" using s32.safe [OF b] by blast
  then have "buf_ok b1" "defined_buf b1" using b moved_defined by (auto simp: moved_def)
  with b1 loop_safe show "\<exists>r b'. unpack_array upk b = Some (r, b') \<and> moved b b'"
    by (cases r) (auto simp: unpack_array_def intro: moved_trans dest!: loop_safe)
qed

end

interpretation s64: safe_unpacker unpack64
  unfolding unpack64_def [abs_def] by (rule fixed_safe)

interpretation stime: safe_unpacker unpack_time
  unfolding unpack_time_def [abs_def] by (rule fixed_safe)

interpretation s16: safe_unpacker unpack16
  unfolding unpack16_def [abs_def] by (rule fixed_safe)

interpretation s8: safe_unpacker unpack8
  unfolding unpack8_def [abs_def] by (rule fixed_safe)

interpretation sa16: safe_unpacker unpack16_array
  unfolding unpack16_array_def by (rule s16.array_safe)

interpretation sa32: safe_unpacker unpack32_array
  unfolding unpack32_array_def by (rule s32.array_safe)

interpretation sa64: safe_unpacker unpack64_array
  unfolding unpack64_array_def by (rule s64.array_safe)

interpretation smem: safe_unpacker unpackmem_xmalloc
proof
  fix b assume b: "buf_ok b" "defined_buf b"
  obtain r b1 where b1: "unpack32 b = Some (r, b1)" "moved b b1" using s32.safe [OF b] by blast
  then have ok: "buf_ok b1" and d: "defined_buf b1" using b moved_defined by (auto simp: moved_def)
  show "\<exists>r b'. unpackmem_xmalloc b = Some (r, b') \<and> moved b b'"
  proof (cases "\<exists>n. r = Some n \<and> \<not> n > MAX_PACK_MEM_LEN \<and> n > 0 \<and> \<not> remaining_buf b1 < n")
    case True
    then obtain n where n: "r = Some n" "\<not> n > MAX_PACK_MEM_LEN" "n > 0" "\<not> remaining_buf b1 < n" by blast
    then have le: "unat n \<le> unat (remaining_buf b1)" by (simp add: word_less_nat_alt)
    let ?b = "b1\<lparr>buf_processed := buf_processed b1 + n\<rparr>"
    have m: "moved b1 ?b" and room: "unat (buf_processed b1) + unat n \<le> length (buf_head b1)"
      using moved_skip [OF ok le] by simp_all
    have "defined_buf ?b" using d by (simp add: defined_buf_def)
    then obtain bs where "memcpy_out (buf_processed b1) (unat n) ?b = Some bs"
      using memcpy_out_defined [of ?b] room by auto
    with n b1 m show ?thesis
      by (auto simp: unpackmem_xmalloc_def unpackmem_ptr_def intro: moved_trans)
  next
    case False
    with b1 show ?thesis
      by (cases r) (auto simp: unpackmem_xmalloc_def unpackmem_ptr_def word_greater_zero_iff)
  qed
qed

interpretation sblock: safe_unpacker unpack_block
proof
  show "\<exists>r b'. unpack_block b = Some (r, b') \<and> moved b b'" if "buf_ok b" "defined_buf b" for b
    using smem.safe [OF that] by (auto simp: unpack_block_def)
qed

interpretation sstrings: safe_unpacker unpackstr_array
proof
  fix b assume b: "buf_ok b" "defined_buf b"
  obtain r b1 where b1: "unpack32 b = Some (r, b1)" "moved b b1" using s32.safe [OF b] by blast
  then have ok: "buf_ok b1" and d: "defined_buf b1" using b moved_defined by (auto simp: moved_def)
  have loop: "\<exists>r b'. unpack_loop unpack_block (unat n) b1 = Some (r, b') \<and> moved b b'" for n :: u32
    using sblock.loop_safe [OF ok d, of "unat n"] moved_trans [OF b1(2)] by blast
  show "\<exists>r b'. unpackstr_array b = Some (r, b') \<and> moved b b'"
    using b1 loop by (cases r) (auto simp: unpackstr_array_block)
qed

interpretation sescaped: safe_unpacker unpackstr_xmalloc_escaped
proof
  show "\<exists>r b'. unpackstr_xmalloc_escaped b = Some (r, b') \<and> moved b b'" if "buf_ok b" "defined_buf b" for b
    using smem.safe [OF that] by (auto simp: unpackstr_xmalloc_escaped_def)
qed


lemma safe_unpack_short:
  assumes "buf_ok b" and "unat (remaining_buf b) < n"
  shows "safe_unpack (unpack_fixed n) b err k = err b"
  using assms by (simp add: safe_unpack_def unpack_fixed_def buf_ok_def)


section \<open>Properties of the wire format\<close>

text \<open>A fresh buffer of the default size.\<close>

definition sample_buf :: slurm_buf where
  "sample_buf = \<lparr>buf_magic = BUF_MAGIC, buf_head = replicate (unat BUF_SIZE) (Some 0), buf_size = BUF_SIZE,
     buf_processed = 0\<rparr>"

lemma sample_buf_ok: "buf_ok sample_buf" "defined_buf sample_buf" "buf_processed sample_buf = 0"
  "init_buf 0 = Some sample_buf"
  by (simp_all add: buf_ok_def sample_buf_def defined_buf_def init_buf_def word_le_nat_alt word_less_nat_alt)

text \<open>
  An integer of each width packed into a buffer below the size limit is read back as it was,
  and the buffer holds its earlier contents followed by the big-endian bytes.
\<close>

theorem pack_integers_round_trip:
  assumes "buf_ok b" and "fits b 8"
  shows "(\<exists>b'. pack64 v64 b = Some b' \<and> wrote b (be_bytes 8 v64) b' \<and>
            unpack64 (set_buf_offset b' (buf_processed b)) = Some (Some v64, b')) \<and>
         (\<exists>b'. pack_time v64 b = Some b' \<and> wrote b (be_bytes 8 v64) b' \<and>
            unpack_time (set_buf_offset b' (buf_processed b)) = Some (Some v64, b')) \<and>
         (\<exists>b'. pack32 v32 b = Some b' \<and> wrote b (be_bytes 4 v32) b' \<and>
            unpack32 (set_buf_offset b' (buf_processed b)) = Some (Some v32, b')) \<and>
         (\<exists>b'. pack16 v16 b = Some b' \<and> wrote b (be_bytes 2 v16) b' \<and>
            unpack16 (set_buf_offset b' (buf_processed b)) = Some (Some v16, b')) \<and>
         (\<exists>b'. pack8 v8 b = Some b' \<and> wrote b (be_bytes 1 v8) b' \<and>
            unpack8 (set_buf_offset b' (buf_processed b)) = Some (Some v8, b'))"
proof -
  have fit: "fits b 4" "fits b 2" "fits b 1" using assms(2) by (simp_all add: fits_def)
  show ?thesis
    using c64.round_trip [OF assms(1) _ assms(2), of v64] ctime.round_trip [OF assms(1) _ assms(2), of v64]
      c32.round_trip [OF assms(1) _ fit(1), of v32] c16.round_trip [OF assms(1) _ fit(2), of v16]
      c8.round_trip [OF assms(1) _ fit(3), of v8] by simp
qed

theorem pack_integers_round_trip_witness:
  "\<exists>b'. pack32 0x01020304 sample_buf = Some b' \<and> wrote sample_buf [1, 2, 3, 4] b' \<and>
     unpack32 (set_buf_offset b' 0) = Some (Some 0x01020304, b')"
proof -
  have "be_bytes (Suc (Suc (Suc (Suc 0)))) (0x01020304 :: u32) = [1, 2, 3, 4]" by simp
  moreover have "Suc (Suc (Suc (Suc 0))) = 4" by simp
  ultimately have "be_bytes 4 (0x01020304 :: u32) = [1, 2, 3, 4]" by (simp only:)
  then show ?thesis
    using pack_integers_round_trip [OF sample_buf_ok(1), of 0 "0x01020304" 0 0] sample_buf_ok(3)
    by (simp add: fits_def)
qed

text \<open>
  C20: Arrays of 16-, 32- and 64-bit integers are read back as they were packed, and so are
  64-bit values in 32 bits as long as they fit.
\<close>

theorem pack_arrays_round_trip:
  assumes "buf_ok b" and "fits b (4 + 8 * length vs)" and "length vs < 2 ^ 32"
    and "length ws = length vs" and "length us = length vs"
  shows "(\<exists>b'. pack16_array us (of_nat (length us)) b = Some b' \<and>
            unpack16_array (set_buf_offset b' (buf_processed b)) = Some (Some us, b')) \<and>
         (\<exists>b'. pack32_array ws (of_nat (length ws)) b = Some b' \<and>
            unpack32_array (set_buf_offset b' (buf_processed b)) = Some (Some ws, b')) \<and>
         (\<exists>b'. pack64_array vs (of_nat (length vs)) b = Some b' \<and>
            unpack64_array (set_buf_offset b' (buf_processed b)) = Some (Some vs, b')) \<and>
         ((\<forall>v \<in> set vs. v < 2 ^ 32) \<longrightarrow>
          (\<exists>b'. pack64_array_as_32 vs (of_nat (length vs)) b = Some b' \<and>
            unpack64_array_from_32 (set_buf_offset b' (buf_processed b)) = Some (Some vs, b')))"
proof -
  have sums: "sum_list (map (\<lambda>v. c) xs) = c * length xs" for c :: nat and xs :: "'x list"
    by (induction xs) auto
  have costs: "arr_cost (\<lambda>v. 2) us \<le> 4 + 8 * length vs" "arr_cost (\<lambda>v. 4) ws \<le> 4 + 8 * length vs"
    "arr_cost (\<lambda>v. 8) vs \<le> 4 + 8 * length vs" "arr_cost (\<lambda>v. 4) vs \<le> 4 + 8 * length vs"
    using assms(4,5) by (simp_all add: arr_cost_def sums)
  have fit: "fits b c" if "c \<le> 4 + 8 * length vs" for c using that assms(2) by (simp add: fits_def)
  have oks: "arr_ok (\<lambda>v. True) us" "arr_ok (\<lambda>v. True) ws" "arr_ok (\<lambda>v. True) vs"
    using assms(3-5) by (simp_all add: arr_ok_def)
  have "ucast (ucast v :: u32) = v" if "v < 2 ^ 32" for v :: u64
  proof -
    have "unat v < 2 ^ 32" using that by (simp add: word_less_nat_alt)
    then show ?thesis
      by (simp add: word_unat_eq_iff unsigned_ucast_eq unsigned_take_bit_eq take_bit_nat_eq_self)
  qed
  then have ok32: "arr_ok (\<lambda>v :: u64. True \<and> ucast (ucast v :: u32) = v) vs" if "\<forall>v \<in> set vs. v < 2 ^ 32"
    using that assms(3) by (simp add: arr_ok_def)
  show ?thesis
    using a16.round_trip [OF assms(1) oks(1) fit [OF costs(1)]] a32.round_trip [OF assms(1) oks(2) fit [OF costs(2)]]
      a64.round_trip [OF assms(1) oks(3) fit [OF costs(3)]] a64_as_32.round_trip [OF assms(1) ok32 fit [OF costs(4)]]
    by blast
qed

theorem pack_arrays_round_trip_witness:
  "\<exists>b'. pack16_array [7, 8] 2 sample_buf = Some b' \<and>
     unpack16_array (set_buf_offset b' 0) = Some (Some [7, 8], b')"
  using pack_arrays_round_trip [OF sample_buf_ok(1), of "[1, 2]" "[3, 4]" "[7, 8]"] sample_buf_ok(3)
  by (simp add: fits_def)

text \<open>
  C21: Memory blocks, strings and arrays of strings are read back as they were packed, the
  strings with their terminating zero; NULL is read back as NULL.
\<close>

theorem pack_strings_round_trip:
  assumes "buf_ok b" and "\<forall>v \<in> set vs. mem_ok (str_mem v)" and "length vs \<le> unat MAX_PACK_ARRAY_LEN"
    and "fits b (4 + sum_list (map (\<lambda>v. mem_cost (str_mem v)) vs))"
  shows "(\<exists>b'. packstr_array vs (of_nat (length vs)) b = Some b' \<and>
            unpackstr_array (set_buf_offset b' (buf_processed b)) = Some (Some (map str_mem vs), b')) \<and>
         (\<forall>v \<in> set vs. \<exists>b'. packstr v b = Some b' \<and>
            unpackmem_xmalloc (set_buf_offset b' (buf_processed b)) =
              Some (Some (str_mem v, of_nat (length (mem_bytes (str_mem v)))), b'))"
proof (intro conjI ballI)
  show "\<exists>b'. packstr_array vs (of_nat (length vs)) b = Some b' \<and>
      unpackstr_array (set_buf_offset b' (buf_processed b)) = Some (Some (map str_mem vs), b')"
    using strings_round_trip [OF assms] by metis
  fix v assume v: "v \<in> set vs"
  then have "mem_cost (str_mem v) \<le> sum_list (map (\<lambda>v. mem_cost (str_mem v)) vs)"
    by (simp add: member_le_sum_list)
  then have "fits b (mem_cost (str_mem v))" using assms(4) by (simp add: fits_def)
  then obtain b' where b': "packstr v b = Some b'" "wrote b (mem_enc (str_mem v)) b'"
    using pstr.pk_wrote [OF assms(1)] assms(2) v by blast
  note r = wrote_rewind [OF assms(1) b'(2)]
  show "\<exists>b'. packstr v b = Some b' \<and> unpackmem_xmalloc (set_buf_offset b' (buf_processed b)) =
      Some (Some (str_mem v, of_nat (length (mem_bytes (str_mem v)))), b')"
    using b'(1) unpackmem_xmalloc_holds [OF r(1) _ r(2)] r(3) assms(2) v by auto
qed

theorem pack_strings_round_trip_witness:
  "\<exists>b'. packstr_array [Some [110, 49], None] 2 sample_buf = Some b' \<and>
     unpackstr_array (set_buf_offset b' 0) = Some (Some [Some [110, 49, 0], None], b')"
proof -
  let ?vs = "[Some [110, 49], None] :: u8 list option list"
  have ok: "\<forall>v \<in> set ?vs. mem_ok (str_mem v)" and n: "length ?vs \<le> unat MAX_PACK_ARRAY_LEN"
    and fit: "fits sample_buf (4 + sum_list (map (\<lambda>v. mem_cost (str_mem v)) ?vs))"
    using sample_buf_ok(3) by (simp_all add: mem_ok_def str_mem_def mem_bytes_def mem_cost_def fits_def)
  show ?thesis
    using pack_strings_round_trip [OF sample_buf_ok(1) ok n fit] sample_buf_ok(3) by (auto simp: str_mem_def)
qed



text \<open>
  Packing an integer into any valid buffer, full or not, never leaves the buffer and keeps
  it valid; at the size limit the value is dropped and the buffer is unchanged.
\<close>

theorem pack_fixed_safe:
  assumes "buf_ok b" and "length bs \<le> 8"
  shows "\<exists>b'. pack_fixed bs b = Some b' \<and> buf_ok b' \<and>
    (if unat (remaining_buf b) < length bs \<and> unat (buf_size b) + 16384 > 4294901760 then b' = b else wrote b bs b')"
proof (cases "unat (remaining_buf b) < length bs")
  case True
  have sz: "unat (buf_size b + BUF_SIZE) = unat (buf_size b) + 16384"
    using buf_ok_le(2) [OF assms(1)] unat_add_small [of "buf_size b" 16384] by (simp add: BUF_SIZE_def)
  show ?thesis
  proof (cases "unat (buf_size b) + 16384 > 4294901760")
    case limit: True
    then show ?thesis using True sz assms(1) by (simp add: pack_fixed_def word_less_nat_alt)
  next
    case False
    then have "buf_size b \<le> buf_size b + BUF_SIZE" "buf_size b + BUF_SIZE \<le> MAX_BUF_SIZE"
      using sz by (simp_all add: word_le_nat_alt)
    note r = resize_ok [OF assms(1) this] and w = wrote_resize [OF assms(1) this]
    have "length bs \<le> unat (remaining_buf (resize (buf_size b + BUF_SIZE) b))"
      using sz assms(2) unat_remaining [OF r(1)] r(3,4) buf_ok_le(1) [OF assms(1)] by simp
    then obtain b' where "put_bytes bs (resize (buf_size b + BUF_SIZE) b) = Some b'" "wrote b bs b'"
      using put_bytes_wrote [OF r(1)] w by blast
    with True False sz show ?thesis by (auto simp: pack_fixed_def word_less_nat_alt wrote_def)
  qed
next
  case False
  then obtain b' where "put_bytes bs b = Some b'" "wrote b bs b'"
    using put_bytes_wrote [OF assms(1)] by (metis not_less)
  with False show ?thesis by (auto simp: pack_fixed_def wrote_def)
qed

theorem pack_fixed_safe_witness:
  "\<exists>b'. pack_fixed [1, 2] sample_buf = Some b' \<and> buf_ok b'"
  using pack_fixed_safe [OF sample_buf_ok(1), of "[1, 2]"] by auto

text \<open>
  C32: The size check of \<^verbatim>\<open>packmem\<close> is a 32-bit sum that can wrap around: on a full buffer
  whose size and the block together exceed 32 bits, the check passes, the buffer is
  reallocated to a smaller size, and the copy writes outside it.
\<close>

theorem packmem_size_wraps:
  assumes "buf_ok b" and "buf_processed b = buf_size b" and "n \<le> MAX_PACK_MEM_LEN"
    and "2 ^ 32 \<le> unat (buf_size b) + unat n + 16384" and "length valp = unat n"
  shows "packmem valp n b = None"
proof -
  have u: "unat (n + BUF_SIZE) = unat n + 16384"
    using assms(3) unat_add_small [of n 16384] by (simp add: BUF_SIZE_def word_le_nat_alt)
  have bound: "unat (buf_size b) + unat n + 16384 < 2 * 2 ^ 32"
    using assms(3) buf_ok_le(2) [OF assms(1)] by (simp add: word_le_nat_alt)
  have "unat (buf_size b + (n + BUF_SIZE)) = (unat (buf_size b) + (unat n + 16384)) mod 2 ^ 32"
    by (simp only: unat_word_ariths(1) [of "buf_size b"] u len_num1 len_bit0 len_bit1) simp
  also have "\<dots> = unat (buf_size b) + unat n + 16384 - 2 ^ 32"
    using assms(4) bound by (subst le_mod_geq) simp_all
  finally have sz: "unat (buf_size b + (n + BUF_SIZE)) = unat (buf_size b) + unat n + 16384 - 2 ^ 32" .
  have n: "unat n \<le> 1073741824" using assms(3) by (simp add: word_le_nat_alt)
  have small: "unat (buf_size b + (n + BUF_SIZE)) < unat (buf_size b)"
    using sz n assms(4) by simp
  have "\<not> buf_size b + n + BUF_SIZE > MAX_BUF_SIZE"
    using sz bound buf_ok_le(2) [OF assms(1)] n by (simp add: word_less_nat_alt add.assoc)
  moreover have "unat (remaining_buf b) = 0" using assms(1,2) by (simp add: unat_remaining)
  moreover have "put_bytes (be_bytes 4 n) (resize (buf_size b + (n + BUF_SIZE)) b) = None"
    using small assms(1,2) by (simp add: put_bytes_def memcpy_in_def resize_def buf_ok_def Let_def)
  ultimately show ?thesis using assms(3) by (simp add: packmem_def del: not_less)
qed

theorem packmem_size_wraps_witness:
  "packmem (replicate 0x20000000 0) 0x20000000 \<lparr>buf_magic = BUF_MAGIC, buf_head = replicate 0xf0000000 None,
     buf_size = 0xf0000000, buf_processed = 0xf0000000\<rparr> = None"
  by (rule packmem_size_wraps) (simp_all add: buf_ok_def word_le_nat_alt)

text \<open>Undoing the escapes.\<close>

fun unescape :: "u8 list \<Rightarrow> u8 list" where
  "unescape [] = []"
| "unescape [c] = [c]"
| "unescape (c # d # cs) = (if c = 92 then d # unescape cs else c # unescape (d # cs))"

lemma unescape_Cons: "c \<noteq> 92 \<Longrightarrow> unescape (c # cs) = c # unescape cs"
  by (cases cs) auto

lemma unescape_escape: "unescape (escape cs) = takeWhile (\<lambda>c. c \<noteq> 0) cs"
  by (induction cs) (auto simp: unescape_Cons)

lemma length_escape: "length (escape cs) = length (takeWhile (\<lambda>c. c \<noteq> 0) cs) + escapes cs"
  by (induction cs) (auto simp: escapes_def)

text \<open>Every quote is preceded by a backslash, when pairs are read from the left.\<close>

fun quotes_escaped :: "u8 list \<Rightarrow> bool" where
  "quotes_escaped [] = True"
| "quotes_escaped [c] = (c \<noteq> 39 \<and> c \<noteq> 92)"
| "quotes_escaped (c # d # cs) =
     (if c = 92 then quotes_escaped cs else c \<noteq> 39 \<and> quotes_escaped (d # cs))"

lemma quotes_escaped_Cons: "c \<noteq> 92 \<Longrightarrow> c \<noteq> 39 \<Longrightarrow> quotes_escaped (c # cs) = quotes_escaped cs"
  by (cases cs) auto

lemma quotes_escaped_escape: "quotes_escaped (escape cs)"
  by (induction cs) (auto simp: quotes_escaped_Cons)

text \<open>
  A string unpacked for the database has every quote and backslash escaped, loses nothing
  but the escapes, and its reported size is the length of the escaped string with its
  terminating zero.
\<close>

theorem unpackstr_escaped_safe:
  assumes "buf_ok b" and "0 \<notin> set s" and "length s < unat MAX_PACK_MEM_LEN" and "holds b (mem_enc (Some (s @ [0])))"
  shows "\<exists>v b'. unpackstr_xmalloc_escaped b = Some (Some (Some (v @ [0]), of_nat (length (v @ [0]))), b') \<and>
    quotes_escaped v \<and> unescape v = s"
proof -
  have ok: "mem_ok (Some (s @ [0]))" using assms(3) by (simp add: mem_ok_def mem_bytes_def)
  have tw: "takeWhile (\<lambda>c. c \<noteq> 0) (s @ [0]) = s" using assms(2) by (induction s) auto
  have len: "length (escape (s @ [0])) = length s + escapes (s @ [0])" by (simp add: length_escape tw)
  show ?thesis
    using unpackmem_xmalloc_holds [OF assms(1) ok assms(4)] quotes_escaped_escape [of "s @ [0]"]
      unescape_escape [of "s @ [0]"] tw len
    by (auto simp: unpackstr_xmalloc_escaped_def mem_bytes_def add.commute intro!: exI [of _ "escape (s @ [0])"])
qed

theorem unpackstr_escaped_safe_witness:
  "\<exists>v b'. unpackstr_xmalloc_escaped \<lparr>buf_magic = BUF_MAGIC,
      buf_head = [Some 0, Some 0, Some 0, Some 3, Some 97, Some 39, Some 0], buf_size = 7, buf_processed = 0\<rparr> =
    Some (Some (Some (v @ [0]), of_nat (length (v @ [0]))), b') \<and> quotes_escaped v \<and> unescape v = [97, 39]"
proof -
  have "be_bytes (Suc (Suc (Suc (Suc 0)))) (3 :: u32) = [0, 0, 0, 3]" by simp
  moreover have "Suc (Suc (Suc (Suc 0))) = 4" by simp
  ultimately have "be_bytes 4 (3 :: u32) = [0, 0, 0, 3]" by (simp only:)
  then show ?thesis
    by (intro unpackstr_escaped_safe)
       (simp_all add: buf_ok_def holds_def mem_enc_def mem_bytes_def word_le_nat_alt)
qed

end
