(* ===== verification/Run_Length.thy ===== *)
theory Run_Length
  imports Prelude
begin

text \<open>
  Run-length encoded arrays: the pairs of arrays \<^verbatim>\<open>cpus_per_node\<close>, \<^verbatim>\<open>cpu_count_reps\<close> and the like,
  that several components walk with an index into the arrays and a counter within the run.
\<close>

definition expand :: "'v list \<Rightarrow> u32 list \<Rightarrow> 'v list" where
  "expand vs rs = concat (map2 (\<lambda>v r. replicate (unat r) v) vs rs)"

definition rle_next :: "u32 \<Rightarrow> nat \<times> nat \<Rightarrow> nat \<times> nat" where
  "rle_next r = (\<lambda>(inx, cnt). if Suc cnt \<ge> unat r then (Suc inx, 0) else (inx, Suc cnt))"

text \<open>What is left of the expansion at a position of the walk.\<close>

definition rle_rest :: "'v list \<Rightarrow> u32 list \<Rightarrow> nat \<times> nat \<Rightarrow> 'v list" where
  "rle_rest vs rs = (\<lambda>(inx, cnt). drop cnt (expand (drop inx vs) (drop inx rs)))"

definition rle_ok :: "'v list \<Rightarrow> u32 list \<Rightarrow> nat \<times> nat \<Rightarrow> bool" where
  "rle_ok vs rs = (\<lambda>(inx, cnt). length vs = length rs \<and> (\<forall>r \<in> set rs. 0 < unat r) \<and>
     (inx < length rs \<longrightarrow> cnt < unat (rs ! inx)) \<and> (inx \<ge> length rs \<longrightarrow> cnt = 0))"

lemma expand_Nil [simp]: "expand [] rs = []"
  by (simp add: expand_def)

lemma expand_Cons [simp]: "expand (v # vs) (r # rs) = replicate (unat r) v @ expand vs rs"
  by (simp add: expand_def)

lemma rle_start: "length vs = length rs \<Longrightarrow> \<forall>r \<in> set rs. 0 < unat r \<Longrightarrow> rle_ok vs rs (0, 0)"
  by (cases rs) (auto simp: rle_ok_def)

lemma rle_rest_start [simp]: "rle_rest vs rs (0, 0) = expand vs rs"
  by (simp add: rle_rest_def)

lemma rle_step:
  assumes "rle_ok vs rs (inx, cnt)" and "rle_rest vs rs (inx, cnt) = x # xs"
  shows "inx < length vs" and "inx < length rs" and "vs ! inx = x"
    and "rle_ok vs rs (rle_next (rs ! inx) (inx, cnt))"
    and "rle_rest vs rs (rle_next (rs ! inx) (inx, cnt)) = xs"
proof -
  have len: "length vs = length rs" and pos: "\<forall>r \<in> set rs. 0 < unat r" using assms(1) by (auto simp: rle_ok_def)
  show inx: "inx < length rs"
    using assms len by (cases "inx < length rs") (auto simp: rle_rest_def)
  then show "inx < length vs" using len by simp
  have cnt: "cnt < unat (rs ! inx)" using assms(1) inx by (simp add: rle_ok_def)
  have "expand (drop inx vs) (drop inx rs) =
      replicate (unat (rs ! inx)) (vs ! inx) @ expand (drop (Suc inx) vs) (drop (Suc inx) rs)"
    using inx len by (simp add: Cons_nth_drop_Suc [symmetric])
  then have rest: "rle_rest vs rs (inx, cnt) =
      replicate (unat (rs ! inx) - cnt) (vs ! inx) @ expand (drop (Suc inx) vs) (drop (Suc inx) rs)"
    using cnt by (simp add: rle_rest_def)
  obtain d where d: "unat (rs ! inx) - cnt = Suc d" using cnt by (cases "unat (rs ! inx) - cnt") auto
  then have x: "vs ! inx = x" "xs = replicate d x @ expand (drop (Suc inx) vs) (drop (Suc inx) rs)"
    using rest assms(2) by auto
  then show "vs ! inx = x" by simp
  show "rle_ok vs rs (rle_next (rs ! inx) (inx, cnt))"
    using len pos cnt inx by (auto simp: rle_ok_def rle_next_def)
  show "rle_rest vs rs (rle_next (rs ! inx) (inx, cnt)) = xs"
  proof (cases "Suc cnt \<ge> unat (rs ! inx)")
    case True
    then have "d = 0" using d by simp
    then show ?thesis using True x(2) by (simp add: rle_next_def rle_rest_def)
  next
    case False
    then have "unat (rs ! inx) - Suc cnt = d" using d by simp
    then show ?thesis
      using False x inx len by (simp add: rle_next_def rle_rest_def Cons_nth_drop_Suc [symmetric])
  qed
qed

lemma length_expand: "length vs = length rs \<Longrightarrow> length (expand vs rs) = sum_list (map unat rs)"
  by (induction vs rs rule: list_induct2) auto


section \<open>Encoding\<close>

text \<open>
  The first \<open>k\<close> entries of the arrays are the runs of a list, none of them empty and as few as
  possible; the repetition counts after them are zero.
\<close>

definition encodes :: "nat \<Rightarrow> 'v list \<Rightarrow> u32 list \<Rightarrow> 'v list \<Rightarrow> bool" where
  "encodes k vs rs xs \<longleftrightarrow> length vs = length rs \<and> k \<le> length rs \<and> (\<forall>r \<in> set (take k rs). 0 < unat r) \<and>
     (\<forall>i. k \<le> i \<and> i < length rs \<longrightarrow> rs ! i = 0) \<and> (\<forall>i. Suc i < k \<longrightarrow> vs ! i \<noteq> vs ! Suc i) \<and>
     expand (take k vs) (take k rs) = xs"

lemma expand_append:
  "length vs = length rs \<Longrightarrow> expand (vs @ vs') (rs @ rs') = expand vs rs @ expand vs' rs'"
  by (simp add: expand_def)

lemma expand_zeros: "expand vs (replicate n 0) = []"
  by (induction vs arbitrary: n) (auto simp: expand_def split: nat.splits simp: set_zip)

lemma encodes_expand:
  assumes "encodes k vs rs xs"
  shows "expand vs rs = xs"
proof -
  have z: "drop k rs = replicate (length rs - k) 0" using assms by (intro nth_equalityI) (auto simp: encodes_def)
  have "expand vs rs = expand (take k vs @ drop k vs) (take k rs @ drop k rs)" by simp
  also have "\<dots> = expand (take k vs) (take k rs) @ expand (drop k vs) (drop k rs)"
    using assms by (intro expand_append) (simp add: encodes_def)
  finally show ?thesis using assms unfolding z by (simp add: encodes_def expand_zeros)
qed

lemma encodes_length:
  assumes "encodes k vs rs xs"
  shows "sum_list (map unat (take k rs)) = length xs" and "k \<le> length xs"
proof -
  have a: "length (take k vs) = length (take k rs)" "expand (take k vs) (take k rs) = xs" using assms by (auto simp: encodes_def)
  from length_expand [OF a(1)] show s: "sum_list (map unat (take k rs)) = length xs" using a(2) by simp
  have "length rs' \<le> sum_list (map unat rs')" if "\<forall>r \<in> set rs'. 0 < unat r" for rs' :: "u32 list"
    using that by (induction rs') auto
  from this [of "take k rs"] show "k \<le> length xs" using assms s by (simp add: encodes_def)
qed

lemma encodes_Nil: "length vs = n \<Longrightarrow> encodes 0 vs (replicate n 0) []"
  by (simp add: encodes_def)

lemma encodes_new:
  assumes "encodes k vs rs xs" and "k < length rs" and "k = 0 \<or> vs ! (k - 1) \<noteq> x"
  shows "encodes (Suc k) (vs[k := x]) (rs[k := 1]) (xs @ [x])"
proof -
  have l: "length vs = length rs" using assms by (simp add: encodes_def)
  have "take (Suc k) (rs[k := 1]) = take k rs @ [1]" "take (Suc k) (vs[k := x]) = take k vs @ [x]"
    using assms(2) l by (auto simp: take_Suc_conv_app_nth)
  moreover have "\<forall>i. Suc i < Suc k \<longrightarrow> vs[k := x] ! i \<noteq> vs[k := x] ! Suc i"
    using assms l by (auto simp: encodes_def nth_list_update)
  ultimately show ?thesis using assms l by (auto simp: encodes_def expand_append)
qed

lemma encodes_same:
  assumes "encodes k vs rs xs" and "0 < k" and "vs ! (k - 1) = x" and "length xs < 2 ^ 32 - 1"
  shows "encodes k vs (rs[k - 1 := rs ! (k - 1) + 1]) (xs @ [x])"
proof -
  obtain j where j: "k = Suc j" using assms(2) by (cases k) auto
  have l: "length vs = length rs" "j < length rs" "j < length vs" using assms(1) j by (auto simp: encodes_def)
  let ?r = "rs ! j"
  have tk: "take k rs = take j rs @ [?r]" "take k vs = take j vs @ [x]"
    using l j assms(3) by (auto simp: take_Suc_conv_app_nth)
  have "unat ?r \<le> length xs" using encodes_length(1) [OF assms(1)] unfolding tk by simp
  then have r: "unat (?r + 1) = Suc (unat ?r)" using assms(4) by (simp add: unat_word_ariths)
  have "take k (rs[j := ?r + 1]) = take j rs @ [?r + 1]" using l(2) j by (simp add: take_Suc_conv_app_nth)
  moreover have "expand (take j vs @ [x]) (take j rs @ [?r + 1]) = expand (take j vs @ [x]) (take j rs @ [?r]) @ [x]"
    using l r by (simp add: expand_append replicate_append_same)
  moreover have "\<forall>r \<in> set (take j rs @ [?r + 1]). 0 < unat r" using assms(1) r unfolding encodes_def tk by auto
  moreover have "\<forall>i. k \<le> i \<and> i < length rs \<longrightarrow> rs[j := ?r + 1] ! i = 0" "\<forall>i. Suc i < k \<longrightarrow> vs ! i \<noteq> vs ! Suc i" "expand (take j vs @ [x]) (take j rs @ [?r]) = xs"
    using assms(1) j tk by (auto simp: encodes_def)
  ultimately show ?thesis using l j tk(2) by (simp add: encodes_def)
qed

text \<open>
  A loop that encodes a list: a value that differs from that of the current run opens a new run,
  another one lengthens it. Such a loop also adds up a weight of the values in an \<^verbatim>\<open>int\<close>.
\<close>

locale run_encoder =
  fixes step :: "'v \<Rightarrow> 's \<Rightarrow> 's option"
    and ok :: "'s \<Rightarrow> bool"
    and cnt :: "'s \<Rightarrow> nat"
    and vals :: "'s \<Rightarrow> 'v list"
    and reps :: "'s \<Rightarrow> u32 list"
    and acc :: "'s \<Rightarrow> nat"
    and weight :: "'v \<Rightarrow> nat"
  assumes step_new: "ok s \<Longrightarrow> cnt s < length (reps s) \<Longrightarrow> length (vals s) = length (reps s) \<Longrightarrow> reps s ! cnt s = 0 \<Longrightarrow>
      acc s + weight x < 2 ^ 31 \<Longrightarrow> cnt s = 0 \<or> vals s ! (cnt s - 1) \<noteq> x \<Longrightarrow>
      \<exists>s'. step x s = Some s' \<and> ok s' \<and> cnt s' = Suc (cnt s) \<and> vals s' = (vals s)[cnt s := x] \<and>
        reps s' = (reps s)[cnt s := 1] \<and> acc s' = acc s + weight x"
    and step_same: "ok s \<Longrightarrow> 0 < cnt s \<Longrightarrow> cnt s \<le> length (reps s) \<Longrightarrow> length (vals s) = length (reps s) \<Longrightarrow>
      acc s + weight x < 2 ^ 31 \<Longrightarrow> vals s ! (cnt s - 1) = x \<Longrightarrow>
      \<exists>s'. step x s = Some s' \<and> ok s' \<and> cnt s' = cnt s \<and> vals s' = vals s \<and>
        reps s' = (reps s)[cnt s - 1 := reps s ! (cnt s - 1) + 1] \<and> acc s' = acc s + weight x"
begin

lemma encode_step:
  assumes "ok s" and "encodes (cnt s) (vals s) (reps s) L" and "length L < length (reps s)" and "length (reps s) < 2 ^ 32"
    and "acc s + weight x < 2 ^ 31"
  shows "\<exists>s'. step x s = Some s' \<and> ok s' \<and> encodes (cnt s') (vals s') (reps s') (L @ [x]) \<and>
    length (reps s') = length (reps s) \<and> acc s' = acc s + weight x"
proof (cases "cnt s = 0 \<or> vals s ! (cnt s - 1) \<noteq> x")
  case True
  have k: "cnt s < length (reps s)" using encodes_length(2) [OF assms(2)] assms(3) by simp
  then have "reps s ! cnt s = 0"
    using assms(2) by (simp add: encodes_def)
  then show ?thesis
    using step_new [OF assms(1) k _ _ assms(5) True] encodes_new [OF assms(2) k True] assms(2) by (auto simp: encodes_def)
next
  case False
  then have f: "0 < cnt s" "vals s ! (cnt s - 1) = x" by auto
  have k: "cnt s \<le> length (reps s)" "length (vals s) = length (reps s)" using assms(2) by (auto simp: encodes_def)
  have "length L < 2 ^ 32 - 1" using assms(3,4) by simp
  then show ?thesis
    using step_same [OF assms(1) f(1) k assms(5) f(2)] encodes_same [OF assms(2) f] by auto
qed

lemma encode:
  assumes "ok s" and "encodes (cnt s) (vals s) (reps s) L" and "length L + length xs \<le> length (reps s)"
    and "length (reps s) < 2 ^ 32" and "acc s + sum_list (map weight xs) < 2 ^ 31"
  shows "\<exists>s'. forM xs step s = Some s' \<and> ok s' \<and> encodes (cnt s') (vals s') (reps s') (L @ xs) \<and>
    length (reps s') = length (reps s) \<and> acc s' = acc s + sum_list (map weight xs)"
  using assms
proof (induction xs arbitrary: s L)
  case Nil
  then show ?case by simp
next
  case (Cons x xs)
  obtain s1 where s1: "step x s = Some s1" "ok s1" "encodes (cnt s1) (vals s1) (reps s1) (L @ [x])"
      "length (reps s1) = length (reps s)" "acc s1 = acc s + weight x"
    using encode_step [OF Cons.prems(1,2) _ Cons.prems(4), of x] Cons.prems(3,5) by auto
  have "length (L @ [x]) + length xs \<le> length (reps s1)" "length (reps s1) < 2 ^ 32" "acc s1 + sum_list (map weight xs) < 2 ^ 31"
    using Cons.prems(3-5) s1(4,5) by simp_all
  from Cons.IH [OF s1(2,3) this] show ?case using s1 by auto
qed

end

end
