(* ===== verification/Step_Layout.thy ===== *)
theory Step_Layout
  imports Pack Run_Length "HOL-Library.While_Combinator"
begin

text \<open>
  The distribution of the tasks of a job step over its nodes, \<^verbatim>\<open>src/common/slurm_step_layout.c\<close>.

  The counts \<^verbatim>\<open>tasks\<close> are 16-bit words and wrap around; task ids are counted in a C \<^verbatim>\<open>int\<close>, here
  a natural number, which is exact for fewer than \<open>2\<^sup>3\<^sup>1\<close> tasks. Loops that the code does not
  bound are \<^const>\<open>while_option\<close>, so that \<^term>\<open>None\<close> is also a call that does not return. The
  host list functions and the cluster and plugin configuration are arguments.
\<close>

section \<open>Data\<close>

record slurm_step_layout =
  front_end :: "c_string option"
  node_cnt :: u32
  node_list :: "c_string option"
  plane_size :: u16
  start_protocol_ver :: u16
  tasks :: "u16 list option"
  task_cnt :: u32
  task_dist :: u32
  tids :: "u32 list option list option"

record slurm_step_layout_req =
  req_node_list :: "c_string option"
  req_cpus_per_node :: "u16 list"
  req_cpu_count_reps :: "u32 list"
  req_num_hosts :: u32
  req_num_tasks :: u32
  req_cpus_per_task :: "u16 list option"
  req_cpus_task_reps :: "u32 list"
  req_task_dist :: u32
  req_plane_size :: u16

definition empty_layout :: slurm_step_layout where
  "empty_layout = \<lparr>front_end = None, node_cnt = 0, node_list = None, plane_size = 0,
     start_protocol_ver = 0, tasks = None, task_cnt = 0, task_dist = 0, tids = None\<rparr>"

definition NO_VAL16 :: u16 where
  "NO_VAL16 = 0xfffe"

definition SLURM_DIST_STATE_BASE :: u32 where
  "SLURM_DIST_STATE_BASE = 0x00FFFF"

definition SLURM_DIST_NODEMASK :: u32 where
  "SLURM_DIST_NODEMASK = 0xF00F"

definition SLURM_DIST_PACK_NODES :: u32 where
  "SLURM_DIST_PACK_NODES = 0x800000"

definition SLURM_DIST_NO_PACK_NODES :: u32 where
  "SLURM_DIST_NO_PACK_NODES = 0x400000"

definition SLURM_DIST_NODECYCLIC :: u32 where
  "SLURM_DIST_NODECYCLIC = 0x0001"

definition SLURM_DIST_ARBITRARY :: u32 where
  "SLURM_DIST_ARBITRARY = 0x0003"

definition SLURM_DIST_PLANE :: u32 where
  "SLURM_DIST_PLANE = 0x0004"

definition CR_PACK_NODES :: u16 where
  "CR_PACK_NODES = 0x0200"

definition CLUSTER_FLAG_CRAY_A :: u32 where
  "CLUSTER_FLAG_CRAY_A = 0x00000100"

definition CLUSTER_FLAG_FE :: u32 where
  "CLUSTER_FLAG_FE = 0x00000200"


section \<open>Block distribution\<close>

text \<open>
  The arrays \<^verbatim>\<open>tasks\<close>, \<^verbatim>\<open>tids\<close> and \<^verbatim>\<open>cpus\<close> have at least \<open>n\<close> elements, \<open>n\<close> being \<^verbatim>\<open>node_cnt\<close>:
  \<^verbatim>\<open>_init_task_layout\<close> allocates them. \<open>tc\<close> is \<^verbatim>\<open>task_cnt\<close>.
\<close>

definition bump :: "nat \<Rightarrow> u16 list \<Rightarrow> u16 list" where
  "bump i ts = ts[i := ts ! i + 1]"

definition pack_pass1 :: "nat \<Rightarrow> nat \<Rightarrow> u16 list \<Rightarrow> u16 list \<times> nat \<Rightarrow> u16 list \<times> nat" where
  "pack_pass1 n tc cpus =
     for_while [0..<n] (\<lambda>(ts, tk). tk < tc)
       (\<lambda>i (ts, tk). if ts ! i < cpus ! i then (bump i ts, Suc tk) else (ts, tk))"

function fill_node :: "nat \<Rightarrow> u16 \<Rightarrow> nat \<Rightarrow> u16 list \<times> nat \<Rightarrow> u16 list \<times> nat" where
  "fill_node tc c i (ts, tk) =
     (if ts ! i < c \<and> tk < tc then fill_node tc c i (bump i ts, Suc tk) else (ts, tk))"
  by pat_completeness auto
termination by (relation "measure (\<lambda>(tc, c, i, ts, tk). tc - tk)") auto

definition pack_pass2 :: "nat \<Rightarrow> nat \<Rightarrow> u16 list \<Rightarrow> u16 list \<times> nat \<Rightarrow> u16 list \<times> nat" where
  "pack_pass2 n tc cpus =
     for_while [0..<n] (\<lambda>(ts, tk). tk < tc) (\<lambda>i. fill_node tc (cpus ! i) i)"

definition pack_pass3 :: "nat \<Rightarrow> nat \<Rightarrow> u16 list \<times> nat \<Rightarrow> (u16 list \<times> nat) option" where
  "pack_pass3 n tc =
     while_option (\<lambda>(ts, tk). tk < tc)
       (for_while [0..<n] (\<lambda>(ts, tk). tk < tc) (\<lambda>i (ts, tk). (bump i ts, Suc tk)))"

text \<open>
  The cycle of the second branch, with cycle counter \<open>j\<close>: one more task on every node with a
  CPU left, or on every node once over-subscribing.
\<close>

definition block_cycle :: "nat \<Rightarrow> nat \<Rightarrow> u16 list \<Rightarrow> nat \<Rightarrow> bool \<Rightarrow> u16 list \<times> nat \<Rightarrow> u16 list \<times> nat \<times> bool" where
  "block_cycle n tc cpus j over = (\<lambda>(ts, tk).
     for_while [0..<n] (\<lambda>(ts, tk, space). tk < tc)
       (\<lambda>i (ts, tk, space).
          if j < unat (cpus ! i) \<or> over
          then (bump i ts, Suc tk, space \<or> j + 1 < unat (cpus ! i)) else (ts, tk, space))
       (ts, tk, False))"

definition block_cycles :: "nat \<Rightarrow> nat \<Rightarrow> u16 list \<Rightarrow> u16 list \<Rightarrow> u16 list option" where
  "block_cycles n tc cpus ts0 =
     map_option (\<lambda>(j, over, ts, tk). ts)
       (while_option (\<lambda>(j, over, ts, tk). tk < tc)
         (\<lambda>(j, over, ts, tk).
            let (ts, tk, space) = block_cycle n tc cpus j over (ts, tk)
            in (Suc j, over \<or> \<not> space, ts, tk))
         (0, False, ts0, 0))"

text \<open>Numbering the tasks node by node.\<close>

definition number_tasks :: "nat \<Rightarrow> u16 list \<Rightarrow> u32 list option list \<Rightarrow> u32 list option list" where
  "number_tasks n ts ids =
     fst (fold (\<lambda>i (ids, tk). (ids[i := Some (map of_nat [tk..<tk + unat (ts ! i)])], tk + unat (ts ! i)))
       [0..<n] (ids, 0))"

definition task_layout_block :: "u16 \<Rightarrow> slurm_step_layout \<Rightarrow> u16 list \<Rightarrow> (int \<times> slurm_step_layout) option" where
  "task_layout_block select_params sl cpus = do {
     ts0 \<leftarrow> tasks sl;
     ids0 \<leftarrow> tids sl;
     let n = unat (node_cnt sl);
     let tc = unat (task_cnt sl);
     let pack_nodes =
       (if task_dist sl AND SLURM_DIST_PACK_NODES \<noteq> 0 then True
        else if task_dist sl AND SLURM_DIST_NO_PACK_NODES \<noteq> 0 then False
        else select_params AND CR_PACK_NODES \<noteq> 0);
     ts \<leftarrow> (if pack_nodes
           then map_option fst (pack_pass3 n tc (pack_pass2 n tc cpus (pack_pass1 n tc cpus (ts0, 0))))
           else block_cycles n tc cpus ts0);
     Some (SLURM_SUCCESS, sl\<lparr>tasks := Some ts, tids := Some (number_tasks n ts ids0)\<rparr>) }"


section \<open>Cyclic distribution\<close>

definition xrealloc :: "u32 list option \<Rightarrow> nat \<Rightarrow> u32 list" where
  "xrealloc p k = (let l = (case p of None \<Rightarrow> [] | Some l \<Rightarrow> l) in take k l @ replicate (k - length l) 0)"

definition cyclic_cycle :: "nat \<Rightarrow> nat \<Rightarrow> u16 list \<Rightarrow> nat \<Rightarrow> bool \<Rightarrow>
    (u16 list \<times> u32 list option list) \<times> nat \<Rightarrow> (u16 list \<times> u32 list option list) \<times> nat \<times> bool" where
  "cyclic_cycle n tc cpus j over = (\<lambda>((ts, ids), tk).
     for_while [0..<n] (\<lambda>((ts, ids), tk, space). tk < tc)
       (\<lambda>i ((ts, ids), tk, space).
          if j < unat (cpus ! i) \<or> over
          then ((bump i ts,
                 ids[i := Some ((xrealloc (ids ! i) (unat (ts ! i) + 1))[unat (ts ! i) := of_nat tk])]),
                Suc tk, space \<or> j + 1 < unat (cpus ! i))
          else ((ts, ids), tk, space))
       ((ts, ids), tk, False))"

definition task_layout_cyclic :: "slurm_step_layout \<Rightarrow> u16 list \<Rightarrow> (int \<times> slurm_step_layout) option" where
  "task_layout_cyclic sl cpus = do {
     ts0 \<leftarrow> tasks sl;
     ids0 \<leftarrow> tids sl;
     let n = unat (node_cnt sl);
     let tc = unat (task_cnt sl);
     (j, over, (ts, ids), tk) \<leftarrow>
       while_option (\<lambda>(j, over, st, tk). tk < tc)
         (\<lambda>(j, over, st, tk).
            let (st, tk, space) = cyclic_cycle n tc cpus j over (st, tk)
            in (Suc j, over \<or> \<not> space, st, tk))
         (0, False, (ts0, ids0), 0);
     Some (SLURM_SUCCESS, sl\<lparr>tasks := Some ts, tids := Some ids\<rparr>) }"


section \<open>Plane distribution\<close>

definition plane_first :: "nat \<Rightarrow> nat \<Rightarrow> u16 list \<times> nat \<Rightarrow> u16 list \<times> nat" where
  "plane_first n tc = for_while [0..<n] (\<lambda>(ts, tk). tk < tc) (\<lambda>i (ts, tk). (bump i ts, Suc tk))"

text \<open>
  \<^verbatim>\<open>cpus[i] - tasks[i]\<close> is tested for being non-zero, and
  \<^verbatim>\<open>cpus[i] - (tasks[i] + 1) >= 0\<close> in \<^verbatim>\<open>int\<close>.
\<close>

definition plane_node :: "nat \<Rightarrow> nat \<Rightarrow> nat \<Rightarrow> u16 list \<Rightarrow> bool \<Rightarrow> nat \<Rightarrow> u16 list \<times> nat \<times> bool \<Rightarrow>
    u16 list \<times> nat \<times> bool" where
  "plane_node start plane tc cpus over i =
     for_while [start..<plane] (\<lambda>(ts, tk, space). tk < tc)
       (\<lambda>k (ts, tk, space).
          if cpus ! i \<noteq> ts ! i \<or> over
          then (let ts = bump i ts in
                (ts, Suc tk, space \<or> int (unat (cpus ! i)) - (int (unat (ts ! i)) + 1) \<ge> 0))
          else (ts, tk, space))"

definition plane_cycle :: "nat \<Rightarrow> nat \<Rightarrow> nat \<Rightarrow> u16 list \<Rightarrow> nat \<Rightarrow> bool \<Rightarrow> u16 list \<times> nat \<Rightarrow> u16 list \<times> nat \<times> bool" where
  "plane_cycle n plane tc cpus j over st =
     (let (ts, tk) = (if j = 0 then plane_first n tc st else st) in
      for_while [0..<n] (\<lambda>(ts, tk, space). tk < tc)
        (plane_node (if j = 0 then 1 else 0) plane tc cpus over) (ts, tk, False))"

definition plane_counts :: "nat \<Rightarrow> nat \<Rightarrow> nat \<Rightarrow> u16 list \<Rightarrow> u16 list \<Rightarrow> u16 list option" where
  "plane_counts n plane tc cpus ts0 =
     map_option (\<lambda>(j, over, ts, tk). ts)
       (while_option (\<lambda>(j, over, ts, tk). tk < tc)
         (\<lambda>(j, over, ts, tk).
            let (ts, tk, space) = plane_cycle n plane tc cpus j over (ts, tk)
            in (Suc j, over \<or> \<not> space, ts, tk))
         (0, False, ts0, 0))"

text \<open>Blocks of \<^verbatim>\<open>plane_size\<close> task ids; \<open>cur\<close> is \<^verbatim>\<open>cur_task\<close>.\<close>

definition plane_block :: "nat \<Rightarrow> nat \<Rightarrow> u16 list \<Rightarrow> nat \<Rightarrow> u32 list option list \<times> nat list \<times> nat \<Rightarrow>
    u32 list option list \<times> nat list \<times> nat" where
  "plane_block plane tc ts i =
     for_while [0..<plane] (\<lambda>(ids, cur, tk). cur ! i < unat (ts ! i) \<and> tk < tc)
       (\<lambda>k (ids, cur, tk).
          (ids[i := map_option (\<lambda>l. l[cur ! i := of_nat tk]) (ids ! i)], cur[i := Suc (cur ! i)], Suc tk))"

definition plane_assign :: "nat \<Rightarrow> nat \<Rightarrow> nat \<Rightarrow> u16 list \<Rightarrow> u32 list option list \<Rightarrow>
    (u32 list option list \<times> nat list \<times> nat) option" where
  "plane_assign n plane tc ts ids =
     while_option (\<lambda>(ids, cur, tk). tk < tc)
       (for_while [0..<n] (\<lambda>(ids, cur, tk). tk < tc) (plane_block plane tc ts))
       (fold (\<lambda>i ids. ids[i := Some (replicate (unat (ts ! i)) 0)]) [0..<n] ids, replicate n 0, 0)"

definition task_layout_plane :: "slurm_step_layout \<Rightarrow> u16 list \<Rightarrow> (int \<times> slurm_step_layout) option" where
  "task_layout_plane sl cpus =
     (if plane_size sl = 0 then Some (SLURM_ERROR, sl)
      else case tasks sl of
        None \<Rightarrow> Some (SLURM_ERROR, sl)
      | Some ts0 \<Rightarrow> do {
          ids0 \<leftarrow> tids sl;
          let n = unat (node_cnt sl);
          let tc = unat (task_cnt sl);
          let plane = unat (plane_size sl);
          ts \<leftarrow> plane_counts n plane tc cpus ts0;
          (ids, cur, tk) \<leftarrow> plane_assign n plane tc ts ids0;
          Some (if tk \<noteq> tc then SLURM_ERROR else SLURM_SUCCESS, sl\<lparr>tasks := Some ts, tids := Some ids\<rparr>) })"


section \<open>Arbitrary distribution\<close>

text \<open>
  The two inner loops of \<^verbatim>\<open>_task_layout_hostfile\<close> for one host: counting its tasks, where
  \<open>placed\<close> is \<^verbatim>\<open>task_cnt\<close>, and collecting their ids.
\<close>

fun hostfile_count :: "c_string \<Rightarrow> nat \<Rightarrow> c_string list \<Rightarrow> u16 \<times> nat \<Rightarrow> u16 \<times> nat" where
  "hostfile_count host tc [] (t, placed) = (t, placed)"
| "hostfile_count host tc (h # hs) (t, placed) =
     (let (t, placed) = (if host = h then (t + 1, Suc placed) else (t, placed))
      in if placed \<ge> tc then (t, placed) else hostfile_count host tc hs (t, placed))"

fun hostfile_ids :: "c_string \<Rightarrow> u16 \<Rightarrow> c_string list \<Rightarrow> nat \<Rightarrow> u32 list \<times> nat \<Rightarrow> u32 list" where
  "hostfile_ids host t [] taskid (l, j) = l"
| "hostfile_ids host t (h # hs) taskid (l, j) =
     (let (l, j) = (if host = h then (l[j := of_nat taskid], Suc j) else (l, j))
      in if j \<ge> unat t then l else hostfile_ids host t hs (Suc taskid) (l, j))"

fun hostfile_hosts :: "nat \<Rightarrow> c_string list \<Rightarrow> c_string list \<Rightarrow> nat \<Rightarrow>
    u16 list \<times> u32 list option list \<times> nat \<Rightarrow> (u16 list \<times> u32 list option list \<times> nat) option" where
  "hostfile_hosts tc step_hosts [] i st = Some st"
| "hostfile_hosts tc step_hosts (host # hosts) i (ts, ids, placed) = do {
     assertC (i < length ts \<and> i < length ids);
     let (t, placed) = hostfile_count host tc step_hosts (0, placed);
     let ts = ts[i := t];
     let (ids, i) =
       (if t = 0 then (ids, i)
        else (ids[i := Some (hostfile_ids host t step_hosts 0 (replicate (unat t) 0, 0))], Suc i));
     if i > tc then Some (ts, ids, placed)
     else hostfile_hosts tc step_hosts hosts i (ts, ids, placed) }"

definition task_layout_hostfile :: "(c_string option \<Rightarrow> c_string list) \<Rightarrow> slurm_step_layout \<Rightarrow>
    c_string option \<Rightarrow> (int \<times> slurm_step_layout) option" where
  "task_layout_hostfile hostlist_create sl arbitrary_nodes =
     (let job_alloc_hosts = hostlist_create (node_list sl) in
      case arbitrary_nodes of
        None \<Rightarrow> Some (SLURM_ERROR, sl)
      | Some nodes \<Rightarrow>
          (let step_alloc_hosts = hostlist_create (Some nodes); tc = unat (task_cnt sl) in
           if length step_alloc_hosts \<noteq> tc then Some (SLURM_ERROR, sl)
           else do {
             ts0 \<leftarrow> tasks sl;
             ids0 \<leftarrow> tids sl;
             (ts, ids, placed) \<leftarrow> hostfile_hosts tc step_alloc_hosts job_alloc_hosts 0 (ts0, ids0, 0);
             Some (if placed \<noteq> tc then SLURM_ERROR else SLURM_SUCCESS,
                   sl\<lparr>tasks := Some ts, tids := Some ids\<rparr>) }))"


section \<open>Building a layout\<close>

text \<open>
  The CPUs of each node, in units of tasks: the run-length encoded counts of the request are
  walked by \<open>inx\<close>, \<open>cnt\<close> for the CPUs and \<open>tinx\<close>, \<open>tcnt\<close> for the CPUs per task.
\<close>

fun init_cpus :: "slurm_step_layout_req \<Rightarrow> slurm_step_layout \<Rightarrow> nat \<Rightarrow> nat \<Rightarrow> nat \<Rightarrow> nat \<Rightarrow> nat \<Rightarrow>
    u16 list option" where
  "init_cpus req sl 0 inx cnt tinx tcnt = Some []"
| "init_cpus req sl (Suc n) inx cnt tinx tcnt = do {
     cpt_array \<leftarrow> req_cpus_per_task req;
     cpn \<leftarrow> readA (req_cpus_per_node req) inx;
     cpt \<leftarrow> readA cpt_array tinx;
     assertC (cpt \<noteq> 0);
     let c = cpn div cpt;
     let c = (if c = 0 then 1 else c);
     let limited = (plane_size sl \<noteq> 0 \<and> plane_size sl \<noteq> NO_VAL16 \<and>
                    task_dist sl AND SLURM_DIST_STATE_BASE \<noteq> SLURM_DIST_PLANE);
     assertC (limited \<longrightarrow> unat (plane_size sl) * unat cpt < 2 ^ 31);
     let cpus_per_node = plane_size sl * cpt;
     let c = (if limited \<and> c > cpus_per_node then cpus_per_node else c);
     reps \<leftarrow> readA (req_cpu_count_reps req) inx;
     let (inx, cnt) = rle_next reps (inx, cnt);
     treps \<leftarrow> readA (req_cpus_task_reps req) tinx;
     let (tinx, tcnt) = rle_next treps (tinx, tcnt);
     cs \<leftarrow> init_cpus req sl n inx cnt tinx tcnt;
     Some (c # cs) }"

text \<open>The request with the defaults \<^verbatim>\<open>_init_task_layout\<close> stores into it.\<close>

definition default_cpus_per_task :: "slurm_step_layout_req \<Rightarrow> slurm_step_layout_req option" where
  "default_cpus_per_task req =
     (let req = (case req_cpus_per_task req of
          None \<Rightarrow> req\<lparr>req_cpus_per_task := Some [1], req_cpus_task_reps := [req_num_hosts req]\<rparr>
        | Some a \<Rightarrow> req) in do {
      a \<leftarrow> req_cpus_per_task req;
      c \<leftarrow> readA a 0;
      if c < 1 \<or> c = NO_VAL16
      then do {
        assertC (req_cpus_task_reps req \<noteq> []);
        Some (req\<lparr>req_cpus_per_task := Some (a[0 := 1]),
                  req_cpus_task_reps := (req_cpus_task_reps req)[0 := req_num_hosts req]\<rparr>) }
      else Some req })"

text \<open>The choice of the distribution, the end of \<^verbatim>\<open>_init_task_layout\<close>.\<close>

definition dispatch_layout :: "(c_string option \<Rightarrow> c_string list) \<Rightarrow> u32 \<Rightarrow> u16 \<Rightarrow> slurm_step_layout \<Rightarrow>
    u16 list \<Rightarrow> c_string option \<Rightarrow> (int \<times> slurm_step_layout) option" where
  "dispatch_layout hostlist_create cluster_flags select_params sl cpus arbitrary_nodes =
     (if task_dist sl AND SLURM_DIST_NODEMASK = SLURM_DIST_NODECYCLIC
      then task_layout_cyclic sl cpus
      else if task_dist sl AND SLURM_DIST_STATE_BASE = SLURM_DIST_ARBITRARY \<and>
              cluster_flags AND CLUSTER_FLAG_FE = 0
      then task_layout_hostfile hostlist_create sl arbitrary_nodes
      else if task_dist sl AND SLURM_DIST_STATE_BASE = SLURM_DIST_PLANE
      then task_layout_plane sl cpus
      else task_layout_block select_params sl cpus)"

definition init_task_layout :: "(c_string option \<Rightarrow> c_string list) \<Rightarrow> u32 \<Rightarrow> u16 \<Rightarrow> slurm_step_layout_req \<Rightarrow>
    slurm_step_layout \<Rightarrow> c_string option \<Rightarrow> (int \<times> slurm_step_layout \<times> slurm_step_layout_req) option" where
  "init_task_layout hostlist_create cluster_flags select_params req sl arbitrary_nodes =
     (if node_cnt sl = 0 then Some (SLURM_ERROR, sl, req)
      else if tasks sl \<noteq> None then Some (SLURM_SUCCESS, sl, req)
      else do {
        req \<leftarrow> default_cpus_per_task req;
        let sl = sl\<lparr>plane_size := req_plane_size req,
                    tasks := Some (replicate (unat (node_cnt sl)) 0),
                    tids := Some (replicate (unat (node_cnt sl)) None)\<rparr>;
        let hosts = length (hostlist_create (node_list sl));
        let sl = (if cluster_flags AND CLUSTER_FLAG_BG = 0 \<and> unat (node_cnt sl) > hosts
                  then sl\<lparr>node_cnt := of_nat hosts\<rparr> else sl);
        if node_cnt sl < 1 then Some (SLURM_ERROR, sl, req)
        else do {
          cpus \<leftarrow> init_cpus req sl (unat (node_cnt sl)) 0 0 0 0;
          (rc, sl) \<leftarrow> dispatch_layout hostlist_create cluster_flags select_params sl cpus arbitrary_nodes;
          Some (rc, sl, req) } })"

definition slurm_step_layout_create :: "(c_string option \<Rightarrow> c_string list) \<Rightarrow> (c_string list \<Rightarrow> c_string list) \<Rightarrow>
    (c_string list \<Rightarrow> c_string) \<Rightarrow> u32 \<Rightarrow> u16 \<Rightarrow> slurm_step_layout_req \<Rightarrow>
    (slurm_step_layout option \<times> slurm_step_layout_req) option" where
  "slurm_step_layout_create hostlist_create hostlist_uniq hostlist_ranged_string cluster_flags select_params req =
     (let arbitrary = (req_task_dist req AND SLURM_DIST_STATE_BASE = SLURM_DIST_ARBITRARY);
          hl = hostlist_uniq (hostlist_create (req_node_list req));
          arbitrary_nodes = (if arbitrary then req_node_list req else None);
          req = (if arbitrary then req\<lparr>req_num_hosts := of_nat (length hl)\<rparr> else req);
          nodes = (if arbitrary then Some (hostlist_ranged_string hl) else req_node_list req);
          cnt = (if cluster_flags AND CLUSTER_FLAG_FE \<noteq> 0 \<and> cluster_flags AND CLUSTER_FLAG_BG = 0 \<and>
                    cluster_flags AND CLUSTER_FLAG_CRAY_A = 0
                 then 1 else req_num_hosts req);
          sl = empty_layout\<lparr>task_dist := req_task_dist req, node_list := nodes,
                            task_cnt := req_num_tasks req, node_cnt := cnt\<rparr> in do {
      (rc, sl, req) \<leftarrow> init_task_layout hostlist_create cluster_flags select_params req sl arbitrary_nodes;
      Some (if rc = SLURM_SUCCESS then Some sl else None, req) })"


section \<open>Layouts without an allocation\<close>

function fake_fill :: "nat \<Rightarrow> nat \<Rightarrow> nat \<Rightarrow> u32 list \<times> u16 \<times> nat \<Rightarrow> u32 list \<times> u16 \<times> nat" where
  "fake_fill tc cpn j (l, t, tk) =
     (if j < cpn
      then (let l = l[j := of_nat tk]; tk = Suc tk in
            if tk \<ge> tc then (l, of_nat (Suc j), tk) else fake_fill tc cpn (Suc j) (l, t, tk))
      else (l, t, tk))"
  by pat_completeness auto
termination by (relation "measure (\<lambda>(tc, cpn, j, st). cpn - j)") auto

fun fake_nodes :: "u16 list option \<Rightarrow> u32 list option \<Rightarrow> u32 \<Rightarrow> u32 \<Rightarrow> nat list \<Rightarrow> nat \<Rightarrow> nat \<Rightarrow> nat \<Rightarrow>
    ((u16 \<times> u32 list option) list \<times> nat) option" where
  "fake_nodes cpus_per_node cpu_count_reps nc tc [] cpu_inx cpu_cnt tk = Some ([], tk)"
| "fake_nodes cpus_per_node cpu_count_reps nc tc (i # is) cpu_inx cpu_cnt tk =
     (case (cpus_per_node, cpu_count_reps) of
        (Some cpn, Some reps) \<Rightarrow> do {
          t \<leftarrow> readA cpn cpu_inx;
          r \<leftarrow> readA reps cpu_inx;
          let (cpu_inx, cpu_cnt) = rle_next r (cpu_inx, cpu_cnt);
          (rest, tk') \<leftarrow> fake_nodes cpus_per_node cpu_count_reps nc tc is cpu_inx cpu_cnt (tk + unat t);
          Some ((t, Some (map of_nat [tk..<tk + unat t])) # rest, tk') }
      | _ \<Rightarrow>
          (let cpn = ((tc - of_nat tk) + (nc - of_nat i) - 1) div (nc - of_nat i) in
           if tk \<ge> unat tc
           then do {
             (rest, tk') \<leftarrow> fake_nodes cpus_per_node cpu_count_reps nc tc is cpu_inx cpu_cnt tk;
             Some ((0, None) # rest, tk') }
           else
             (let (l, t, tk1) = fake_fill (unat tc) (unat cpn) 0 (replicate (unat cpn) 0, ucast cpn, tk) in do {
              (rest, tk') \<leftarrow> fake_nodes cpus_per_node cpu_count_reps nc tc is cpu_inx cpu_cnt tk1;
              Some ((t, Some l) # rest, tk') })))"

definition fake_slurm_step_layout_create :: "c_string option \<Rightarrow> u16 list option \<Rightarrow> u32 list option \<Rightarrow> u32 \<Rightarrow> u32 \<Rightarrow>
    slurm_step_layout option option" where
  "fake_slurm_step_layout_create tlist cpus_per_node cpu_count_reps nc tc =
     (if nc = 0 \<or> (tc = 0 \<and> cpus_per_node = None) \<or> tlist = None then Some None
      else do {
        (r, tk) \<leftarrow> fake_nodes cpus_per_node cpu_count_reps nc tc [0..<unat nc] 0 0 0;
        Some (Some (empty_layout\<lparr>node_list := tlist, node_cnt := nc, tasks := Some (map fst r),
          tids := Some (map snd r), task_cnt := of_nat tk\<rparr>)) })"


section \<open>Copying and searching\<close>

text \<open>The copy of \<^verbatim>\<open>tids[i]\<close> reads \<^verbatim>\<open>tasks[i]\<close> elements.\<close>

definition copy_tids :: "u16 \<Rightarrow> u32 list option \<Rightarrow> u32 list option option" where
  "copy_tids t l =
     (if t = 0 then Some (Some [])
      else do { l \<leftarrow> l; assertC (unat t \<le> length l); Some (Some (take (unat t) l)) })"

definition slurm_step_layout_copy :: "slurm_step_layout option \<Rightarrow> slurm_step_layout option option" where
  "slurm_step_layout_copy p =
     (case p of
        None \<Rightarrow> Some None
      | Some sl \<Rightarrow> do {
          ts \<leftarrow> tasks sl;
          ids \<leftarrow> tids sl;
          let n = unat (node_cnt sl);
          assertC (n \<le> length ts \<and> n \<le> length ids);
          ids' \<leftarrow> those (map (\<lambda>i. copy_tids (ts ! i) (ids ! i)) [0..<n]);
          Some (Some (empty_layout\<lparr>node_list := node_list sl, node_cnt := node_cnt sl,
            start_protocol_ver := start_protocol_ver sl, task_cnt := task_cnt sl, task_dist := task_dist sl,
            tasks := Some (take n ts), tids := Some ids'\<rparr>)) })"

definition node_has_task :: "u16 list \<Rightarrow> u32 list option list \<Rightarrow> u32 \<Rightarrow> nat \<Rightarrow> bool option" where
  "node_has_task ts ids taskid i = do {
     t \<leftarrow> readA ts i;
     existsM [0..<unat t] (\<lambda>j. do {
       l \<leftarrow> readA ids i;
       l \<leftarrow> l;
       x \<leftarrow> readA l j;
       Some (x = taskid) }) }"

definition slurm_step_layout_host_id :: "slurm_step_layout \<Rightarrow> int \<Rightarrow> int option" where
  "slurm_step_layout_host_id s taskid =
     (case (tasks s, tids s) of
        (Some ts, Some ids) \<Rightarrow>
          if (word_of_int taskid :: u32) > task_cnt s - 1 then Some SLURM_ERROR
          else do {
            r \<leftarrow> findM [0..<unat (node_cnt s)] (node_has_task ts ids (word_of_int taskid));
            Some (case r of Some i \<Rightarrow> int i | None \<Rightarrow> SLURM_ERROR) }
      | _ \<Rightarrow> Some SLURM_ERROR)"

definition slurm_step_layout_host_name :: "(c_string option \<Rightarrow> c_string list) \<Rightarrow> slurm_step_layout \<Rightarrow> int \<Rightarrow>
    c_string option option" where
  "slurm_step_layout_host_name hostlist_create s taskid = do {
     hostid \<leftarrow> slurm_step_layout_host_id s taskid;
     Some (if hostid < 0 then None else readA (hostlist_create (node_list s)) (nat hostid)) }"

end
