(* ===== verification/Step_Layout_Dist.thy ===== *)
theory Step_Layout_Dist
  imports Step_Layout "HOL-Library.Multiset"
begin

text \<open>
  The distributions return, and the task ids they give to the nodes are a partition of the tasks
  of the step.
\<close>

declare fill_node.simps [simp del] fake_fill.simps [simp del]

section \<open>Counting by index\<close>

lemma sum_upd:
  fixes f :: "nat \<Rightarrow> 'a::comm_monoid_add"
  assumes "i < n"
  shows "(\<Sum>k<n. (f(i := f i + x)) k) = (\<Sum>k<n. f k) + x"
proof -
  have "(\<Sum>k<n. (f(i := f i + x)) k) = (f i + x) + (\<Sum>k\<in>{..<n} - {i}. f k)"
    using assms by (subst sum.remove [of _ i]) auto
  also have "\<dots> = (\<Sum>k<n. f k) + x"
    using assms sum.remove [of "{..<n}" i f] by (simp add: ac_simps)
  finally show ?thesis .
qed

lemma sum_upd_cong:
  fixes f g :: "nat \<Rightarrow> 'a::comm_monoid_add"
  assumes "i < n" and "g i = f i + x" and "\<And>k. k < n \<Longrightarrow> k \<noteq> i \<Longrightarrow> g k = f k"
  shows "(\<Sum>k<n. g k) = (\<Sum>k<n. f k) + x"
proof -
  have "(\<Sum>k<n. g k) = (\<Sum>k<n. (f(i := f i + x)) k)" using assms by (intro sum.cong) auto
  then show ?thesis using sum_upd [OF assms(1)] by simp
qed

lemma le_sum_nat: "(i::nat) < n \<Longrightarrow> f i \<le> (\<Sum>k<n. f k :: nat)"
  by (rule member_le_sum) auto

lemma mset_concat_upt: "mset (concat (map f [0..<n])) = (\<Sum>i<n. mset (f i))"
  by (induction n) (simp_all add: add.commute)

text \<open>The 16-bit counts of the code against the numbers of tasks they stand for.\<close>

definition counts :: "nat \<Rightarrow> u16 list \<Rightarrow> (nat \<Rightarrow> nat) \<Rightarrow> bool" where
  "counts n ts N \<longleftrightarrow> n \<le> length ts \<and> (\<forall>i<n. ts ! i = of_nat (N i))"

lemma counts_bump: "counts n ts N \<Longrightarrow> i < n \<Longrightarrow> counts n (bump i ts) (N(i := Suc (N i)))"
  by (auto simp: counts_def bump_def nth_list_update)

lemma counts_cong: "counts n ts N \<Longrightarrow> (\<And>i. i < n \<Longrightarrow> N' i = N i) \<Longrightarrow> counts n ts N'"
  by (simp add: counts_def)

lemma counts_unat: "counts n ts N \<Longrightarrow> i < n \<Longrightarrow> N i < 65536 \<Longrightarrow> unat (ts ! i) = N i"
  by (simp add: counts_def unat_of_nat)


section \<open>Cycles\<close>

text \<open>
  The contract of the cycle that the block, cyclic and plane distributions repeat: it keeps an
  invariant, places no more than the tasks there are, and places one if it leaves space or is
  over-subscribing. Then the loop ends with all tasks placed.
\<close>

locale task_cycles =
  fixes cycle :: "nat \<Rightarrow> bool \<Rightarrow> 's \<times> nat \<Rightarrow> 's \<times> nat \<times> bool"
    and tc :: nat
    and inv :: "nat \<Rightarrow> bool \<Rightarrow> 's \<Rightarrow> nat \<Rightarrow> bool"
  assumes cycle_step: "inv j over s tk \<Longrightarrow> tk < tc \<Longrightarrow> cycle j over (s, tk) = (s', tk', space) \<Longrightarrow>
    inv (Suc j) (over \<or> \<not> space) s' tk' \<and> tk \<le> tk' \<and> tk' \<le> tc \<and> (space \<or> over \<longrightarrow> tk < tk')"
begin

lemma cycles_end:
  assumes "inv 0 False s 0"
  obtains j over s' where
    "while_option (\<lambda>(j, over, s, tk). tk < tc)
       (\<lambda>(j, over, s, tk). let (s, tk, space) = cycle j over (s, tk) in (Suc j, over \<or> \<not> space, s, tk))
       (0, False, s, 0) = Some (j, over, s', tc)" "inv j over s' tc"
proof -
  let ?b = "\<lambda>(j :: nat, over :: bool, s :: 's, tk). tk < tc"
  let ?c = "\<lambda>(j, over, s, tk). let (s, tk, space) = cycle j over (s, tk) in (Suc j, over \<or> \<not> space, s, tk)"
  let ?P = "\<lambda>(j, over, s, tk). inv j over s tk \<and> tk \<le> tc"
  let ?m = "\<lambda>(j :: nat, over, s :: 's, tk). 2 * (tc - tk) + (if over then 0 else 1)"
  have step: "?P (?c st) \<and> ?m (?c st) < ?m st" if "?P st" "?b st" for st
  proof -
    obtain j over s tk where st: "st = (j, over, s, tk)" by (cases st)
    obtain s' tk' space where c: "cycle j over (s, tk) = (s', tk', space)" by (cases "cycle j over (s, tk)")
    show ?thesis using cycle_step [of j over s tk s' tk' space] that c st
      by (cases space; cases over) auto
  qed
  have "?P (0, False, s, 0)" using assms by simp
  then obtain t where t: "while_option ?b ?c (0, False, s, 0) = Some t"
    using measure_while_option_Some [of ?P ?b ?c ?m] step by blast
  have "?P t" using while_option_rule [OF _ t, of ?P] step assms by simp
  moreover have "\<not> ?b t" using while_option_stop [OF t] .
  ultimately show thesis using that t by (cases t) auto
qed

end


section \<open>Block and cyclic counts\<close>

text \<open>
  The numbers of tasks at the start of cycle \<open>j\<close>, and when the last cycle stopped before node
  \<open>k\<close>: as even as the CPUs allow, and once all CPUs are used one more task per node and cycle.
\<close>

definition level :: "nat \<Rightarrow> u16 list \<Rightarrow> (nat \<Rightarrow> nat) \<Rightarrow> nat \<Rightarrow> bool \<Rightarrow> bool" where
  "level n cpus N j over \<longleftrightarrow>
     (if over then \<exists>r. \<forall>i<n. N i = unat (cpus ! i) + r else \<forall>i<n. N i = min (unat (cpus ! i)) j)"

definition final_level :: "nat \<Rightarrow> u16 list \<Rightarrow> (nat \<Rightarrow> nat) \<Rightarrow> bool" where
  "final_level n cpus N \<longleftrightarrow> (\<exists>k j.
     (\<forall>i<n. N i = min (unat (cpus ! i)) (if i < k then Suc j else j)) \<or>
     (\<forall>i<n. N i = unat (cpus ! i) + (if i < k then Suc j else j)))"

definition block_inv :: "nat \<Rightarrow> nat \<Rightarrow> u16 list \<Rightarrow> nat \<Rightarrow> bool \<Rightarrow> u16 list \<Rightarrow> nat \<Rightarrow> bool" where
  "block_inv n tc cpus j over ts tk \<longleftrightarrow> 0 < n \<and>
     (\<exists>N. counts n ts N \<and> tk = (\<Sum>i<n. N i) \<and> (level n cpus N j over \<or> tk = tc \<and> final_level n cpus N))"

definition grow :: "u16 list \<Rightarrow> nat \<Rightarrow> bool \<Rightarrow> (nat \<Rightarrow> nat) \<Rightarrow> nat \<Rightarrow> nat \<Rightarrow> nat" where
  "grow cpus j over N k = (\<lambda>i. if i < k \<and> (j < unat (cpus ! i) \<or> over) then Suc (N i) else N i)"

lemma grow_Suc:
  "grow cpus j over N (Suc k) =
     (if j < unat (cpus ! k) \<or> over then (grow cpus j over N k)(k := Suc (grow cpus j over N k k))
      else grow cpus j over N k)"
  by (auto simp: grow_def fun_eq_iff less_Suc_eq)

lemma sum_grow_Suc:
  "k < n \<Longrightarrow> (\<Sum>i<n. grow cpus j over N (Suc k) i) =
     (\<Sum>i<n. grow cpus j over N k i) + (if j < unat (cpus ! k) \<or> over then 1 else 0)"
  using sum_upd [of k n "grow cpus j over N k" 1] by (simp add: grow_Suc)

lemma block_cycle_grow:
  assumes "block_cycle n tc cpus j over (ts, tk) = (ts', tk', space)"
    and "counts n ts N" and "tk = (\<Sum>i<n. N i)" and "tk \<le> tc"
  obtains k where "k \<le> n" "counts n ts' (grow cpus j over N k)" "tk' = (\<Sum>i<n. grow cpus j over N k i)"
    "tk' \<le> tc" "k < n \<Longrightarrow> tk' = tc" "space \<longleftrightarrow> (\<exists>i<k. j + 1 < unat (cpus ! i))"
proof -
  let ?P = "\<lambda>k (ts, tk, space). counts n ts (grow cpus j over N k) \<and> tk = (\<Sum>i<n. grow cpus j over N k i) \<and>
    tk \<le> tc \<and> (space \<longleftrightarrow> (\<exists>i<k. j + 1 < unat (cpus ! i)))"
  let ?g = "\<lambda>(ts :: u16 list, tk, space :: bool). tk < tc"
  let ?f = "\<lambda>i (ts, tk, space). if j < unat (cpus ! i) \<or> over
    then (bump i ts, Suc tk, space \<or> j + 1 < unat (cpus ! i)) else (ts, tk, space)"
  have init: "?P 0 (ts, tk, False)" using assms by (simp add: grow_def)
  have step: "?P (Suc i) (?f i st)" if "i < n" "?g st" "?P i st" for i st
  proof -
    obtain ts tk space where st: "st = (ts, tk, space)" by (cases st)
    have "counts n (if j < unat (cpus ! i) \<or> over then bump i ts else ts) (grow cpus j over N (Suc i))"
      using that st counts_bump [of n ts "grow cpus j over N i" i] by (cases over; simp add: grow_Suc)
    then show ?thesis using that st sum_grow_Suc [of i n cpus j over N]
      by (cases "j < unat (cpus ! i) \<or> over") (auto simp: less_Suc_eq)
  qed
  have eq: "for_while [0..<n] ?g ?f (ts, tk, False) = (ts', tk', space)"
    using assms(1) by (simp add: block_cycle_def)
  have "\<exists>k\<le>n. ?P k (ts', tk', space) \<and> (k < n \<longrightarrow> \<not> ?g (ts', tk', space))"
    using for_while_0 [of ?P "(ts, tk, False)" n ?g ?f, OF init step] unfolding eq .
  then show thesis using that unfolding prod.case by (metis le_antisym not_less)
qed

lemma grow_level:
  assumes "level n cpus N j over" and "k \<le> n"
  shows "k = n \<Longrightarrow> space \<longleftrightarrow> (\<exists>i<n. j + 1 < unat (cpus ! i)) \<Longrightarrow>
      level n cpus (grow cpus j over N k) (Suc j) (over \<or> \<not> space)"
    and "final_level n cpus (grow cpus j over N k)"
proof -
  show "final_level n cpus (grow cpus j over N k)"
  proof (cases over)
    case True
    then obtain r where "\<forall>i<n. N i = unat (cpus ! i) + r" using assms(1) by (auto simp: level_def)
    then show ?thesis unfolding final_level_def using True
      by (intro exI [of _ k] exI [of _ r] disjI2) (simp add: grow_def)
  next
    case False
    then show ?thesis unfolding final_level_def using assms(1)
      by (intro exI [of _ k] exI [of _ j] disjI1) (auto simp: grow_def level_def)
  qed
  show "level n cpus (grow cpus j over N k) (Suc j) (over \<or> \<not> space)"
    if "k = n" and sp: "space \<longleftrightarrow> (\<exists>i<n. j + 1 < unat (cpus ! i))"
  proof (cases over)
    case True
    then obtain r where "\<forall>i<n. N i = unat (cpus ! i) + r" using assms(1) by (auto simp: level_def)
    then show ?thesis using True that(1) by (auto simp: level_def grow_def intro!: exI [of _ "Suc r"])
  next
    case False
    have "\<forall>i<n. grow cpus j over N k i = min (unat (cpus ! i)) (Suc j)"
      using assms(1) False that(1) by (auto simp: grow_def level_def)
    moreover have "\<forall>i<n. min (unat (cpus ! i)) (Suc j) = unat (cpus ! i) + 0" if "\<not> space"
      using sp that by (auto simp: min_def)
    ultimately show ?thesis using False by (auto simp: level_def)
  qed
qed

lemma block_cycle_step:
  assumes "block_inv n tc cpus j over ts tk" and "tk < tc"
    and "block_cycle n tc cpus j over (ts, tk) = (ts', tk', space)"
  shows "block_inv n tc cpus (Suc j) (over \<or> \<not> space) ts' tk' \<and> tk \<le> tk' \<and> tk' \<le> tc \<and>
    (space \<or> over \<longrightarrow> tk < tk')"
proof -
  obtain N where N: "counts n ts N" "tk = (\<Sum>i<n. N i)" "level n cpus N j over" and n: "0 < n"
    using assms(1,2) by (auto simp: block_inv_def)
  obtain k where k: "k \<le> n" "counts n ts' (grow cpus j over N k)" "tk' = (\<Sum>i<n. grow cpus j over N k i)"
      "tk' \<le> tc" "k < n \<Longrightarrow> tk' = tc" "space \<longleftrightarrow> (\<exists>i<k. j + 1 < unat (cpus ! i))"
    using block_cycle_grow [OF assms(3) N(1,2)] assms(2) by (metis less_imp_le)
  have le: "tk \<le> tk'" unfolding N(2) k(3) by (rule sum_mono) (simp add: grow_def)
  have "tk < tk'" if "i < k" "j < unat (cpus ! i) \<or> over" for i
    unfolding N(2) k(3) using that k(1) by (intro sum_strict_mono_ex1) (auto simp: grow_def)
  moreover have "0 < k" using k(5) assms(2) le n N(2) k(3) by (cases k) (auto simp: grow_def)
  ultimately have "tk < tk'" if "space \<or> over" using that k(6) by (metis add_lessD1)
  moreover have "level n cpus (grow cpus j over N k) (Suc j) (over \<or> \<not> space) \<or>
      tk' = tc \<and> final_level n cpus (grow cpus j over N k)"
    using grow_level [OF N(3) k(1)] k(1,5,6) by (cases "k = n") auto
  ultimately show ?thesis using le k n by (auto simp: block_inv_def)
qed

interpretation blk: task_cycles "block_cycle n tc cpus" tc "block_inv n tc cpus"
  for n tc cpus
  by unfold_locales (rule block_cycle_step)

lemma block_inv_init: "0 < n \<Longrightarrow> n \<le> m \<Longrightarrow> block_inv n tc cpus 0 False (replicate m 0) 0"
  by (auto simp: block_inv_def counts_def level_def intro!: exI [of _ "\<lambda>_. 0"])

lemma block_inv_end:
  assumes "block_inv n tc cpus j over ts tc"
  obtains N where "counts n ts N" "tc = (\<Sum>i<n. N i)" "final_level n cpus N"
proof -
  obtain N where N: "counts n ts N" "tc = (\<Sum>i<n. N i)"
      "level n cpus N j over \<or> final_level n cpus N"
    using assms by (auto simp: block_inv_def)
  have "final_level n cpus N" if l: "level n cpus N j over"
  proof (cases over)
    case True
    then obtain r where "\<forall>i<n. N i = unat (cpus ! i) + r" using l by (auto simp: level_def)
    then show ?thesis unfolding final_level_def by (intro exI [of _ 0] exI [of _ r] disjI2) simp
  next
    case False
    then show ?thesis using l unfolding final_level_def
      by (intro exI [of _ 0] exI [of _ j] disjI1) (simp add: level_def)
  qed
  then show thesis using that N by blast
qed

lemma block_cycles_levels:
  assumes "0 < n" and "n \<le> m"
  obtains ts N where "block_cycles n tc cpus (replicate m 0) = Some ts" "counts n ts N"
    "tc = (\<Sum>i<n. N i)" "final_level n cpus N"
proof -
  obtain j over ts where w: "while_option (\<lambda>(j, over, ts, tk). tk < tc)
      (\<lambda>(j, over, ts, tk). let (ts, tk, space) = block_cycle n tc cpus j over (ts, tk)
         in (Suc j, over \<or> \<not> space, ts, tk)) (0, False, replicate m 0, 0) = Some (j, over, ts, tc)"
      "block_inv n tc cpus j over ts tc"
    using blk.cycles_end [OF block_inv_init [OF assms]] by blast
  then have "block_cycles n tc cpus (replicate m 0) = Some ts" by (simp add: block_cycles_def)
  then show thesis using block_inv_end [OF w(2)] that by blast
qed

text \<open>
  What the levels mean for the use of the CPUs: nodes are over-subscribed only when all CPUs
  are in use.
\<close>

definition cpus_first :: "nat \<Rightarrow> u16 list \<Rightarrow> (nat \<Rightarrow> nat) \<Rightarrow> bool" where
  "cpus_first n cpus N \<longleftrightarrow> (\<forall>i<n. N i \<le> unat (cpus ! i)) \<or> (\<forall>i<n. unat (cpus ! i) \<le> N i)"

lemma final_level_cpus_first: "final_level n cpus N \<Longrightarrow> cpus_first n cpus N"
  by (force simp: final_level_def cpus_first_def)

lemma cpus_first_capacity:
  assumes "cpus_first n cpus N" and "i < n"
  shows "(\<Sum>i<n. N i) \<le> (\<Sum>i<n. unat (cpus ! i)) \<Longrightarrow> N i \<le> unat (cpus ! i)"
    and "(\<Sum>i<n. unat (cpus ! i)) \<le> (\<Sum>i<n. N i) \<Longrightarrow> unat (cpus ! i) \<le> N i"
proof -
  have strict: "(\<Sum>i<n. f i) < (\<Sum>i<n. g i)" if "\<forall>i<n. f i \<le> g i" "f i < g i" for f g :: "nat \<Rightarrow> nat"
    using that assms(2) by (intro sum_strict_mono_ex1) auto
  show "(\<Sum>i<n. N i) \<le> (\<Sum>i<n. unat (cpus ! i)) \<Longrightarrow> N i \<le> unat (cpus ! i)"
    using assms strict [of "\<lambda>i. unat (cpus ! i)" N] unfolding cpus_first_def by (meson not_le)
  show "(\<Sum>i<n. unat (cpus ! i)) \<le> (\<Sum>i<n. N i) \<Longrightarrow> unat (cpus ! i) \<le> N i"
    using assms strict [of N "\<lambda>i. unat (cpus ! i)"] unfolding cpus_first_def by (meson not_le)
qed

lemma final_level_even:
  assumes "final_level n cpus N" and "i < n" and "k < n"
  shows "N i < unat (cpus ! i) \<Longrightarrow> N k \<le> Suc (N i)"
    and "unat (cpus ! i) < N i \<Longrightarrow> unat (cpus ! k) \<le> N k \<and> N i - unat (cpus ! i) \<le> Suc (N k - unat (cpus ! k))"
proof -
  obtain c j where "(N i = min (unat (cpus ! i)) (if i < c then Suc j else j) \<and>
        N k = min (unat (cpus ! k)) (if k < c then Suc j else j)) \<or>
      (N i = unat (cpus ! i) + (if i < c then Suc j else j) \<and>
        N k = unat (cpus ! k) + (if k < c then Suc j else j))"
    using assms unfolding final_level_def by blast
  then show "N i < unat (cpus ! i) \<Longrightarrow> N k \<le> Suc (N i)"
    and "unat (cpus ! i) < N i \<Longrightarrow> unat (cpus ! k) \<le> N k \<and> N i - unat (cpus ! i) \<le> Suc (N k - unat (cpus ! k))"
    by (auto split: if_splits)
qed

section \<open>Numbering\<close>

definition node_tids :: "u32 list option list \<Rightarrow> nat \<Rightarrow> u32 list" where
  "node_tids ids i = (case ids ! i of None \<Rightarrow> [] | Some l \<Rightarrow> l)"

text \<open>
  A good layout: every node has as many task ids as \<^verbatim>\<open>tasks\<close> says, in ascending order, and the
  ids of all nodes together are those of the step, each exactly once.
\<close>

definition tids_ok :: "nat \<Rightarrow> nat \<Rightarrow> u16 list \<Rightarrow> u32 list option list \<Rightarrow> bool" where
  "tids_ok n tc ts ids \<longleftrightarrow> n \<le> length ts \<and> n \<le> length ids \<and>
     (\<forall>i<n. length (node_tids ids i) = unat (ts ! i) \<and> sorted_wrt (<) (map unat (node_tids ids i))) \<and>
     mset (concat (map (\<lambda>i. map unat (node_tids ids i)) [0..<n])) = mset [0..<tc]"

definition layout_ok :: "slurm_step_layout \<Rightarrow> bool" where
  "layout_ok sl \<longleftrightarrow>
     (case (tasks sl, tids sl) of
        (Some ts, Some ids) \<Rightarrow> tids_ok (unat (node_cnt sl)) (unat (task_cnt sl)) ts ids
      | _ \<Rightarrow> False)"

lemma number_tasks_upto:
  assumes "n \<le> length ids"
  shows "fold (\<lambda>i (ids, tk). (ids[i := Some (map of_nat [tk..<tk + unat (ts ! i)])], tk + unat (ts ! i))) [0..<n] (ids, 0) =
    (map (\<lambda>i. Some (map of_nat [(\<Sum>k<i. unat (ts ! k))..<(\<Sum>k<Suc i. unat (ts ! k))])) [0..<n] @ drop n ids,
     \<Sum>k<n. unat (ts ! k))"
  using assms
proof (induction n)
  case (Suc n)
  then have "drop n ids = ids ! n # drop (Suc n) ids" by (simp add: Cons_nth_drop_Suc)
  with Suc show ?case by (simp add: list_update_append)
qed simp

lemma unat_of_nat_upt: "b < 2 ^ 32 \<Longrightarrow> map (\<lambda>x. unat (of_nat x :: u32)) [a..<b] = [a..<b]"
  by (rule map_idI) (simp add: unat_of_nat)

lemma concat_blocks: "concat (map (\<lambda>i. [(\<Sum>k<i. f k)..<(\<Sum>k<Suc i. f k)]) [0..<n]) = [0..<(\<Sum>k<n. f k :: nat)]"
proof (induction n)
  case (Suc n)
  have "[0..<(\<Sum>k<n. f k) + f n] = [0..<(\<Sum>k<n. f k)] @ [(\<Sum>k<n. f k)..<(\<Sum>k<n. f k) + f n]"
    by (rule upt_add_eq_append) simp
  then show ?case using Suc by simp
qed simp

lemma number_tasks_ok:
  assumes "n \<le> length ts" and "n \<le> length ids" and "(\<Sum>i<n. unat (ts ! i)) < 2 ^ 32"
  shows "tids_ok n (\<Sum>i<n. unat (ts ! i)) ts (number_tasks n ts ids)"
    and "concat (map (node_tids (number_tasks n ts ids)) [0..<n]) = map of_nat [0..<(\<Sum>i<n. unat (ts ! i))]"
proof -
  let ?S = "\<lambda>i. \<Sum>k<i. unat (ts ! k)"
  have nt: "node_tids (number_tasks n ts ids) i = map of_nat [?S i..<?S (Suc i)]" if "i < n" for i
    using that assms(2) by (simp add: number_tasks_def number_tasks_upto node_tids_def nth_append)
  have S: "?S (Suc i) < 2 ^ 32" if "i < n" for i
  proof -
    have "?S (Suc i) \<le> ?S n" using that by (intro sum_mono2) auto
    then show ?thesis using assms(3) by simp
  qed
  have un: "map unat (node_tids (number_tasks n ts ids) i) = [?S i..<?S (Suc i)]" if "i < n" for i
    using nt [OF that] unat_of_nat_upt [OF S [OF that], of "?S i"] by (simp add: comp_def)
  have "map (\<lambda>i. map unat (node_tids (number_tasks n ts ids) i)) [0..<n] = map (\<lambda>i. [?S i..<?S (Suc i)]) [0..<n]"
    by (rule map_cong [OF refl]) (use un in simp)
  then have "concat (map (\<lambda>i. map unat (node_tids (number_tasks n ts ids) i)) [0..<n]) = [0..<?S n]"
    by (simp only: concat_blocks)
  moreover have "length (number_tasks n ts ids) = length ids"
    using assms(2) by (simp add: number_tasks_def number_tasks_upto)
  ultimately show "tids_ok n (?S n) ts (number_tasks n ts ids)"
    using assms un nt by (auto simp: tids_ok_def sorted_wrt_upt)
  have "map (node_tids (number_tasks n ts ids)) [0..<n] = map (map of_nat) (map (\<lambda>i. [?S i..<?S (Suc i)]) [0..<n])"
    using nt by simp
  then show "concat (map (node_tids (number_tasks n ts ids)) [0..<n]) = map of_nat [0..<?S n]"
    using concat_blocks [of "\<lambda>k. unat (ts ! k)" n] by (simp only: map_concat [symmetric])
qed


section \<open>Block distribution\<close>

text \<open>
  The three passes that pack nodes. Until the third, no node has more tasks than CPUs, so the
  counts do not wrap around.
\<close>

definition packed :: "nat \<Rightarrow> u16 list \<Rightarrow> nat \<Rightarrow> u16 list \<times> nat \<Rightarrow> bool" where
  "packed n cpus tc = (\<lambda>(ts, tk). n \<le> length ts \<and> tk = (\<Sum>i<n. unat (ts ! i)) \<and> tk \<le> tc \<and>
     (\<forall>i<n. ts ! i \<le> cpus ! i))"

lemma unat_Suc_less: "w < (v :: u16) \<Longrightarrow> unat (w + 1) = Suc (unat w)"
proof -
  assume "w < v"
  moreover have "unat v < 65536" using unsigned_less [of v] by simp
  ultimately show ?thesis by (simp add: word_less_nat_alt unat_word_ariths)
qed

lemma packed_bump:
  assumes "packed n cpus tc (ts, tk)" and "i < n" and "ts ! i < cpus ! i" and "tk < tc"
  shows "packed n cpus tc (bump i ts, Suc tk)"
proof -
  have u: "unat (ts ! i + 1) = Suc (unat (ts ! i))" using assms(3) by (rule unat_Suc_less)
  have "(\<Sum>k<n. unat (bump i ts ! k)) = (\<Sum>k<n. unat (ts ! k)) + 1"
    using assms(1,2) u by (intro sum_upd_cong [OF assms(2)]) (auto simp: packed_def bump_def)
  moreover have "ts ! i + 1 \<le> cpus ! i" using assms(3) u by (simp add: word_le_nat_alt word_less_nat_alt)
  ultimately show ?thesis
    using assms by (auto simp: packed_def bump_def nth_list_update)
qed

lemma packed_pass1:
  assumes "packed n cpus tc (ts, tk)" and "\<forall>i<n. ts ! i = 0"
  obtains ts' tk' where "pack_pass1 n tc cpus (ts, tk) = (ts', tk')" "packed n cpus tc (ts', tk')"
    "\<forall>i<n. unat (ts' ! i) \<le> 1"
proof -
  let ?g = "\<lambda>(ts :: u16 list, tk). tk < tc"
  let ?f = "\<lambda>i (ts, tk). if ts ! i < cpus ! i then (bump i ts, Suc tk) else (ts, tk)"
  let ?P = "\<lambda>k (ts, tk). packed n cpus tc (ts, tk) \<and> (\<forall>i<n. unat (ts ! i) \<le> 1) \<and> (\<forall>i<n. k \<le> i \<longrightarrow> ts ! i = 0)"
  have init: "?P 0 (ts, tk)" using assms by simp
  have step: "?P (Suc i) (?f i s)" if "i < n" "?g s" "?P i s" for i s
  proof -
    obtain ts tk where s: "s = (ts, tk)" by (cases s)
    have "ts ! i = 0" using that s by simp
    then show ?thesis using that s packed_bump [of n cpus tc ts tk i]
      by (auto simp: bump_def nth_list_update packed_def)
  qed
  have "\<exists>k\<le>n. ?P k (pack_pass1 n tc cpus (ts, tk)) \<and> (k < n \<longrightarrow> \<not> ?g (pack_pass1 n tc cpus (ts, tk)))"
    using for_while_0 [of ?P "(ts, tk)" n ?g ?f, OF init step] unfolding pack_pass1_def .
  then show thesis using that by (cases "pack_pass1 n tc cpus (ts, tk)") auto
qed

lemma packed_fill:
  assumes "packed n cpus tc (ts, tk)" and "i < n"
  obtains ts' tk' where "fill_node tc (cpus ! i) i (ts, tk) = (ts', tk')" "packed n cpus tc (ts', tk')"
    "tk' < tc \<Longrightarrow> ts' ! i = cpus ! i" "\<And>k. k \<noteq> i \<Longrightarrow> ts' ! k = ts ! k"
proof -
  have "packed n cpus tc (fill_node tc (cpus ! i) i st) \<and>
      (case fill_node tc (cpus ! i) i st of (ts', tk') \<Rightarrow>
        (tk' < tc \<longrightarrow> ts' ! i = cpus ! i) \<and> (\<forall>k. k \<noteq> i \<longrightarrow> ts' ! k = fst st ! k))"
    if "packed n cpus tc st" for st
    using that assms(2)
  proof (induction tc "cpus ! i" i st rule: fill_node.induct)
    case (1 tc i ts tk)
    show ?case
    proof (cases "ts ! i < cpus ! i \<and> tk < tc")
      case True
      then have "fill_node tc (cpus ! i) i (ts, tk) = fill_node tc (cpus ! i) i (bump i ts, Suc tk)"
        by (subst fill_node.simps) simp
      moreover have "packed n cpus tc (bump i ts, Suc tk)"
        using packed_bump [OF 1(2,3)] True by simp
      ultimately show ?thesis using 1(1) [OF True _ 1(3)] by (auto simp: bump_def)
    next
      case False
      then have "fill_node tc (cpus ! i) i (ts, tk) = (ts, tk)" by (subst fill_node.simps) auto
      then show ?thesis using 1(2,3) False by (auto simp: packed_def intro: antisym)
    qed
  qed
  from this [OF assms(1)] show thesis using that by (cases "fill_node tc (cpus ! i) i (ts, tk)") auto
qed

text \<open>
  After the second pass all nodes before some node \<open>p\<close> are full and the nodes after it have at
  most the one task of the first pass; if tasks are left, all nodes are full.
\<close>

definition filled :: "nat \<Rightarrow> u16 list \<Rightarrow> nat \<Rightarrow> nat \<Rightarrow> u16 list \<Rightarrow> bool" where
  "filled n cpus k p ts \<longleftrightarrow> p \<le> k \<and> (\<forall>i<n. i < p \<longrightarrow> ts ! i = cpus ! i) \<and> (\<forall>i<n. p < i \<longrightarrow> unat (ts ! i) \<le> 1)"

lemma packed_pass2:
  assumes "packed n cpus tc (ts, tk)" and "\<forall>i<n. unat (ts ! i) \<le> 1"
  obtains ts' tk' p where "pack_pass2 n tc cpus (ts, tk) = (ts', tk')" "packed n cpus tc (ts', tk')"
    "filled n cpus n p ts'" "tk' < tc \<Longrightarrow> p = n"
proof -
  let ?g = "\<lambda>(ts :: u16 list, tk). tk < tc"
  let ?f = "\<lambda>i. fill_node tc (cpus ! i) i"
  let ?P = "\<lambda>k (ts, tk). packed n cpus tc (ts, tk) \<and> (\<forall>i<n. k \<le> i \<longrightarrow> unat (ts ! i) \<le> 1) \<and>
    (\<exists>p. filled n cpus k p ts \<and> (tk < tc \<longrightarrow> p = k))"
  have init: "?P 0 (ts, tk)" using assms by (auto simp: filled_def)
  have step: "?P (Suc i) (?f i s)" if i: "i < n" and g: "?g s" and P: "?P i s" for i s
  proof -
    obtain ts tk where s: "s = (ts, tk)" by (cases s)
    obtain ts' tk' where f: "?f i s = (ts', tk')" "packed n cpus tc (ts', tk')"
        "tk' < tc \<Longrightarrow> ts' ! i = cpus ! i" "\<And>k. k \<noteq> i \<Longrightarrow> ts' ! k = ts ! k"
      using packed_fill [of n cpus tc ts tk i] P i s by auto
    have one: "\<forall>k<n. i \<le> k \<longrightarrow> unat (ts ! k) \<le> 1" and full: "\<forall>k<n. k < i \<longrightarrow> ts ! k = cpus ! k"
      using P g s by (auto simp: filled_def)
    have "filled n cpus (Suc i) (if tk' < tc then Suc i else i) ts'"
      using one full f(3,4) by (auto simp: filled_def less_Suc_eq)
    then show ?thesis unfolding f(1) using f(2,4) one by (auto intro!: exI [of _ "if tk' < tc then Suc i else i"])
  qed
  have "\<exists>k\<le>n. ?P k (pack_pass2 n tc cpus (ts, tk)) \<and> (k < n \<longrightarrow> \<not> ?g (pack_pass2 n tc cpus (ts, tk)))"
    using for_while_0 [of ?P "(ts, tk)" n ?g ?f, OF init step] unfolding pack_pass2_def .
  then obtain k p ts' tk' where r: "pack_pass2 n tc cpus (ts, tk) = (ts', tk')" "k \<le> n"
      "packed n cpus tc (ts', tk')" "filled n cpus k p ts'" "tk' < tc \<longrightarrow> p = k" "k < n \<longrightarrow> \<not> tk' < tc"
    by (cases "pack_pass2 n tc cpus (ts, tk)") auto
  have "filled n cpus n p ts'" using r(2,4) by (auto simp: filled_def)
  moreover have "tk' < tc \<longrightarrow> p = n" using r(2,5,6) by auto
  ultimately show thesis using that r(1,3) by blast
qed

text \<open>The third pass is the over-subscribing cycle of the other branch.\<close>

lemma pass3_cycle:
  "for_while [0..<n] (\<lambda>(ts, tk). tk < tc) (\<lambda>i (ts, tk). (bump i ts, Suc tk)) (ts, tk) =
     (case block_cycle n tc cpus 0 True (ts, tk) of (ts', tk', space) \<Rightarrow> (ts', tk'))"
  unfolding block_cycle_def prod.case
  using for_while_sim [of "\<lambda>(ts, tk). tk < tc" "\<lambda>(ts, tk, space). (ts, tk)" "\<lambda>(ts, tk, space). tk < tc"
      "\<lambda>i (ts, tk). (bump i ts, Suc tk)" "\<lambda>i (ts, tk, space).
          if 0 < unat (cpus ! i) \<or> True
          then (bump i ts, Suc tk, space \<or> 0 + 1 < unat (cpus ! i)) else (ts, tk, space)" "[0..<n]" "(ts, tk, False)"]
  by auto

lemma pass3_levels:
  assumes "block_inv n tc cpus 0 True ts tk" and "tk \<le> tc"
  obtains ts' N where "pack_pass3 n tc (ts, tk) = Some (ts', tc)" "counts n ts' N" "tc = (\<Sum>i<n. N i)"
    "final_level n cpus N"
proof -
  let ?b = "\<lambda>(ts :: u16 list, tk). tk < tc"
  let ?c = "for_while [0..<n] (\<lambda>(ts, tk). tk < tc) (\<lambda>i (ts, tk). (bump i ts, Suc tk))"
  let ?P = "\<lambda>(ts, tk). \<exists>j. block_inv n tc cpus j True ts tk \<and> tk \<le> tc"
  let ?m = "\<lambda>(ts :: u16 list, tk). tc - tk"
  have step: "?P (?c st) \<and> ?m (?c st) < ?m st" if "?P st" "?b st" for st
  proof -
    obtain ts tk where st: "st = (ts, tk)" by (cases st)
    obtain ts' tk' space where c: "block_cycle n tc cpus 0 True (ts, tk) = (ts', tk', space)"
      by (cases "block_cycle n tc cpus 0 True (ts, tk)")
    have "block_inv n tc cpus 0 True ts tk" using that st by (auto simp: block_inv_def level_def)
    from block_cycle_step [OF this _ c] show ?thesis using that st c pass3_cycle [of n tc ts tk cpus] by auto
  qed
  have P: "?P (ts, tk)" using assms by auto
  then obtain t where t: "while_option ?b ?c (ts, tk) = Some t"
    using measure_while_option_Some [of ?P ?b ?c ?m] step by blast
  have "?P t" by (rule while_option_rule [where P = ?P, OF _ t P], rule conjunct1, rule step)
  moreover have "\<not> ?b t" using while_option_stop [OF t] .
  ultimately obtain ts' j where e: "t = (ts', tc)" "block_inv n tc cpus j True ts' tc" by (cases t) auto
  have "pack_pass3 n tc (ts, tk) = Some (ts', tc)" using t unfolding pack_pass3_def e(1) .
  then show thesis using block_inv_end [OF e(2)] that by blast
qed

lemma pack_counts:
  assumes "0 < n" and "n \<le> m"
  obtains ts N where
    "map_option fst (pack_pass3 n tc (pack_pass2 n tc cpus (pack_pass1 n tc cpus (replicate m 0, 0)))) = Some ts"
    "counts n ts N" "tc = (\<Sum>i<n. N i)" "cpus_first n cpus N"
    "tc \<le> (\<Sum>i<n. unat (cpus ! i)) \<Longrightarrow> \<exists>p. filled n cpus n p ts"
proof -
  have "packed n cpus tc (replicate m 0, 0)" using assms(2) by (simp add: packed_def)
  then obtain ts1 tk1 where 1: "pack_pass1 n tc cpus (replicate m 0, 0) = (ts1, tk1)"
      "packed n cpus tc (ts1, tk1)" "\<forall>i<n. unat (ts1 ! i) \<le> 1"
    using packed_pass1 [of n cpus tc "replicate m 0" 0] assms(2) by auto
  obtain ts2 tk2 p where 2: "pack_pass2 n tc cpus (ts1, tk1) = (ts2, tk2)"
      "packed n cpus tc (ts2, tk2)" "filled n cpus n p ts2" "tk2 < tc \<Longrightarrow> p = n"
    using packed_pass2 [OF 1(2,3)] by blast
  have c2: "counts n ts2 (\<lambda>i. unat (ts2 ! i))" "tk2 = (\<Sum>i<n. unat (ts2 ! i))" "tk2 \<le> tc"
      "\<forall>i<n. unat (ts2 ! i) \<le> unat (cpus ! i)"
    using 2(2) by (auto simp: packed_def counts_def word_le_nat_alt)
  show thesis
  proof (cases "tk2 < tc")
    case True
    have full: "\<forall>i<n. unat (ts2 ! i) = unat (cpus ! i)" using 2(3) 2(4) [OF True] by (simp add: filled_def)
    then have "block_inv n tc cpus 0 True ts2 tk2"
      using assms(1) c2(1,2) by (auto simp: block_inv_def level_def intro!: exI [of _ "\<lambda>i. unat (ts2 ! i)"] exI [of _ 0])
    then obtain ts' N where 3: "pack_pass3 n tc (ts2, tk2) = Some (ts', tc)" "counts n ts' N"
        "tc = (\<Sum>i<n. N i)" "final_level n cpus N"
      using pass3_levels c2(3) by blast
    have "(\<Sum>i<n. unat (cpus ! i)) = tk2" using full c2(2) by simp
    then have no: "\<not> tc \<le> (\<Sum>i<n. unat (cpus ! i))" using True by simp
    show thesis
      by (rule that [OF _ 3(2,3) final_level_cpus_first [OF 3(4)]]) (use no 1(1) 2(1) 3(1) in simp_all)
  next
    case False
    then have e: "pack_pass3 n tc (ts2, tk2) = Some (ts2, tk2)"
      by (simp add: pack_pass3_def while_option_unfold)
    have tc: "tc = (\<Sum>i<n. unat (ts2 ! i))" using False c2(2,3) by simp
    show thesis
      by (rule that [OF _ c2(1) tc]) (use 1(1) 2(1,3) e c2(4) in \<open>auto simp: cpus_first_def\<close>)
  qed
qed

definition packs_nodes :: "u16 \<Rightarrow> slurm_step_layout \<Rightarrow> bool" where
  "packs_nodes select_params sl \<longleftrightarrow>
     task_dist sl AND SLURM_DIST_PACK_NODES \<noteq> 0 \<or>
     task_dist sl AND SLURM_DIST_NO_PACK_NODES = 0 \<and> select_params AND CR_PACK_NODES \<noteq> 0"

text \<open>A layout whose arrays have just been allocated.\<close>

definition fresh :: "slurm_step_layout \<Rightarrow> bool" where
  "fresh sl \<longleftrightarrow> (\<exists>m \<ge> unat (node_cnt sl). tasks sl = Some (replicate m 0) \<and> tids sl = Some (replicate m None)) \<and>
     0 < node_cnt sl"

lemma freshE:
  assumes "fresh sl"
  obtains m where "0 < unat (node_cnt sl)" "unat (node_cnt sl) \<le> m"
    "tasks sl = Some (replicate m 0)" "tids sl = Some (replicate m None)"
  using assms by (auto simp: fresh_def unat_gt_0 word_neq_0_conv [symmetric])

lemma counts_below:
  assumes "counts n ts N" and "(\<Sum>i<n. N i) < 65536"
  shows "i < n \<Longrightarrow> unat (ts ! i) = N i" and "(\<Sum>i<n. unat (ts ! i)) = (\<Sum>i<n. N i)"
proof -
  show u: "unat (ts ! i) = N i" if "i < n" for i
    using counts_unat [OF assms(1) that] le_sum_nat [OF that, of N] assms(2) by simp
  show "(\<Sum>i<n. unat (ts ! i)) = (\<Sum>i<n. N i)" using u by simp
qed

lemma block_layout:
  assumes "fresh sl" and "unat (task_cnt sl) < 65536"
  obtains ts ids N where
    "task_layout_block select_params sl cpus = Some (SLURM_SUCCESS, sl\<lparr>tasks := Some ts, tids := Some ids\<rparr>)"
    "tids_ok (unat (node_cnt sl)) (unat (task_cnt sl)) ts ids"
    "concat (map (node_tids ids) [0..<unat (node_cnt sl)]) = map of_nat [0..<unat (task_cnt sl)]"
    "counts (unat (node_cnt sl)) ts N" "unat (task_cnt sl) = (\<Sum>i<unat (node_cnt sl). N i)"
    "cpus_first (unat (node_cnt sl)) cpus N"
    "\<not> packs_nodes select_params sl \<Longrightarrow> final_level (unat (node_cnt sl)) cpus N"
    "packs_nodes select_params sl \<Longrightarrow> unat (task_cnt sl) \<le> (\<Sum>i<unat (node_cnt sl). unat (cpus ! i)) \<Longrightarrow>
       \<exists>p. filled (unat (node_cnt sl)) cpus (unat (node_cnt sl)) p ts"
proof -
  let ?n = "unat (node_cnt sl)" and ?tc = "unat (task_cnt sl)"
  obtain m where m: "0 < ?n" "?n \<le> m" "tasks sl = Some (replicate m 0)" "tids sl = Some (replicate m None)"
    using assms(1) by (rule freshE)
  obtain ts N where ts: "(if packs_nodes select_params sl
      then map_option fst (pack_pass3 ?n ?tc (pack_pass2 ?n ?tc cpus (pack_pass1 ?n ?tc cpus (replicate m 0, 0))))
      else block_cycles ?n ?tc cpus (replicate m 0)) = Some ts" "counts ?n ts N" "?tc = (\<Sum>i<?n. N i)"
    "cpus_first ?n cpus N" "\<not> packs_nodes select_params sl \<Longrightarrow> final_level ?n cpus N"
    "packs_nodes select_params sl \<Longrightarrow> ?tc \<le> (\<Sum>i<?n. unat (cpus ! i)) \<Longrightarrow> \<exists>p. filled ?n cpus ?n p ts"
  proof (cases "packs_nodes select_params sl")
    case True
    then show thesis using pack_counts [OF m(1,2), of ?tc cpus] that by (metis (no_types, lifting))
  next
    case False
    then show thesis using block_cycles_levels [OF m(1,2), of ?tc cpus] that final_level_cpus_first
      by (metis (no_types, lifting))
  qed
  have len: "?n \<le> length ts" using ts(2) by (simp add: counts_def)
  have sum: "(\<Sum>i<?n. unat (ts ! i)) = ?tc" using counts_below(2) [OF ts(2)] ts(3) assms(2) by simp
  have pn: "(if task_dist sl AND SLURM_DIST_PACK_NODES \<noteq> 0 then True
      else if task_dist sl AND SLURM_DIST_NO_PACK_NODES \<noteq> 0 then False
      else select_params AND CR_PACK_NODES \<noteq> 0) = packs_nodes select_params sl"
    by (simp add: packs_nodes_def)
  have "task_layout_block select_params sl cpus =
      Some (SLURM_SUCCESS, sl\<lparr>tasks := Some ts, tids := Some (number_tasks ?n ts (replicate m None))\<rparr>)"
    by (simp only: task_layout_block_def m(3,4) Let_def pn Option.bind.simps ts(1))
  then show thesis
    using ts(5,6) number_tasks_ok [OF len, of "replicate m None"] m(2) sum assms(2)
    by (intro that [OF _ _ _ ts(2-4)]) simp_all
qed


section \<open>Cyclic distribution\<close>

text \<open>The counts of a cycle are those of the block distribution.\<close>

definition drop_ids :: "(u16 list \<times> 'i) \<times> nat \<times> bool \<Rightarrow> u16 list \<times> nat \<times> bool" where
  "drop_ids = (\<lambda>((ts, ids), tk, space). (ts, tk, space))"

lemma cyclic_block_cycle:
  "block_cycle n tc cpus j over (ts, tk) = drop_ids (cyclic_cycle n tc cpus j over ((ts, ids), tk))"
  unfolding block_cycle_def cyclic_cycle_def prod.case
  by (subst for_while_sim [of _ drop_ids, symmetric]) (auto simp: drop_ids_def)

text \<open>The ids handed out so far.\<close>

definition ids_inv :: "nat \<Rightarrow> u16 list \<Rightarrow> u32 list option list \<Rightarrow> nat \<Rightarrow> bool" where
  "ids_inv n ts ids tk \<longleftrightarrow> n \<le> length ts \<and> n \<le> length ids \<and>
     (\<forall>i<n. length (node_tids ids i) = unat (ts ! i) \<and> sorted_wrt (<) (map unat (node_tids ids i)) \<and>
        (\<forall>x \<in> set (node_tids ids i). unat x < tk)) \<and>
     (\<Sum>i<n. mset (map unat (node_tids ids i))) = mset [0..<tk]"

lemma ids_inv_bound:
  assumes "ids_inv n ts ids tk" and "i < n"
  shows "unat (ts ! i) \<le> tk"
proof -
  have "size (\<Sum>i<n. mset (map unat (node_tids ids i))) = tk" using assms(1) by (simp add: ids_inv_def)
  then have "(\<Sum>i<n. length (node_tids ids i)) = tk" by (simp add: size_multiset_sum)
  then show ?thesis using le_sum_nat [OF assms(2), of "\<lambda>i. length (node_tids ids i)"] assms by (simp add: ids_inv_def)
qed

lemma xrealloc_append:
  assumes "length (case p of None \<Rightarrow> [] | Some l \<Rightarrow> l) = k"
  shows "(xrealloc p (k + 1))[k := x] = (case p of None \<Rightarrow> [] | Some l \<Rightarrow> l) @ [x]"
  using assms by (auto simp: xrealloc_def Let_def list_update_append split: option.splits)

lemma ids_inv_append:
  assumes "ids_inv n ts ids tk" and "i < n" and "tk < 65535"
  shows "ids_inv n (bump i ts)
    (ids[i := Some ((xrealloc (ids ! i) (unat (ts ! i) + 1))[unat (ts ! i) := of_nat tk])]) (Suc tk)"
proof -
  let ?ids = "ids[i := Some ((xrealloc (ids ! i) (unat (ts ! i) + 1))[unat (ts ! i) := of_nat tk])]"
  have len: "length (node_tids ids i) = unat (ts ! i)" "n \<le> length ts" "n \<le> length ids"
    using assms(1,2) by (auto simp: ids_inv_def)
  have new: "node_tids ?ids k = (if k = i then node_tids ids i @ [of_nat tk] else node_tids ids k)" if "k < n" for k
    using that len assms(2) xrealloc_append [of "ids ! i" "unat (ts ! i)"]
    by (auto simp: node_tids_def nth_list_update)
  have u: "unat (of_nat tk :: u32) = tk" using assms(3) by (simp add: unat_of_nat)
  have b: "unat (bump i ts ! k) = (if k = i then Suc (unat (ts ! i)) else unat (ts ! k))" if "k < n" for k
    using that len(2) assms(2,3) ids_inv_bound [OF assms(1,2)]
    by (auto simp: bump_def nth_list_update unat_word_ariths)
  have "(\<Sum>k<n. mset (map unat (node_tids ?ids k))) = (\<Sum>k<n. mset (map unat (node_tids ids k))) + {#tk#}"
    using new u assms(2) by (intro sum_upd_cong) auto
  then have "(\<Sum>k<n. mset (map unat (node_tids ?ids k))) = mset [0..<Suc tk]"
    using assms(1) by (simp add: ids_inv_def)
  then show ?thesis
    using assms(1) new b u len
    by (auto simp: ids_inv_def bump_def sorted_wrt_append less_Suc_eq)
qed

definition cyclic_inv :: "nat \<Rightarrow> nat \<Rightarrow> u16 list \<Rightarrow> nat \<Rightarrow> bool \<Rightarrow> u16 list \<times> u32 list option list \<Rightarrow> nat \<Rightarrow> bool" where
  "cyclic_inv n tc cpus j over = (\<lambda>(ts, ids) tk.
     block_inv n tc cpus j over ts tk \<and> ids_inv n ts ids tk \<and> tc < 65536)"

lemma cyclic_cycle_ids:
  assumes "ids_inv n ts ids tk" and "tc < 65536"
    and "cyclic_cycle n tc cpus j over ((ts, ids), tk) = ((ts', ids'), tk', space)"
  shows "ids_inv n ts' ids' tk'"
proof -
  let ?P = "\<lambda>((ts, ids), tk, space :: bool). ids_inv n ts ids tk"
  have "?P (cyclic_cycle n tc cpus j over ((ts, ids), tk))"
    unfolding cyclic_cycle_def prod.case
    by (rule for_while_inv [where P = ?P])
       (use assms(1,2) ids_inv_append [of n] in \<open>auto split: if_splits\<close>)
  then show ?thesis using assms(3) by simp
qed

lemma cyclic_cycle_step:
  assumes "cyclic_inv n tc cpus j over st tk" and "tk < tc"
    and "cyclic_cycle n tc cpus j over (st, tk) = (st', tk', space)"
  shows "cyclic_inv n tc cpus (Suc j) (over \<or> \<not> space) st' tk' \<and> tk \<le> tk' \<and> tk' \<le> tc \<and>
    (space \<or> over \<longrightarrow> tk < tk')"
proof -
  obtain ts ids ts' ids' where st: "st = (ts, ids)" "st' = (ts', ids')" by (cases st; cases st')
  have "block_cycle n tc cpus j over (ts, tk) = (ts', tk', space)"
    using cyclic_block_cycle [of n tc cpus j over ts tk ids] assms(3) st by (simp add: drop_ids_def)
  then show ?thesis
    using block_cycle_step [of n tc cpus j over ts tk ts' tk' space] assms st
      cyclic_cycle_ids [of n ts ids tk tc cpus j over ts' ids' tk' space]
    by (simp add: cyclic_inv_def)
qed

interpretation cyc: task_cycles "cyclic_cycle n tc cpus" tc "cyclic_inv n tc cpus"
  for n tc cpus
  by unfold_locales (rule cyclic_cycle_step)

lemma ids_inv_tids_ok: "ids_inv n ts ids tc \<Longrightarrow> tids_ok n tc ts ids"
  by (simp add: ids_inv_def tids_ok_def mset_concat_upt)

lemma ids_inv_init: "n \<le> m \<Longrightarrow> ids_inv n (replicate m 0) (replicate m None) 0"
  by (simp add: ids_inv_def node_tids_def)

abbreviation cyclic_loop where
  "cyclic_loop n tc cpus ts0 ids0 \<equiv>
     while_option (\<lambda>(j, over, st, tk). tk < tc)
       (\<lambda>(j, over, st, tk). let (st, tk, space) = cyclic_cycle n tc cpus j over (st, tk)
          in (Suc j, over \<or> \<not> space, st, tk))
       (0, False, (ts0, ids0), 0)"

lemma block_cycles_cyclic:
  "block_cycles n tc cpus ts0 = map_option (\<lambda>(j, over, (ts, ids), tk). ts) (cyclic_loop n tc cpus ts0 ids0)"
proof -
  let ?h = "\<lambda>(j :: nat, over :: bool, (ts :: u16 list, ids :: u32 list option list), tk :: nat). (j, over, ts, tk)"
  have "map_option ?h (cyclic_loop n tc cpus ts0 ids0) =
      while_option (\<lambda>(j, over, ts, tk). tk < tc)
        (\<lambda>(j, over, ts, tk). let (ts, tk, space) = block_cycle n tc cpus j over (ts, tk)
           in (Suc j, over \<or> \<not> space, ts, tk)) (?h (0, False, (ts0, ids0), 0))"
    (is "_ = while_option ?b ?c _")
  proof (rule while_option_commute)
    fix s :: "nat \<times> bool \<times> (u16 list \<times> u32 list option list) \<times> nat"
    obtain j over ts ids tk where s: "s = (j, over, (ts, ids), tk)" by (metis prod.exhaust)
    show "(case s of (j, over, st, tk) \<Rightarrow> tk < tc) = ?b (?h s)" by (simp add: s)
    obtain ts' ids' tk' space where c: "cyclic_cycle n tc cpus j over ((ts, ids), tk) = ((ts', ids'), tk', space)"
      by (metis prod.exhaust)
    then have "block_cycle n tc cpus j over (ts, tk) = (ts', tk', space)"
      using cyclic_block_cycle [of n tc cpus j over ts tk ids] by (simp add: drop_ids_def)
    then show "?h (case s of (j, over, st, tk) \<Rightarrow> let (st, tk, space) = cyclic_cycle n tc cpus j over (st, tk)
        in (Suc j, over \<or> \<not> space, st, tk)) = ?c (?h s)"
      by (simp add: s c)
  qed
  then show ?thesis
    unfolding block_cycles_def prod.case by (auto simp: option.map_comp comp_def split_def dest: sym)
qed

lemma cyclic_layout:
  assumes "fresh sl" and "unat (task_cnt sl) < 65536"
  obtains ts ids N where
    "task_layout_cyclic sl cpus = Some (SLURM_SUCCESS, sl\<lparr>tasks := Some ts, tids := Some ids\<rparr>)"
    "tids_ok (unat (node_cnt sl)) (unat (task_cnt sl)) ts ids"
    "counts (unat (node_cnt sl)) ts N" "unat (task_cnt sl) = (\<Sum>i<unat (node_cnt sl). N i)"
    "final_level (unat (node_cnt sl)) cpus N"
proof -
  let ?n = "unat (node_cnt sl)" and ?tc = "unat (task_cnt sl)"
  obtain m where m: "0 < ?n" "?n \<le> m" "tasks sl = Some (replicate m 0)" "tids sl = Some (replicate m None)"
    using assms(1) by (rule freshE)
  have init: "cyclic_inv ?n ?tc cpus 0 False (replicate m 0, replicate m None) 0"
    using block_inv_init [OF m(1,2)] ids_inv_init [OF m(2)] assms(2) by (simp add: cyclic_inv_def)
  obtain j over st where w: "cyclic_loop ?n ?tc cpus (replicate m 0) (replicate m None) = Some (j, over, st, ?tc)"
      "cyclic_inv ?n ?tc cpus j over st ?tc"
    using cyc.cycles_end [OF init] by blast
  obtain ts ids where st: "st = (ts, ids)" by (cases st)
  have "task_layout_cyclic sl cpus = Some (SLURM_SUCCESS, sl\<lparr>tasks := Some ts, tids := Some ids\<rparr>)"
    using w(1) m(3,4) by (simp add: task_layout_cyclic_def Let_def st)
  moreover have "block_inv ?n ?tc cpus j over ts ?tc" "ids_inv ?n ts ids ?tc"
    using w(2) by (simp_all add: cyclic_inv_def st)
  ultimately show thesis using block_inv_end ids_inv_tids_ok that by metis
qed

lemma cyclic_counts_block:
  assumes "task_layout_cyclic sl cpus = Some (r, sl\<lparr>tasks := Some ts, tids := Some ids\<rparr>)"
    and "\<not> packs_nodes select_params sl"
  shows "\<exists>ids'. task_layout_block select_params sl cpus =
    Some (SLURM_SUCCESS, sl\<lparr>tasks := Some ts, tids := Some ids'\<rparr>)"
proof -
  obtain ts0 ids0 where z: "tasks sl = Some ts0" "tids sl = Some ids0"
    using assms(1) by (cases "tasks sl"; cases "tids sl") (auto simp: task_layout_cyclic_def)
  obtain j over ts1 ids1 tk where w:
      "cyclic_loop (unat (node_cnt sl)) (unat (task_cnt sl)) cpus ts0 ids0 = Some (j, over, (ts1, ids1), tk)"
      "sl\<lparr>tasks := Some ts1, tids := Some ids1\<rparr> = sl\<lparr>tasks := Some ts, tids := Some ids\<rparr>"
    using assms(1) z by (cases "cyclic_loop (unat (node_cnt sl)) (unat (task_cnt sl)) cpus ts0 ids0")
      (auto simp: task_layout_cyclic_def Let_def)
  have "ts1 = ts" using arg_cong [OF w(2), of tasks] by simp
  then have "block_cycles (unat (node_cnt sl)) (unat (task_cnt sl)) cpus ts0 = Some ts"
    using w(1) block_cycles_cyclic [of _ _ _ ts0 ids0] by simp
  then have "task_layout_block select_params sl cpus = Some (SLURM_SUCCESS,
      sl\<lparr>tasks := Some ts, tids := Some (number_tasks (unat (node_cnt sl)) ts ids0)\<rparr>)"
    using z assms(2) by (simp add: task_layout_block_def packs_nodes_def Let_def)
  then show ?thesis by blast
qed

end
