(* ===== verification/Step_Layout_Plane.thy ===== *)
theory Step_Layout_Plane
  imports Step_Layout_Dist
begin

text \<open>
  The plane distribution: the numbers of tasks, and the assignment of blocks of
  \<^verbatim>\<open>plane_size\<close> consecutive task ids.
\<close>

section \<open>Counts below the 16-bit limit\<close>

definition sums_to :: "nat \<Rightarrow> u16 list \<Rightarrow> nat \<Rightarrow> bool" where
  "sums_to n ts tk \<longleftrightarrow> n \<le> length ts \<and> tk = (\<Sum>i<n. unat (ts ! i))"

lemma sums_to_le: "sums_to n ts tk \<Longrightarrow> i < n \<Longrightarrow> unat (ts ! i) \<le> tk"
  using le_sum_nat [of i n "\<lambda>i. unat (ts ! i)"] by (simp add: sums_to_def)

lemma unat_bump:
  assumes "sums_to n ts tk" and "i < n" and "tk < 65535"
  shows "unat (bump i ts ! k) = (if k = i then Suc (unat (ts ! i)) else unat (ts ! k))"
  using assms sums_to_le [OF assms(1,2)]
  by (auto simp: bump_def nth_list_update sums_to_def unat_word_ariths)

lemma sums_to_bump:
  assumes "sums_to n ts tk" and "i < n" and "tk < 65535"
  shows "sums_to n (bump i ts) (Suc tk)"
proof -
  have "(\<Sum>k<n. unat (bump i ts ! k)) = (\<Sum>k<n. unat (ts ! k)) + 1"
    using unat_bump [OF assms] by (intro sum_upd_cong [OF assms(2)]) auto
  then show ?thesis using assms(1) by (simp add: sums_to_def bump_def)
qed


section \<open>Numbers of tasks\<close>

lemma plane_first_ones:
  assumes "sums_to n ts 0" and "tc < 65536"
  obtains ts' tk' where "plane_first n tc (ts, 0) = (ts', tk')" "sums_to n ts' tk'" "tk' \<le> tc"
    "\<forall>i<n. unat (ts' ! i) \<le> 1" "0 < n \<Longrightarrow> 0 < tc \<Longrightarrow> 0 < tk'"
proof -
  let ?g = "\<lambda>(ts :: u16 list, tk). tk < tc"
  let ?f = "\<lambda>i (ts, tk). (bump i ts, Suc tk)"
  let ?P = "\<lambda>k (ts, tk). sums_to n ts tk \<and> tk \<le> tc \<and> tk = k \<and> (\<forall>i<n. unat (ts ! i) \<le> 1) \<and>
    (\<forall>i<n. k \<le> i \<longrightarrow> unat (ts ! i) = 0)"
  have init: "?P 0 (ts, 0)" using assms by (auto simp: sums_to_def)
  have step: "?P (Suc i) (?f i s)" if "i < n" "?g s" "?P i s" for i s
  proof -
    obtain ts tk where s: "s = (ts, tk)" by (cases s)
    have "sums_to n ts tk" "tk < 65535" using that s assms(2) by auto
    from sums_to_bump [OF this(1) that(1) this(2)] unat_bump [OF this(1) that(1) this(2)]
    show ?thesis using that s by auto
  qed
  have "\<exists>k\<le>n. ?P k (plane_first n tc (ts, 0)) \<and> (k < n \<longrightarrow> \<not> ?g (plane_first n tc (ts, 0)))"
    using for_while_0 [of ?P "(ts, 0)" n ?g ?f, OF init step] unfolding plane_first_def .
  then obtain k ts' where r: "plane_first n tc (ts, 0) = (ts', k)" "sums_to n ts' k" "k \<le> tc" "k \<le> n"
      "\<forall>i<n. unat (ts' ! i) \<le> 1" "k < n \<longrightarrow> \<not> k < tc"
    by (cases "plane_first n tc (ts, 0)") auto
  have "0 < k" if "0 < n" "0 < tc" using r(6) that by (cases k) auto
  then show thesis using that r by blast
qed

lemma space_test: "(int (unat (c :: u16)) - (int (unat t) + 1) \<ge> 0) = (t < c)"
  unfolding word_less_nat_alt by linarith

text \<open>The tasks one cycle gives to one node.\<close>

lemma plane_node_step:
  assumes "sums_to n ts tk" and "tk \<le> tc" and "tc < 65536" and "i < n"
    and "plane_node start plane tc cpus over i (ts, tk, sp) = (ts', tk', sp')"
  shows "sums_to n ts' tk'" and "tk \<le> tk'" and "tk' \<le> tc" and "\<And>k. k \<noteq> i \<Longrightarrow> ts' ! k = ts ! k"
    and "sp \<Longrightarrow> sp'" and "sp' \<Longrightarrow> sp \<or> tk < tk'"
    and "over \<Longrightarrow> start < plane \<Longrightarrow> tk < tc \<Longrightarrow> tk < tk'"
    and "\<not> over \<Longrightarrow> ts ! i \<le> cpus ! i \<Longrightarrow> ts' ! i \<le> cpus ! i"
    and "\<not> over \<Longrightarrow> ts ! i \<le> cpus ! i \<Longrightarrow> start < plane \<Longrightarrow> ts' ! i < cpus ! i \<Longrightarrow> tk' < tc \<Longrightarrow> sp'"
    and "ts ! i \<le> ts' ! i"
proof -
  let ?g = "\<lambda>(ts :: u16 list, tk, sp :: bool). tk < tc"
  let ?f = "\<lambda>k (ts, tk, sp). if cpus ! i \<noteq> ts ! i \<or> over
    then (let ts = bump i ts in (ts, Suc tk, sp \<or> int (unat (cpus ! i)) - (int (unat (ts ! i)) + 1) \<ge> 0))
    else (ts, tk, sp)"
  let ?P = "\<lambda>k (ts', tk', sp'). sums_to n ts' tk' \<and> tk \<le> tk' \<and> tk' \<le> tc \<and> (\<forall>k. k \<noteq> i \<longrightarrow> ts' ! k = ts ! k) \<and>
    (sp \<longrightarrow> sp') \<and> (sp' \<longrightarrow> sp \<or> tk < tk') \<and> (over \<longrightarrow> start < k \<longrightarrow> tk < tk') \<and> ts ! i \<le> ts' ! i \<and>
    (\<not> over \<longrightarrow> ts ! i \<le> cpus ! i \<longrightarrow>
       ts' ! i \<le> cpus ! i \<and> (start < k \<longrightarrow> ts' ! i < cpus ! i \<longrightarrow> sp'))"
  have step: "?P (Suc k) (?f k s)" if "?g s" "?P k s" for k s
  proof -
    obtain ts1 tk1 sp1 where s: "s = (ts1, tk1, sp1)" by (cases s)
    have t1: "sums_to n ts1 tk1" and "tk1 < 65535" using that s assms(3) by auto
    then have b: "sums_to n (bump i ts1) (Suc tk1)" "unat (bump i ts1 ! i) = Suc (unat (ts1 ! i))"
      using sums_to_bump [OF _ assms(4)] unat_bump [OF _ assms(4)] by auto
    have o: "\<forall>k. k \<noteq> i \<longrightarrow> bump i ts1 ! k = ts1 ! k" by (simp add: bump_def)
    have f: "?f k s = (if cpus ! i \<noteq> ts1 ! i \<or> over then (bump i ts1, Suc tk1, sp1 \<or> bump i ts1 ! i < cpus ! i)
        else (ts1, tk1, sp1))"
      by (simp only: s prod.case Let_def space_test)
    show ?thesis
    proof (cases "cpus ! i \<noteq> ts1 ! i \<or> over")
      case True
      have "bump i ts1 ! i \<le> cpus ! i" if "\<not> over" "ts1 ! i \<le> cpus ! i"
        using True that b(2) by (auto simp: word_le_nat_alt word_unat_eq_iff)
      moreover have "ts ! i \<le> bump i ts1 ! i" using that s b(2) by (simp add: word_le_nat_alt)
      ultimately show ?thesis using that s b(1) o True unfolding f by auto
    next
      case False
      then show ?thesis using that s unfolding f by auto
    qed
  qed
  have eq: "for_while [start..<plane] ?g ?f (ts, tk, sp) = (ts', tk', sp')"
    using assms(5) by (simp add: plane_node_def)
  have init: "?P start (ts, tk, sp)" using assms(1,2) by auto
  have "\<exists>k. ?P k (ts', tk', sp') \<and> (start < plane \<longrightarrow> start < k \<or> \<not> tk' < tc)"
  proof (cases "start \<le> plane")
    case True
    have "\<exists>k. start \<le> k \<and> k \<le> plane \<and> ?P k (ts', tk', sp') \<and> (k < plane \<longrightarrow> \<not> ?g (ts', tk', sp'))"
      using for_while_upt [of start plane ?P "(ts, tk, sp)" ?g ?f, OF True init step] unfolding eq .
    then obtain k where "start \<le> k" "?P k (ts', tk', sp')" "k < plane \<longrightarrow> \<not> ?g (ts', tk', sp')" by (elim exE conjE)
    moreover from this have "start < plane \<longrightarrow> start < k \<or> \<not> tk' < tc" by (cases "start = k") simp_all
    ultimately show ?thesis by (intro exI conjI)
  next
    case False
    then have "(ts', tk', sp') = (ts, tk, sp)" "\<not> start < plane" using eq by simp_all
    then show ?thesis using init by (intro exI [of _ start] conjI) simp_all
  qed
  then obtain k where k: "?P k (ts', tk', sp')" "start < plane \<longrightarrow> start < k \<or> \<not> tk' < tc"
    by (elim exE conjE)
  show "sums_to n ts' tk'" "tk \<le> tk'" "tk' \<le> tc" "\<And>k. k \<noteq> i \<Longrightarrow> ts' ! k = ts ! k" "sp \<Longrightarrow> sp'"
      "sp' \<Longrightarrow> sp \<or> tk < tk'" "\<not> over \<Longrightarrow> ts ! i \<le> cpus ! i \<Longrightarrow> ts' ! i \<le> cpus ! i"
      "ts ! i \<le> ts' ! i"
    using k(1) by simp_all
  show "over \<Longrightarrow> start < plane \<Longrightarrow> tk < tc \<Longrightarrow> tk < tk'" using k by auto
  show "\<not> over \<Longrightarrow> ts ! i \<le> cpus ! i \<Longrightarrow> start < plane \<Longrightarrow> ts' ! i < cpus ! i \<Longrightarrow> tk' < tc \<Longrightarrow> sp'"
    using k by auto
qed

text \<open>
  One cycle over the nodes. With at least one task tried per node, a node with a CPU left makes
  the cycle report space.
\<close>

lemma plane_nodes_step:
  assumes "sums_to n ts tk" and "tk \<le> tc" and "tc < 65536"
    and "for_while [0..<n] (\<lambda>(ts, tk, sp). tk < tc) (plane_node start plane tc cpus over) (ts, tk, False) = (ts', tk', sp')"
  shows "sums_to n ts' tk'" and "tk \<le> tk'" and "tk' \<le> tc" and "sp' \<Longrightarrow> tk < tk'"
    and "over \<Longrightarrow> start < plane \<Longrightarrow> 0 < n \<Longrightarrow> tk < tc \<Longrightarrow> tk < tk'"
    and "\<not> over \<Longrightarrow> \<forall>i<n. ts ! i \<le> cpus ! i \<Longrightarrow> \<forall>i<n. ts' ! i \<le> cpus ! i"
    and "\<not> over \<Longrightarrow> \<forall>i<n. ts ! i \<le> cpus ! i \<Longrightarrow> start < plane \<Longrightarrow> tk' < tc \<Longrightarrow> i < n \<Longrightarrow> ts' ! i < cpus ! i \<Longrightarrow> sp'"
    and "\<forall>i<n. ts ! i \<le> ts' ! i"
proof -
  let ?g = "\<lambda>(ts :: u16 list, tk, sp :: bool). tk < tc"
  let ?f = "plane_node start plane tc cpus over"
  let ?P = "\<lambda>k (ts', tk', sp'). sums_to n ts' tk' \<and> tk \<le> tk' \<and> tk' \<le> tc \<and> (sp' \<longrightarrow> tk < tk') \<and>
    (over \<and> start < plane \<and> 0 < k \<longrightarrow> tk < tk') \<and> (\<forall>i<n. ts ! i \<le> ts' ! i) \<and>
    (\<not> over \<and> (\<forall>i<n. ts ! i \<le> cpus ! i) \<longrightarrow>
       (\<forall>i<n. ts' ! i \<le> cpus ! i) \<and> (start < plane \<and> tk' < tc \<longrightarrow> (\<forall>i<k. ts' ! i < cpus ! i \<longrightarrow> sp')))"
  have init: "?P 0 (ts, tk, False)" using assms(1,2) by simp
  have step: "?P (Suc i) (?f i s)" if i: "i < n" and g: "?g s" and P: "?P i s" for i s
  proof -
    obtain ts1 tk1 sp1 where s: "s = (ts1, tk1, sp1)" by (cases s)
    obtain ts2 tk2 sp2 where f: "?f i s = (ts2, tk2, sp2)" by (cases "?f i s")
    have P1: "sums_to n ts1 tk1" "tk \<le> tk1" "tk1 \<le> tc" "sp1 \<longrightarrow> tk < tk1" "\<forall>i<n. ts ! i \<le> ts1 ! i"
        "\<not> over \<and> (\<forall>i<n. ts ! i \<le> cpus ! i) \<longrightarrow>
           (\<forall>i<n. ts1 ! i \<le> cpus ! i) \<and> (start < plane \<and> tk1 < tc \<longrightarrow> (\<forall>k<i. ts1 ! k < cpus ! k \<longrightarrow> sp1))"
      using P s by simp_all
    note n = plane_node_step [OF P1(1,3) assms(3) i f [unfolded s]]
    have "\<forall>k<n. ts2 ! k \<le> cpus ! k" if "\<not> over" "\<forall>i<n. ts ! i \<le> cpus ! i"
      using that P1(6) n(4,8) i by (metis (no_types, lifting))
    moreover have "\<forall>k<Suc i. ts2 ! k < cpus ! k \<longrightarrow> sp2"
      if "\<not> over" "\<forall>i<n. ts ! i \<le> cpus ! i" "start < plane" "tk2 < tc"
      using that P1(6) n(2,4,5,9) i g s by (metis (no_types, lifting) case_prod_conv less_Suc_eq)
    moreover have "\<forall>k<n. ts ! k \<le> ts2 ! k" using P1(5) n(4,10) by (metis order_trans)
    moreover have "tk < tk2" if "over" "start < plane" using that n(7) g s P1(2) by simp
    moreover have "tk < tk2" if "sp2" using n(2) n(6) [OF that] P1(2,4) by auto
    ultimately show ?thesis unfolding f using n(1,2,3) P1(2) by simp
  qed
  have "\<exists>k\<le>n. ?P k (ts', tk', sp') \<and> (k < n \<longrightarrow> \<not> ?g (ts', tk', sp'))"
    using for_while_0 [of ?P "(ts, tk, False)" n ?g ?f, OF init step] unfolding assms(4) .
  then obtain k where k: "k \<le> n" "?P k (ts', tk', sp')" "k < n \<longrightarrow> \<not> tk' < tc" by (elim exE conjE) simp
  show "sums_to n ts' tk'" "tk \<le> tk'" "tk' \<le> tc" "sp' \<Longrightarrow> tk < tk'"
      "\<not> over \<Longrightarrow> \<forall>i<n. ts ! i \<le> cpus ! i \<Longrightarrow> \<forall>i<n. ts' ! i \<le> cpus ! i"
      "\<forall>i<n. ts ! i \<le> ts' ! i"
    using k(2) by simp_all
  show "tk < tk'" if "over" "start < plane" "0 < n" "tk < tc" using k that by (cases "k = 0") auto
  show sp' if "\<not> over" "\<forall>i<n. ts ! i \<le> cpus ! i" "start < plane" "tk' < tc" "i < n" "ts' ! i < cpus ! i" for i
    using k that by auto
qed

text \<open>
  With planes of at least two tasks and a CPU on every node, over-subscribing starts when all
  CPUs are in use.
\<close>

definition plane_fair :: "nat \<Rightarrow> nat \<Rightarrow> u16 list \<Rightarrow> bool" where
  "plane_fair n plane cpus \<longleftrightarrow> 2 \<le> plane \<and> (\<forall>i<n. 1 \<le> cpus ! i)"

definition plane_inv :: "nat \<Rightarrow> nat \<Rightarrow> nat \<Rightarrow> u16 list \<Rightarrow> nat \<Rightarrow> bool \<Rightarrow> u16 list \<Rightarrow> nat \<Rightarrow> bool" where
  "plane_inv n plane tc cpus j over ts tk \<longleftrightarrow> 0 < n \<and> 0 < plane \<and> tc < 65536 \<and> sums_to n ts tk \<and> tk \<le> tc \<and>
     (j = 0 \<longrightarrow> tk = 0 \<and> \<not> over) \<and>
     (plane_fair n plane cpus \<longrightarrow>
        (\<not> over \<and> (\<forall>i<n. ts ! i \<le> cpus ! i)) \<or> (over \<and> (\<forall>i<n. cpus ! i \<le> ts ! i)) \<or>
        (tk = tc \<and> (\<forall>i<n. ts ! i \<le> cpus ! i)))"

lemma plane_cycle_step:
  assumes "plane_inv n plane tc cpus j over ts tk" and "tk < tc"
    and "plane_cycle n plane tc cpus j over (ts, tk) = (ts', tk', space)"
  shows "plane_inv n plane tc cpus (Suc j) (over \<or> \<not> space) ts' tk' \<and> tk \<le> tk' \<and> tk' \<le> tc \<and>
    (space \<or> over \<longrightarrow> tk < tk')"
proof -
  have inv: "0 < n" "0 < plane" "tc < 65536" "sums_to n ts tk" "j = 0 \<longrightarrow> tk = 0 \<and> \<not> over"
      "plane_fair n plane cpus \<Longrightarrow>
        \<not> over \<and> (\<forall>i<n. ts ! i \<le> cpus ! i) \<or> over \<and> (\<forall>i<n. cpus ! i \<le> ts ! i)"
    using assms(1,2) by (auto simp: plane_inv_def)
  let ?start = "if j = 0 then 1 else 0 :: nat"
  obtain ts1 tk1 where first: "(if j = 0 then plane_first n tc (ts, tk) else (ts, tk)) = (ts1, tk1)"
      "sums_to n ts1 tk1" "tk \<le> tk1" "tk1 \<le> tc"
      "plane_fair n plane cpus \<Longrightarrow>
        \<not> over \<and> (\<forall>i<n. ts1 ! i \<le> cpus ! i) \<or> over \<and> (\<forall>i<n. cpus ! i \<le> ts1 ! i)"
  proof (cases "j = 0")
    case True
    then have tk: "tk = 0" "sums_to n ts 0" using inv(4,5) by auto
    obtain ts1 tk1 where f: "plane_first n tc (ts, tk) = (ts1, tk1)" "sums_to n ts1 tk1" "tk1 \<le> tc"
        "\<forall>i<n. unat (ts1 ! i) \<le> 1"
      using plane_first_ones [OF tk(2) inv(3)] unfolding tk(1) by blast
    have "ts1 ! i \<le> cpus ! i" if "plane_fair n plane cpus" "i < n" for i
    proof -
      have "unat (ts1 ! i) \<le> 1" "1 \<le> unat (cpus ! i)"
        using f(4) that by (simp_all add: plane_fair_def word_le_nat_alt)
      then show ?thesis by (simp add: word_le_nat_alt)
    qed
    then show thesis using that [of ts1 tk1] f True inv(5) by simp
  next
    case False
    then show thesis using that [of ts tk] inv(4,6) assms(2) by simp
  qed
  have c: "for_while [0..<n] (\<lambda>(ts, tk, sp). tk < tc) (plane_node ?start plane tc cpus over) (ts1, tk1, False) = (ts', tk', space)"
    using assms(3) first(1) by (simp add: plane_cycle_def)
  note n = plane_nodes_step [OF first(2,4) inv(3) c]
  have "tk < tk'" if "space \<or> over"
  proof (cases "over")
    case True
    then show ?thesis using n(5) inv(1,2,5) first(1) assms(2) by auto
  next
    case False
    then show ?thesis using n(4) that first(3) by auto
  qed
  moreover have "(\<not> (over \<or> \<not> space) \<and> (\<forall>i<n. ts' ! i \<le> cpus ! i)) \<or>
      ((over \<or> \<not> space) \<and> (\<forall>i<n. cpus ! i \<le> ts' ! i)) \<or> (tk' = tc \<and> (\<forall>i<n. ts' ! i \<le> cpus ! i))"
    if fair: "plane_fair n plane cpus"
  proof (cases over)
    case True
    then have "\<forall>i<n. cpus ! i \<le> ts' ! i" using first(5) [OF fair] n(8) by (metis order_trans)
    then show ?thesis using True by simp
  next
    case False
    then have le: "\<forall>i<n. ts1 ! i \<le> cpus ! i" "\<forall>i<n. ts' ! i \<le> cpus ! i" using first(5) [OF fair] n(6) by auto
    have "?start < plane" using fair inv(2) by (simp add: plane_fair_def)
    then have "cpus ! i \<le> ts' ! i" if "\<not> space" "tk' < tc" "i < n" for i
      using n(7) [OF False le(1)] that by (meson not_le)
    then show ?thesis using le(2) False n(3) by (metis le_neq_implies_less)
  qed
  ultimately show ?thesis using inv(1-3) n(1,2,3) first(3) by (simp add: plane_inv_def)
qed

interpretation pln: task_cycles "plane_cycle n plane tc cpus" tc "plane_inv n plane tc cpus"
  for n plane tc cpus
  by unfold_locales (rule plane_cycle_step)

lemma plane_counts_sum:
  assumes "0 < n" and "n \<le> m" and "0 < plane" and "tc < 65536"
  obtains ts where "plane_counts n plane tc cpus (replicate m 0) = Some ts" "sums_to n ts tc"
    "plane_fair n plane cpus \<Longrightarrow> cpus_first n cpus (\<lambda>i. unat (ts ! i))"
proof -
  have "plane_inv n plane tc cpus 0 False (replicate m 0) 0"
    using assms by (simp add: plane_inv_def sums_to_def)
  then obtain j over ts where w: "while_option (\<lambda>(j, over, ts, tk). tk < tc)
      (\<lambda>(j, over, ts, tk). let (ts, tk, space) = plane_cycle n plane tc cpus j over (ts, tk)
         in (Suc j, over \<or> \<not> space, ts, tk)) (0, False, replicate m 0, 0) = Some (j, over, ts, tc)"
      "plane_inv n plane tc cpus j over ts tc"
    using pln.cycles_end by blast
  then show thesis
    using that by (auto simp: plane_counts_def plane_inv_def cpus_first_def word_le_nat_alt)
qed


section \<open>Assignment of task ids\<close>

text \<open>Consecutive numbers within each block of \<open>plane\<close> elements.\<close>

definition in_planes :: "nat \<Rightarrow> nat list \<Rightarrow> bool" where
  "in_planes plane xs \<longleftrightarrow> (\<forall>p. Suc p < length xs \<longrightarrow> Suc p mod plane \<noteq> 0 \<longrightarrow> xs ! Suc p = Suc (xs ! p))"

lemma in_planes_snoc:
  assumes "in_planes plane xs" and "xs \<noteq> [] \<Longrightarrow> length xs mod plane \<noteq> 0 \<Longrightarrow> x = Suc (last xs)"
  shows "in_planes plane (xs @ [x])"
  unfolding in_planes_def
proof (intro allI impI)
  fix p
  assume p: "Suc p < length (xs @ [x])" "Suc p mod plane \<noteq> 0"
  show "(xs @ [x]) ! Suc p = Suc ((xs @ [x]) ! p)"
  proof (cases "Suc p < length xs")
    case True
    then show ?thesis using assms(1) p by (simp add: in_planes_def nth_append)
  next
    case False
    then have "length xs = Suc p" "xs \<noteq> []" using p(1) by auto
    then show ?thesis using assms(2) p(2) by (simp add: nth_append last_conv_nth)
  qed
qed

text \<open>The ids node \<open>i\<close> has got so far.\<close>

definition assigned :: "u32 list option list \<Rightarrow> nat list \<Rightarrow> nat \<Rightarrow> nat list" where
  "assigned ids cur i = map unat (take (cur ! i) (node_tids ids i))"

definition asg :: "nat \<Rightarrow> nat \<Rightarrow> u16 list \<Rightarrow> u32 list option list \<Rightarrow> nat list \<Rightarrow> nat \<Rightarrow> bool" where
  "asg n plane ts ids cur tk \<longleftrightarrow> n \<le> length ids \<and> length cur = n \<and>
     (\<forall>i<n. ids ! i \<noteq> None \<and> length (node_tids ids i) = unat (ts ! i) \<and> cur ! i \<le> unat (ts ! i) \<and>
        sorted_wrt (<) (assigned ids cur i) \<and> (\<forall>x \<in> set (assigned ids cur i). x < tk) \<and>
        in_planes plane (assigned ids cur i)) \<and>
     (\<Sum>i<n. mset (assigned ids cur i)) = mset [0..<tk]"

lemma asg_size:
  assumes "asg n plane ts ids cur tk"
  shows "(\<Sum>i<n. cur ! i) = tk"
proof -
  have "(\<Sum>i<n. length (assigned ids cur i)) = size (\<Sum>i<n. mset (assigned ids cur i))"
    by (simp add: size_multiset_sum)
  also have "\<dots> = tk" using assms by (simp add: asg_def)
  finally show ?thesis using assms by (simp add: asg_def assigned_def)
qed

lemma asg_write:
  assumes "asg n plane ts ids cur tk" and "i < n" and "cur ! i < unat (ts ! i)" and "tk < 65536"
    and "cur ! i mod plane \<noteq> 0 \<Longrightarrow> tk = Suc (last (assigned ids cur i))"
  defines "ids' \<equiv> ids[i := map_option (\<lambda>l. l[cur ! i := of_nat tk]) (ids ! i)]"
    and "cur' \<equiv> cur[i := Suc (cur ! i)]"
  shows "asg n plane ts ids' cur' (Suc tk)" and "assigned ids' cur' i = assigned ids cur i @ [tk]"
proof -
  have a: "n \<le> length ids" "length cur = n" "ids ! i \<noteq> None" "length (node_tids ids i) = unat (ts ! i)"
    using assms(1,2) by (auto simp: asg_def)
  have u: "unat (of_nat tk :: u32) = tk" using assms(4) by (simp add: unat_of_nat)
  have nt: "node_tids ids' k = (if k = i then (node_tids ids i)[cur ! i := of_nat tk] else node_tids ids k)" for k
    using a(1,3) assms(2) by (auto simp: ids'_def node_tids_def nth_list_update)
  show new: "assigned ids' cur' i = assigned ids cur i @ [tk]"
    using a(2,4) assms(2,3) u by (simp add: assigned_def nt cur'_def take_Suc_conv_app_nth)
  have old: "assigned ids' cur' k = assigned ids cur k" if "k \<noteq> i" for k
    using that by (simp add: assigned_def nt cur'_def)
  have len: "length (assigned ids cur i) = cur ! i" using a(4) assms(3) by (simp add: assigned_def)
  have "in_planes plane (assigned ids cur i @ [tk])"
    using assms(1,2,5) len by (intro in_planes_snoc) (auto simp: asg_def)
  moreover have "(\<Sum>k<n. mset (assigned ids' cur' k)) = (\<Sum>k<n. mset (assigned ids cur k)) + {#tk#}"
    using new old assms(2) by (intro sum_upd_cong) auto
  moreover have "ids' ! k \<noteq> None" if "k < n" for k
    using assms(1) that a(1,3) assms(2) by (auto simp: ids'_def asg_def nth_list_update)
  ultimately show "asg n plane ts ids' cur' (Suc tk)"
    using assms(1-3) new old a nt
    by (auto simp: asg_def sorted_wrt_append less_Suc_eq ids'_def cur'_def nth_list_update)
qed

text \<open>Between blocks, a node's ids end at the end of a plane unless the node has all its tasks.\<close>

definition aligned :: "nat \<Rightarrow> nat \<Rightarrow> nat \<Rightarrow> u16 list \<Rightarrow> nat list \<Rightarrow> nat \<Rightarrow> bool" where
  "aligned n plane tc ts cur tk \<longleftrightarrow> (\<forall>i<n. cur ! i mod plane = 0 \<or> cur ! i = unat (ts ! i) \<or> tk = tc)"

lemma plane_block_step:
  assumes "asg n plane ts ids cur tk" and "aligned n plane tc ts cur tk" and "tk < tc" and "tc < 65536"
    and "0 < plane" and "i < n"
    and "plane_block plane tc ts i (ids, cur, tk) = (ids', cur', tk')"
  shows "asg n plane ts ids' cur' tk'" and "aligned n plane tc ts cur' tk'" and "tk \<le> tk'" and "tk' \<le> tc"
    and "cur ! i < unat (ts ! i) \<Longrightarrow> tk < tk'" and "tk' = tk \<Longrightarrow> \<forall>k<n. cur' ! k = cur ! k"
proof -
  let ?g = "\<lambda>(ids :: u32 list option list, cur, tk). cur ! i < unat (ts ! i) \<and> tk < tc"
  let ?f = "\<lambda>k (ids, cur, tk). (ids[i := map_option (\<lambda>l. l[cur ! i := of_nat tk]) (ids ! i)], cur[i := Suc (cur ! i)], Suc tk)"
  let ?P = "\<lambda>k (ids', cur', tk'). asg n plane ts ids' cur' tk' \<and> tk' \<le> tc \<and> tk' = tk + k \<and>
    (\<forall>j<n. cur' ! j = (if j = i then cur ! i + k else cur ! j)) \<and>
    (0 < k \<longrightarrow> tk' = Suc (last (assigned ids' cur' i)))"
  have init: "?P 0 (ids, cur, tk)" using assms(1,3) by simp
  have step: "?P (Suc k) (?f k s)" if g: "?g s" and P: "?P k s" for k s
  proof -
    obtain ids1 cur1 tk1 where s: "s = (ids1, cur1, tk1)" by (cases s)
    have a: "asg n plane ts ids1 cur1 tk1" "cur1 ! i < unat (ts ! i)" "tk1 < 65536"
      using g P s assms(4) by auto
    have len: "length cur1 = n" using a(1) by (simp add: asg_def)
    have "tk1 = Suc (last (assigned ids1 cur1 i))" if "cur1 ! i mod plane \<noteq> 0"
    proof (cases "k = 0")
      case True
      then have "cur1 ! i = cur ! i" "tk1 = tk" using P s assms(6) by auto
      then show ?thesis using assms(2,3,6) a(2) that by (auto simp: aligned_def)
    qed (use P s in auto)
    from asg_write [OF a(1) assms(6) a(2,3) this]
    show ?thesis using g P s len assms(6) by (auto simp: nth_list_update)
  qed
  have "\<exists>k\<le>plane. ?P k (ids', cur', tk') \<and> (k < plane \<longrightarrow> \<not> ?g (ids', cur', tk'))"
    using for_while_0 [of ?P "(ids, cur, tk)" plane ?g ?f, OF init step] assms(7) unfolding plane_block_def by simp
  then obtain k where k: "k \<le> plane" "?P k (ids', cur', tk')" "k < plane \<longrightarrow> \<not> ?g (ids', cur', tk')"
    by (elim exE conjE)
  show new: "asg n plane ts ids' cur' tk'" and "tk \<le> tk'" and "tk' \<le> tc" using k(2) by auto
  have le: "cur' ! i \<le> unat (ts ! i)" using new assms(6) by (simp add: asg_def)
  have cur: "cur' ! i = cur ! i + k" using k(2) assms(6) by simp
  show "tk < tk'" if "cur ! i < unat (ts ! i)" using k assms(3,5,6) that by (cases "k = 0") auto
  show "\<forall>k<n. cur' ! k = cur ! k" if "tk' = tk" using k(2) that by simp
  have "cur' ! i mod plane = 0 \<or> cur' ! i = unat (ts ! i) \<or> tk' = tc"
  proof (cases "k = plane")
    case True
    have "cur ! i \<noteq> unat (ts ! i)" using le cur True assms(5) by simp
    then have "cur ! i mod plane = 0" using assms(2,3,6) by (auto simp: aligned_def)
    then show ?thesis using k(2) True assms(6) by simp
  next
    case False
    then have "\<not> (cur' ! i < unat (ts ! i) \<and> tk' < tc)" using k(1,3) by simp
    then show ?thesis using le k(2) by auto
  qed
  then show "aligned n plane tc ts cur' tk'" using k(2) assms(2,3) by (auto simp: aligned_def)
qed

lemma plane_assign_cycle:
  assumes "asg n plane ts ids cur tk" and "aligned n plane tc ts cur tk" and "tk < tc" and "tc < 65536"
    and "0 < plane" and "sums_to n ts tc"
    and "for_while [0..<n] (\<lambda>(ids, cur, tk). tk < tc) (plane_block plane tc ts) (ids, cur, tk) = (ids', cur', tk')"
  shows "asg n plane ts ids' cur' tk'" and "aligned n plane tc ts cur' tk'" and "tk < tk'" and "tk' \<le> tc"
proof -
  let ?g = "\<lambda>(ids :: u32 list option list, cur :: nat list, tk). tk < tc"
  let ?P = "\<lambda>k (ids', cur', tk'). asg n plane ts ids' cur' tk' \<and> aligned n plane tc ts cur' tk' \<and> tk \<le> tk' \<and> tk' \<le> tc \<and>
    (tk' = tk \<longrightarrow> (\<forall>j<n. cur' ! j = cur ! j) \<and> (\<forall>j<k. cur ! j = unat (ts ! j)))"
  have init: "?P 0 (ids, cur, tk)" using assms(1-3) by simp
  have step: "?P (Suc i) (plane_block plane tc ts i s)" if i: "i < n" and g: "?g s" and P: "?P i s" for i s
  proof -
    obtain ids1 cur1 tk1 where s: "s = (ids1, cur1, tk1)" by (cases s)
    obtain ids2 cur2 tk2 where f: "plane_block plane tc ts i s = (ids2, cur2, tk2)" by (cases "plane_block plane tc ts i s")
    have P1: "asg n plane ts ids1 cur1 tk1" "aligned n plane tc ts cur1 tk1" "tk \<le> tk1" "tk1 < tc"
        "tk1 = tk \<longrightarrow> (\<forall>j<n. cur1 ! j = cur ! j) \<and> (\<forall>j<i. cur ! j = unat (ts ! j))"
      using P g s by simp_all
    note b = plane_block_step [OF P1(1,2,4) assms(4,5) i f [unfolded s]]
    have "(\<forall>j<n. cur2 ! j = cur ! j) \<and> (\<forall>j<Suc i. cur ! j = unat (ts ! j))" if "tk2 = tk"
    proof -
      have e: "tk1 = tk" "tk2 = tk1" using that P1(3) b(3) by auto
      have c: "\<forall>j<n. cur1 ! j = cur ! j" "\<forall>j<i. cur ! j = unat (ts ! j)" using P1(5) e(1) by auto
      have "\<not> cur1 ! i < unat (ts ! i)" using b(5) e(2) by auto
      moreover have "cur1 ! i \<le> unat (ts ! i)" using P1(1) i by (simp add: asg_def)
      ultimately show ?thesis using c b(6) [OF e(2)] i by (auto simp: less_Suc_eq)
    qed
    then show ?thesis unfolding f using b(1-4) P1(3) by simp
  qed
  have "\<exists>k\<le>n. ?P k (ids', cur', tk') \<and> (k < n \<longrightarrow> \<not> ?g (ids', cur', tk'))"
    using for_while_0 [of ?P "(ids, cur, tk)" n ?g "plane_block plane tc ts", OF init step] unfolding assms(7) .
  then obtain k where k: "k \<le> n" "?P k (ids', cur', tk')" "k < n \<longrightarrow> \<not> tk' < tc" by (elim exE conjE) simp
  show "asg n plane ts ids' cur' tk'" "aligned n plane tc ts cur' tk'" "tk' \<le> tc" using k(2) by simp_all
  have "tk' \<noteq> tk"
  proof
    assume e: "tk' = tk"
    then have "k = n" using k(1,3) assms(3) by auto
    then have "(\<Sum>i<n. cur ! i) = (\<Sum>i<n. unat (ts ! i))" using k(2) e by simp
    then show False using asg_size [OF assms(1)] assms(3,6) by (simp add: sums_to_def)
  qed
  then show "tk < tk'" using k(2) by simp
qed

lemma plane_assign_ok:
  assumes "sums_to n ts tc" and "n \<le> length ids" and "0 < plane" and "tc < 65536"
  obtains ids' cur where "plane_assign n plane tc ts ids = Some (ids', cur, tc)" "tids_ok n tc ts ids'"
    "\<And>i. i < n \<Longrightarrow> in_planes plane (map unat (node_tids ids' i))"
proof -
  let ?ids0 = "fold (\<lambda>i ids. ids[i := Some (replicate (unat (ts ! i)) 0)]) [0..<n] ids"
  let ?b = "\<lambda>(ids :: u32 list option list, cur :: nat list, tk). tk < tc"
  let ?c = "for_while [0..<n] ?b (plane_block plane tc ts)"
  let ?P = "\<lambda>(ids, cur, tk). asg n plane ts ids cur tk \<and> aligned n plane tc ts cur tk \<and> tk \<le> tc"
  let ?m = "\<lambda>(ids :: u32 list option list, cur :: nat list, tk). tc - tk"
  have "?ids0 = map (\<lambda>i. Some (replicate (unat (ts ! i)) 0)) [0..<n] @ drop n ids"
    using assms(2)
  proof (induction n)
    case (Suc n)
    then have "drop n ids = ids ! n # drop (Suc n) ids" by (simp add: Cons_nth_drop_Suc)
    with Suc show ?case by (simp add: list_update_append)
  qed simp
  then have P0: "?P (?ids0, replicate n 0, 0)"
    by (auto simp: asg_def aligned_def assigned_def node_tids_def nth_append in_planes_def)
  have step: "?P (?c st) \<and> ?m (?c st) < ?m st" if "?P st" "?b st" for st
  proof -
    obtain ids cur tk where st: "st = (ids, cur, tk)" by (cases st)
    obtain ids' cur' tk' where c: "?c (ids, cur, tk) = (ids', cur', tk')" by (cases "?c (ids, cur, tk)")
    have P: "asg n plane ts ids cur tk" "aligned n plane tc ts cur tk" "tk < tc" using that st by auto
    from plane_assign_cycle [OF P assms(4,3,1) c] show ?thesis unfolding st c using P(3) by auto
  qed
  obtain t where t: "while_option ?b ?c (?ids0, replicate n 0, 0) = Some t"
    using measure_while_option_Some [of ?P ?b ?c ?m, OF step P0] by blast
  have Pt: "?P t" by (rule while_option_rule [where P = ?P, OF _ t P0], rule conjunct1, rule step)
  have bt: "\<not> ?b t" using while_option_stop [OF t] .
  obtain ids' cur tk where tt: "t = (ids', cur, tk)" by (cases t)
  then have a: "asg n plane ts ids' cur tc" "tk = tc" using Pt bt by auto
  have "\<forall>i<n. cur ! i = unat (ts ! i)"
  proof (rule ccontr)
    assume "\<not> ?thesis"
    then obtain i where "i < n" "cur ! i < unat (ts ! i)" using a(1) by (force simp: asg_def)
    then have "(\<Sum>i<n. cur ! i) < (\<Sum>i<n. unat (ts ! i))"
      using a(1) by (intro sum_strict_mono_ex1) (auto simp: asg_def)
    then show False using asg_size [OF a(1)] assms(1) by (simp add: sums_to_def)
  qed
  then have full: "assigned ids' cur i = map unat (node_tids ids' i)" if "i < n" for i
    using a(1) that by (simp add: assigned_def asg_def)
  have "tids_ok n tc ts ids'" using a(1) full assms(1) by (auto simp: tids_ok_def asg_def sums_to_def mset_concat_upt)
  moreover have "in_planes plane (map unat (node_tids ids' i))" if "i < n" for i
    using a(1) full that by (simp add: asg_def)
  moreover have "plane_assign n plane tc ts ids = Some (ids', cur, tc)"
    unfolding plane_assign_def t tt a(2) by simp
  ultimately show thesis using that by blast
qed

lemma plane_layout:
  assumes "fresh sl" and "unat (task_cnt sl) < 65536" and "plane_size sl \<noteq> 0"
  obtains ts ids where
    "task_layout_plane sl cpus = Some (SLURM_SUCCESS, sl\<lparr>tasks := Some ts, tids := Some ids\<rparr>)"
    "tids_ok (unat (node_cnt sl)) (unat (task_cnt sl)) ts ids"
    "sums_to (unat (node_cnt sl)) ts (unat (task_cnt sl))"
    "\<And>i. i < unat (node_cnt sl) \<Longrightarrow> in_planes (unat (plane_size sl)) (map unat (node_tids ids i))"
    "plane_fair (unat (node_cnt sl)) (unat (plane_size sl)) cpus \<Longrightarrow>
       cpus_first (unat (node_cnt sl)) cpus (\<lambda>i. unat (ts ! i))"
proof -
  let ?n = "unat (node_cnt sl)" and ?tc = "unat (task_cnt sl)" and ?p = "unat (plane_size sl)"
  obtain m where m: "0 < ?n" "?n \<le> m" "tasks sl = Some (replicate m 0)" "tids sl = Some (replicate m None)"
    using assms(1) by (rule freshE)
  have p: "0 < ?p" using assms(3) by (simp add: unat_gt_0)
  obtain ts where ts: "plane_counts ?n ?p ?tc cpus (replicate m 0) = Some ts" "sums_to ?n ts ?tc"
      "plane_fair ?n ?p cpus \<Longrightarrow> cpus_first ?n cpus (\<lambda>i. unat (ts ! i))"
    using plane_counts_sum [OF m(1,2) p assms(2)] by blast
  obtain ids' cur where a: "plane_assign ?n ?p ?tc ts (replicate m None) = Some (ids', cur, ?tc)"
      "tids_ok ?n ?tc ts ids'" "\<And>i. i < ?n \<Longrightarrow> in_planes ?p (map unat (node_tids ids' i))"
    using plane_assign_ok [OF ts(2) _ p assms(2), of "replicate m None"] m(2) by auto
  have "task_layout_plane sl cpus = Some (SLURM_SUCCESS, sl\<lparr>tasks := Some ts, tids := Some ids'\<rparr>)"
    using assms(3) m(3,4) ts(1) a(1) by (simp add: task_layout_plane_def Let_def)
  then show thesis using that a(2,3) ts(2,3) by blast
qed

end
