(* ===== verification/Step_Layout_Create.thy ===== *)
theory Step_Layout_Create
  imports Step_Layout_Plane
begin

text \<open>
  Building a layout from a request, the arbitrary distribution, layouts without an allocation,
  and searching and copying layouts.
\<close>

section \<open>CPUs of the nodes\<close>

definition ntasks_limited :: "slurm_step_layout \<Rightarrow> bool" where
  "ntasks_limited sl \<longleftrightarrow> plane_size sl \<noteq> 0 \<and> plane_size sl \<noteq> NO_VAL16 \<and>
     task_dist sl AND SLURM_DIST_STATE_BASE \<noteq> SLURM_DIST_PLANE"

definition node_cpus :: "slurm_step_layout \<Rightarrow> u16 \<Rightarrow> u16 \<Rightarrow> u16" where
  "node_cpus sl cpn cpt =
     (let c = (if cpn div cpt = 0 then 1 else cpn div cpt) in
      if ntasks_limited sl then min c (plane_size sl * cpt) else c)"

lemma init_cpus_walk:
  assumes "req_cpus_per_task req = Some cpts"
    and "rle_ok (req_cpus_per_node req) (req_cpu_count_reps req) (inx, cnt)"
    and "rle_ok cpts (req_cpus_task_reps req) (tinx, tcnt)"
    and "n \<le> length (rle_rest (req_cpus_per_node req) (req_cpu_count_reps req) (inx, cnt))"
    and "n \<le> length (rle_rest cpts (req_cpus_task_reps req) (tinx, tcnt))"
    and "\<forall>c \<in> set cpts. c \<noteq> 0 \<and> (ntasks_limited sl \<longrightarrow> unat (plane_size sl) * unat c < 2 ^ 31)"
  shows "init_cpus req sl n inx cnt tinx tcnt =
    Some (map2 (node_cpus sl)
      (take n (rle_rest (req_cpus_per_node req) (req_cpu_count_reps req) (inx, cnt)))
      (take n (rle_rest cpts (req_cpus_task_reps req) (tinx, tcnt))))"
  using assms
proof (induction n arbitrary: inx cnt tinx tcnt)
  case (Suc n)
  obtain x xs where x: "rle_rest (req_cpus_per_node req) (req_cpu_count_reps req) (inx, cnt) = x # xs"
    using Suc.prems(4) by (cases "rle_rest (req_cpus_per_node req) (req_cpu_count_reps req) (inx, cnt)") auto
  obtain y ys where y: "rle_rest cpts (req_cpus_task_reps req) (tinx, tcnt) = y # ys"
    using Suc.prems(5) by (cases "rle_rest cpts (req_cpus_task_reps req) (tinx, tcnt)") auto
  note a = rle_step [OF Suc.prems(2) x] and b = rle_step [OF Suc.prems(3) y]
  obtain inx' cnt' where n1: "rle_next (req_cpu_count_reps req ! inx) (inx, cnt) = (inx', cnt')"
    by (cases "rle_next (req_cpu_count_reps req ! inx) (inx, cnt)")
  obtain tinx' tcnt' where n2: "rle_next (req_cpus_task_reps req ! tinx) (tinx, tcnt) = (tinx', tcnt')"
    by (cases "rle_next (req_cpus_task_reps req ! tinx) (tinx, tcnt)")
  have "init_cpus req sl n inx' cnt' tinx' tcnt' = Some (map2 (node_cpus sl) (take n xs) (take n ys))"
    using Suc.IH [of inx' cnt' tinx' tcnt'] Suc.prems x y a(4,5) b(4,5) n1 n2 by simp
  moreover have "y \<in> set cpts" using b(1,3) nth_mem by blast
  ultimately show ?case
    using Suc.prems(1,6) x y a(1-3) b(1-3) n1 n2
    by (auto simp: node_cpus_def ntasks_limited_def Let_def min_def not_le)
qed simp


section \<open>Arbitrary distribution\<close>

text \<open>The tasks of a host: the positions at which the list of the user names it.\<close>

definition host_tasks :: "c_string \<Rightarrow> c_string list \<Rightarrow> nat list" where
  "host_tasks host hs = filter (\<lambda>p. hs ! p = host) [0..<length hs]"

lemma host_tasks_Cons:
  "host_tasks host (h # hs) = (if h = host then 0 # map Suc (host_tasks host hs) else map Suc (host_tasks host hs))"
proof -
  have "[0..<length (h # hs)] = 0 # map Suc [0..<length hs]" by (simp add: upt_conv_Cons map_Suc_upt del: upt_Suc)
  then show ?thesis by (simp add: host_tasks_def filter_map comp_def del: upt_Suc)
qed

lemma length_host_tasks: "length (host_tasks host hs) = count_list hs host"
  by (induction hs) (auto simp: host_tasks_Cons, simp add: host_tasks_def)

lemma hostfile_count_eq:
  "placed + count_list hs host \<le> tc \<Longrightarrow>
     hostfile_count host tc hs (t, placed) = (t + of_nat (count_list hs host), placed + count_list hs host)"
proof (induction hs arbitrary: t placed)
  case (Cons h hs)
  have "count_list hs host = 0" if "tc \<le> (if host = h then Suc placed else placed)"
    using that Cons.prems by (auto split: if_splits)
  then show ?case using Cons by (auto simp: Let_def)
qed simp

lemma take_update_last: "j < length l \<Longrightarrow> take (Suc j) (l[j := x]) = take j l @ [x]"
  by (simp add: take_Suc_conv_app_nth)

lemma hostfile_ids_eq:
  assumes "j + count_list hs host = unat t" and "length l = unat t"
  shows "hostfile_ids host t hs k (l, j) = take j l @ map (\<lambda>p. of_nat (k + p)) (host_tasks host hs)"
  using assms
proof (induction hs arbitrary: k l j)
  case Nil
  then show ?case by (simp add: host_tasks_def)
next
  case (Cons h hs)
  show ?case
  proof (cases "host = h")
    case True
    then have j: "Suc j + count_list hs host = unat t" "j < length l" using Cons.prems by auto
    show ?thesis
    proof (cases "Suc j \<ge> unat t")
      case last: True
      then have "host_tasks host hs = []" using j(1) length_host_tasks [of host hs] by (subst length_0_conv [symmetric]) simp
      then show ?thesis
        using True last j Cons.prems(2) take_update_last [OF j(2), of "of_nat k"]
        by (simp add: host_tasks_Cons)
    next
      case False
      then show ?thesis
        using True Cons.IH [OF j(1), of "l[j := of_nat k]" "Suc k"] Cons.prems(2) take_update_last [OF j(2), of "of_nat k"]
        by (simp add: host_tasks_Cons comp_def)
    qed
  next
    case False
    then have j: "j + count_list hs host = unat t" using Cons.prems by auto
    show ?thesis
    proof (cases "j \<ge> unat t")
      case last: True
      then have "host_tasks host hs = []" using j length_host_tasks [of host hs] by (subst length_0_conv [symmetric]) simp
      then show ?thesis using False last j Cons.prems(2) by (simp add: host_tasks_Cons)
    next
      case e: False
      then show ?thesis using False Cons.IH [OF j Cons.prems(2), of "Suc k"] by (simp add: host_tasks_Cons comp_def)
    qed
  qed
qed

lemma hostfile_hosts_eq:
  assumes "distinct hosts" and "\<forall>h \<in> set hosts. h \<in> set step" and "i + length hosts \<le> length ts"
    and "i + length hosts \<le> length ids" and "placed + sum_list (map (count_list step) hosts) \<le> tc"
    and "i \<le> placed" and "tc < 65536"
  shows "hostfile_hosts tc step hosts i (ts, ids, placed) =
    Some (take i ts @ map (\<lambda>h. of_nat (count_list step h)) hosts @ drop (i + length hosts) ts,
      take i ids @ map (\<lambda>h. Some (map of_nat (host_tasks h step))) hosts @ drop (i + length hosts) ids,
      placed + sum_list (map (count_list step) hosts))"
  using assms
proof (induction hosts arbitrary: i ts ids placed)
  case (Cons h hosts)
  let ?c = "count_list step h"
  have c: "0 < ?c" using Cons.prems(2) by (simp add: count_list_0_iff neq0_conv [symmetric] del: neq0_conv)
  have le: "placed + ?c \<le> tc" using Cons.prems(5) by simp
  have u: "unat (of_nat ?c :: u16) = ?c" using le Cons.prems(7) by (simp add: unat_of_nat)
  have nz: "(of_nat ?c :: u16) \<noteq> 0" using u c by (metis less_irrefl unat_0)
  have ids: "hostfile_ids h (of_nat ?c) step 0 (replicate (unat (of_nat ?c :: u16)) 0, 0) =
      map of_nat (host_tasks h step)"
    using hostfile_ids_eq [of 0 step h "of_nat ?c" "replicate ?c 0" 0] u by simp
  have bounds: "i < length ts" "i < length ids" "\<not> Suc i > tc" using Cons.prems(3-6) c by auto
  have "hostfile_hosts tc step (h # hosts) i (ts, ids, placed) =
      hostfile_hosts tc step hosts (Suc i)
        (ts[i := of_nat ?c], ids[i := Some (map of_nat (host_tasks h step))], placed + ?c)"
    using bounds nz ids hostfile_count_eq [OF le, of 0] by (simp add: Let_def)
  also have "\<dots> = Some (take (Suc i) (ts[i := of_nat ?c]) @ map (\<lambda>h. of_nat (count_list step h)) hosts @
        drop (Suc i + length hosts) (ts[i := of_nat ?c]),
      take (Suc i) (ids[i := Some (map of_nat (host_tasks h step))]) @
        map (\<lambda>h. Some (map of_nat (host_tasks h step))) hosts @
        drop (Suc i + length hosts) (ids[i := Some (map of_nat (host_tasks h step))]),
      placed + ?c + sum_list (map (count_list step) hosts))"
    using Cons.prems c by (intro Cons.IH) auto
  finally show ?case using bounds by (simp add: take_update_last)
qed simp

lemma mset_concat_filter:
  assumes "distinct hs" and "\<forall>p \<in> set ps. f p \<in> set hs"
  shows "mset (concat (map (\<lambda>h. filter (\<lambda>p. f p = h) ps) hs)) = mset ps"
  using assms
proof (induction hs arbitrary: ps)
  case (Cons h hs)
  let ?ps = "filter (\<lambda>p. f p \<noteq> h) ps"
  have "filter (\<lambda>p. f p = h') ps = filter (\<lambda>p. f p = h') ?ps" if "h' \<in> set hs" for h'
    using that Cons.prems(1) by (auto intro: filter_cong)
  then have e: "map (\<lambda>h'. filter (\<lambda>p. f p = h') ps) hs = map (\<lambda>h'. filter (\<lambda>p. f p = h') ?ps) hs"
    by (intro map_cong) auto
  have r: "mset (concat (map (\<lambda>h'. filter (\<lambda>p. f p = h') ?ps) hs)) = mset ?ps"
    using Cons by (intro Cons.IH) auto
  have p: "mset (filter (\<lambda>p. f p = h) ps) + mset ?ps = mset ps"
    using multiset_partition [of "mset ps" "\<lambda>p. f p = h"] by simp
  show ?case by (simp only: list.map concat.simps mset_append e r p)
qed simp

lemma hostfile_layout:
  assumes "fresh sl" and "unat (task_cnt sl) < 65536"
    and "hosts = hostlist_create (node_list sl)" and "step = hostlist_create (Some nodes)"
    and "length hosts = unat (node_cnt sl)" and "length step = unat (task_cnt sl)"
    and "distinct hosts" and "set hosts = set step"
  obtains ts ids where
    "task_layout_hostfile hostlist_create sl (Some nodes) =
       Some (SLURM_SUCCESS, sl\<lparr>tasks := Some ts, tids := Some ids\<rparr>)"
    "tids_ok (unat (node_cnt sl)) (unat (task_cnt sl)) ts ids"
    "\<And>i. i < unat (node_cnt sl) \<Longrightarrow> node_tids ids i = map of_nat (host_tasks (hosts ! i) step)"
proof -
  let ?n = "unat (node_cnt sl)" and ?tc = "unat (task_cnt sl)"
  obtain m where m: "0 < ?n" "?n \<le> m" "tasks sl = Some (replicate m 0)" "tids sl = Some (replicate m None)"
    using assms(1) by (rule freshE)
  have sum: "sum_list (map (count_list step) hosts) = ?tc"
    using assms(6-8) sum_count_set [of step "set hosts"] by (simp add: sum_list_distinct_conv_sum_set)
  define ts :: "u16 list" where "ts = map (\<lambda>h. of_nat (count_list step h)) hosts @ replicate (m - ?n) 0"
  define ids :: "u32 list option list" where
    "ids = map (\<lambda>h. Some (map of_nat (host_tasks h step))) hosts @ replicate (m - ?n) None"
  have "hostfile_hosts ?tc step hosts 0 (replicate m 0, replicate m None, 0) = Some (ts, ids, ?tc)"
    using hostfile_hosts_eq [of hosts step 0 "replicate m 0" "replicate m None" 0 ?tc] sum assms(2,5,7,8) m(2)
    by (simp add: ts_def ids_def)
  then have "task_layout_hostfile hostlist_create sl (Some nodes) =
      Some (SLURM_SUCCESS, sl\<lparr>tasks := Some ts, tids := Some ids\<rparr>)"
    using m(3,4) assms(3,4,6) by (simp add: task_layout_hostfile_def Let_def)
  moreover have nt: "node_tids ids i = map of_nat (host_tasks (hosts ! i) step)" if "i < ?n" for i
    using that assms(5) by (simp add: node_tids_def ids_def nth_append)
  moreover have "tids_ok ?n ?tc ts ids"
  proof -
    have un: "map unat (node_tids ids i) = host_tasks (hosts ! i) step" if "i < ?n" for i
    proof -
      have "unat (of_nat p :: u32) = p" if "p \<in> set (host_tasks (hosts ! i) step)" for p
        using that assms(2,6) by (simp add: host_tasks_def unat_of_nat)
      then show ?thesis unfolding nt [OF \<open>i < ?n\<close>] map_map by (intro map_idI) simp
    qed
    have cnt: "count_list step (hosts ! i) < 65536" for i
      using count_le_length [of step "hosts ! i"] assms(2,6) by simp
    have "map (\<lambda>i. map unat (node_tids ids i)) [0..<?n] = map (\<lambda>h. host_tasks h step) hosts"
      using un assms(5) by (intro nth_equalityI) simp_all
    moreover have "mset (concat (map (\<lambda>h. host_tasks h step) hosts)) = mset [0..<?tc]"
      unfolding host_tasks_def assms(6) using assms(6-8) by (intro mset_concat_filter) auto
    ultimately have "mset (concat (map (\<lambda>i. map unat (node_tids ids i)) [0..<?n])) = mset [0..<?tc]" by simp
    moreover have "sorted_wrt (<) (host_tasks h step)" for h
      unfolding host_tasks_def by (rule sorted_wrt_filter) (simp add: sorted_wrt_upt)
    moreover have "length (node_tids ids i) = unat (ts ! i)" if "i < ?n" for i
      using nt [OF that] that cnt assms(5) by (simp add: ts_def nth_append length_host_tasks unat_of_nat)
    ultimately show ?thesis using un assms(5) by (simp add: tids_ok_def ts_def ids_def)
  qed
  ultimately show thesis using that by blast
qed


section \<open>Building a layout\<close>

text \<open>
  A request whose arrays describe at least \<open>n\<close> nodes, with a number of CPUs per task that the
  code does not have to correct.
\<close>

definition req_ok :: "slurm_step_layout_req \<Rightarrow> nat \<Rightarrow> bool" where
  "req_ok req n \<longleftrightarrow>
     length (req_cpus_per_node req) = length (req_cpu_count_reps req) \<and>
     (\<forall>r \<in> set (req_cpu_count_reps req). 0 < unat r) \<and> n \<le> sum_list (map unat (req_cpu_count_reps req)) \<and>
     (case req_cpus_per_task req of
        None \<Rightarrow> True
      | Some cs \<Rightarrow> cs \<noteq> [] \<and> length cs = length (req_cpus_task_reps req) \<and>
          (\<forall>r \<in> set (req_cpus_task_reps req). 0 < unat r) \<and> n \<le> sum_list (map unat (req_cpus_task_reps req)) \<and>
          (\<forall>c \<in> set cs. c \<noteq> 0 \<and> c \<noteq> NO_VAL16 \<and> unat (req_plane_size req) * unat c < 2 ^ 31))"

lemma req_ok_cpus:
  assumes "req_ok req n" and "0 < n" and "unat (req_num_hosts req) = n" and "plane_size sl = req_plane_size req"
  obtains req' cpus where "default_cpus_per_task req = Some req'" "req_plane_size req' = req_plane_size req"
    "init_cpus req' sl n 0 0 0 0 = Some cpus" "length cpus = n" "\<not> ntasks_limited sl \<Longrightarrow> \<forall>i<n. 1 \<le> cpus ! i"
proof -
  obtain req' cs where d: "default_cpus_per_task req = Some req'" "req_cpus_per_task req' = Some cs"
      "req_plane_size req' = req_plane_size req" "req_cpus_per_node req' = req_cpus_per_node req"
      "req_cpu_count_reps req' = req_cpu_count_reps req" "length cs = length (req_cpus_task_reps req')"
      "\<forall>r \<in> set (req_cpus_task_reps req'). 0 < unat r" "n \<le> sum_list (map unat (req_cpus_task_reps req'))"
      "\<forall>c \<in> set cs. c \<noteq> 0 \<and> unat (req_plane_size req) * unat c < 2 ^ 31"
  proof (cases "req_cpus_per_task req")
    case None
    have "unat (req_plane_size req) < 65536" using unsigned_less [of "req_plane_size req"] by simp
    then show thesis
      using None assms(2,3) by (intro that [of "req\<lparr>req_cpus_per_task := Some [1], req_cpus_task_reps := [req_num_hosts req]\<rparr>" "[1]"])
        (auto simp: default_cpus_per_task_def NO_VAL16_def)
  next
    case (Some cs)
    then have "cs \<noteq> []" using assms(1) by (simp add: req_ok_def)
    then have ne: "0 < length cs" by simp
    then have "cs ! 0 \<in> set cs" by (rule nth_mem)
    then have "default_cpus_per_task req = Some req"
      using Some assms(1) readA_in [OF ne] by (simp add: default_cpus_per_task_def req_ok_def)
    then show thesis using Some assms(1) by (intro that [of req cs]) (auto simp: req_ok_def)
  qed
  let ?cpus = "map2 (node_cpus sl) (take n (expand (req_cpus_per_node req) (req_cpu_count_reps req)))
    (take n (expand cs (req_cpus_task_reps req')))"
  have len: "length (expand (req_cpus_per_node req) (req_cpu_count_reps req)) \<ge> n"
      "length (expand cs (req_cpus_task_reps req')) \<ge> n"
    using assms(1) d(6,8) by (auto simp: length_expand req_ok_def)
  have "init_cpus req' sl n 0 0 0 0 = Some ?cpus"
    using init_cpus_walk [OF d(2), of 0 0 0 0 n sl] d len assms(1,4)
    by (simp add: rle_start req_ok_def)
  moreover have "1 \<le> ?cpus ! i" if "\<not> ntasks_limited sl" "i < n" for i
    using that len by (simp add: node_cpus_def Let_def word_le_nat_alt unat_gt_0 Suc_le_eq)
  ultimately show thesis using that [OF d(1,3), of ?cpus] len by simp
qed

text \<open>The host list functions, as far as building a layout relies on them.\<close>

definition hostlist_laws :: "(c_string option \<Rightarrow> c_string list) \<Rightarrow> (c_string list \<Rightarrow> c_string list) \<Rightarrow>
    (c_string list \<Rightarrow> c_string) \<Rightarrow> c_string option \<Rightarrow> bool" where
  "hostlist_laws hl_create hl_uniq hl_string nodes \<longleftrightarrow>
     (let l = hl_create nodes in
      distinct (hl_uniq l) \<and> set (hl_uniq l) = set l \<and> hl_create (Some (hl_string (hl_uniq l))) = hl_uniq l)"

abbreviation base_dist :: "u32 \<Rightarrow> u32" where
  "base_dist d \<equiv> d AND SLURM_DIST_STATE_BASE"

lemma dispatch_layout_ok:
  assumes "fresh sl" and "unat (task_cnt sl) < 65536"
    and "length (hostlist_create (node_list sl)) = unat (node_cnt sl)"
    and "base_dist (task_dist sl) = SLURM_DIST_PLANE \<Longrightarrow> plane_size sl \<noteq> 0"
    and "base_dist (task_dist sl) = SLURM_DIST_ARBITRARY \<Longrightarrow> arbitrary_nodes = Some nodes \<and>
      length (hostlist_create (Some nodes)) = unat (task_cnt sl) \<and>
      distinct (hostlist_create (node_list sl)) \<and>
      set (hostlist_create (node_list sl)) = set (hostlist_create (Some nodes))"
  shows "\<exists>ts ids. dispatch_layout hostlist_create cluster_flags select_params sl cpus arbitrary_nodes =
      Some (SLURM_SUCCESS, sl\<lparr>tasks := Some ts, tids := Some ids\<rparr>) \<and>
    tids_ok (unat (node_cnt sl)) (unat (task_cnt sl)) ts ids"
proof -
  have cyclic: "\<exists>ts ids. task_layout_cyclic sl cpus = Some (SLURM_SUCCESS, sl\<lparr>tasks := Some ts, tids := Some ids\<rparr>) \<and>
      tids_ok (unat (node_cnt sl)) (unat (task_cnt sl)) ts ids"
    using cyclic_layout [OF assms(1,2), of cpus] by blast
  have block: "\<exists>ts ids. task_layout_block select_params sl cpus =
        Some (SLURM_SUCCESS, sl\<lparr>tasks := Some ts, tids := Some ids\<rparr>) \<and>
      tids_ok (unat (node_cnt sl)) (unat (task_cnt sl)) ts ids"
    using block_layout [OF assms(1,2), of select_params cpus] by blast
  have plane: "\<exists>ts ids. task_layout_plane sl cpus = Some (SLURM_SUCCESS, sl\<lparr>tasks := Some ts, tids := Some ids\<rparr>) \<and>
      tids_ok (unat (node_cnt sl)) (unat (task_cnt sl)) ts ids" if "base_dist (task_dist sl) = SLURM_DIST_PLANE"
    using plane_layout [OF assms(1,2) assms(4) [OF that], of cpus] by blast
  have hostfile: "\<exists>ts ids. task_layout_hostfile hostlist_create sl arbitrary_nodes =
        Some (SLURM_SUCCESS, sl\<lparr>tasks := Some ts, tids := Some ids\<rparr>) \<and>
      tids_ok (unat (node_cnt sl)) (unat (task_cnt sl)) ts ids"
    if "base_dist (task_dist sl) = SLURM_DIST_ARBITRARY"
  proof -
    have a: "arbitrary_nodes = Some nodes" "length (hostlist_create (Some nodes)) = unat (task_cnt sl)"
        "distinct (hostlist_create (node_list sl))"
        "set (hostlist_create (node_list sl)) = set (hostlist_create (Some nodes))"
      using assms(5) [OF that] by simp_all
    show ?thesis unfolding a(1)
      by (rule hostfile_layout [where hosts = "hostlist_create (node_list sl)" and step = "hostlist_create (Some nodes)",
            OF assms(1,2) refl refl assms(3) a(2-4)]) blast
  qed
  show ?thesis unfolding dispatch_layout_def using cyclic block plane hostfile by simp
qed

lemma init_task_layout_ok:
  assumes "req_ok req (unat (node_cnt sl))" and "node_cnt sl \<noteq> 0" and "req_num_hosts req = node_cnt sl"
    and "tasks sl = None" and "unat (task_cnt sl) < 65536"
    and "length (hostlist_create (node_list sl)) = unat (node_cnt sl)"
    and "base_dist (task_dist sl) = SLURM_DIST_PLANE \<Longrightarrow> req_plane_size req \<noteq> 0"
    and "base_dist (task_dist sl) = SLURM_DIST_ARBITRARY \<Longrightarrow> arbitrary_nodes = Some nodes \<and>
      length (hostlist_create (Some nodes)) = unat (task_cnt sl) \<and>
      distinct (hostlist_create (node_list sl)) \<and>
      set (hostlist_create (node_list sl)) = set (hostlist_create (Some nodes))"
  shows "\<exists>ts ids req'. init_task_layout hostlist_create cluster_flags select_params req sl arbitrary_nodes =
      Some (SLURM_SUCCESS, sl\<lparr>plane_size := req_plane_size req, tasks := Some ts, tids := Some ids\<rparr>, req') \<and>
    tids_ok (unat (node_cnt sl)) (unat (task_cnt sl)) ts ids"
proof -
  let ?n = "unat (node_cnt sl)"
  let ?sl = "sl\<lparr>plane_size := req_plane_size req, tasks := Some (replicate ?n 0), tids := Some (replicate ?n None)\<rparr>"
  have n: "0 < ?n" using assms(2) by (simp add: unat_gt_0)
  have fr: "fresh ?sl" using assms(2) by (auto simp: fresh_def word_gt_0)
  have h: "unat (req_num_hosts req) = ?n" "plane_size ?sl = req_plane_size req" using assms(3) by simp_all
  obtain req' cpus where r: "default_cpus_per_task req = Some req'" "req_plane_size req' = req_plane_size req"
      "init_cpus req' ?sl ?n 0 0 0 0 = Some cpus"
    using req_ok_cpus [OF assms(1) n h] by blast
  have "\<exists>ts ids. dispatch_layout hostlist_create cluster_flags select_params ?sl cpus arbitrary_nodes =
        Some (SLURM_SUCCESS, ?sl\<lparr>tasks := Some ts, tids := Some ids\<rparr>) \<and>
      tids_ok (unat (node_cnt ?sl)) (unat (task_cnt ?sl)) ts ids"
  proof (rule dispatch_layout_ok [where sl = ?sl and nodes = nodes, OF fr])
    show "unat (task_cnt ?sl) < 65536" using assms(5) by simp
    show "length (hostlist_create (node_list ?sl)) = unat (node_cnt ?sl)" using assms(6) by simp
    show "plane_size ?sl \<noteq> 0" if "base_dist (task_dist ?sl) = SLURM_DIST_PLANE" using assms(7) that by simp
    show "arbitrary_nodes = Some nodes \<and> length (hostlist_create (Some nodes)) = unat (task_cnt ?sl) \<and>
        distinct (hostlist_create (node_list ?sl)) \<and>
        set (hostlist_create (node_list ?sl)) = set (hostlist_create (Some nodes))"
      if "base_dist (task_dist ?sl) = SLURM_DIST_ARBITRARY" using assms(8) that by simp
  qed
  then obtain ts ids where d: "dispatch_layout hostlist_create cluster_flags select_params ?sl cpus arbitrary_nodes =
        Some (SLURM_SUCCESS, ?sl\<lparr>tasks := Some ts, tids := Some ids\<rparr>)" "tids_ok ?n (unat (task_cnt sl)) ts ids"
    by auto
  have "\<not> node_cnt sl < 1" using assms(2) by (simp add: word_less_1)
  then have "init_task_layout hostlist_create cluster_flags select_params req sl arbitrary_nodes =
      Some (SLURM_SUCCESS, sl\<lparr>plane_size := req_plane_size req, tasks := Some ts, tids := Some ids\<rparr>, req')"
    using assms(2,4,6) r d(1) by (simp add: init_task_layout_def Let_def)
  then show ?thesis using d(2) by blast
qed

text \<open>
  C2: \<^verbatim>\<open>slurm_step_layout_create\<close>, for every distribution and a request whose arrays describe the
  nodes, returns a layout in which the nodes' task ids are a partition of the tasks of the step,
  in ascending order on every node.
\<close>

theorem step_layout_create_ok:
  assumes "req_ok req (length hosts)"
    and "hosts = (let l = hl_create (req_node_list req) in
      if base_dist (req_task_dist req) = SLURM_DIST_ARBITRARY then hl_uniq l else l)"
    and "hosts \<noteq> []" and "unat (req_num_hosts req) = length hosts"
    and "unat (req_num_tasks req) < 65536" and "cluster_flags AND CLUSTER_FLAG_FE = 0"
    and "base_dist (req_task_dist req) = SLURM_DIST_PLANE \<longrightarrow> req_plane_size req \<noteq> 0"
    and "base_dist (req_task_dist req) = SLURM_DIST_ARBITRARY \<longrightarrow>
      hostlist_laws hl_create hl_uniq hl_string (req_node_list req) \<and> req_node_list req \<noteq> None \<and>
      length (hl_create (req_node_list req)) = unat (req_num_tasks req)"
  shows "\<exists>sl req'. slurm_step_layout_create hl_create hl_uniq hl_string cluster_flags select_params req =
      Some (Some sl, req') \<and> layout_ok sl \<and> unat (node_cnt sl) = length hosts \<and> task_cnt sl = req_num_tasks req"
proof -
  let ?arb = "base_dist (req_task_dist req) = SLURM_DIST_ARBITRARY"
  let ?nodes = "if ?arb then Some (hl_string hosts) else req_node_list req"
  let ?sl = "empty_layout\<lparr>task_dist := req_task_dist req, node_list := ?nodes,
    task_cnt := req_num_tasks req, node_cnt := req_num_hosts req\<rparr>"
  have req: "(if ?arb then req\<lparr>req_num_hosts := of_nat (length hosts)\<rparr> else req) = req"
    by (simp flip: assms(4))
  have nh: "of_nat (length hosts) = req_num_hosts req" by (simp flip: assms(4))
  have nz: "req_num_hosts req \<noteq> 0" using assms(3,4) by auto
  have len: "length (hl_create ?nodes) = length hosts"
    using assms(2,8) by (auto simp: hostlist_laws_def Let_def)
  have "\<exists>ts ids req'. init_task_layout hl_create cluster_flags select_params req ?sl
        (if ?arb then req_node_list req else None) =
      Some (SLURM_SUCCESS, ?sl\<lparr>plane_size := req_plane_size req, tasks := Some ts, tids := Some ids\<rparr>, req') \<and>
    tids_ok (unat (node_cnt ?sl)) (unat (task_cnt ?sl)) ts ids"
    using assms nz len
    by (intro init_task_layout_ok [where nodes = "the (req_node_list req)"])
       (auto simp: empty_layout_def hostlist_laws_def Let_def)
  then obtain ts ids req' where i: "init_task_layout hl_create cluster_flags select_params req ?sl
        (if ?arb then req_node_list req else None) =
      Some (SLURM_SUCCESS, ?sl\<lparr>plane_size := req_plane_size req, tasks := Some ts, tids := Some ids\<rparr>, req')"
      "tids_ok (unat (req_num_hosts req)) (unat (req_num_tasks req)) ts ids"
    by auto
  have "slurm_step_layout_create hl_create hl_uniq hl_string cluster_flags select_params req =
      Some (Some (?sl\<lparr>plane_size := req_plane_size req, tasks := Some ts, tids := Some ids\<rparr>), req')"
    using i(1) assms(2,6) req nh by (auto simp: slurm_step_layout_create_def Let_def)
  then show ?thesis using i(2) assms(4) by (auto simp: layout_ok_def)
qed

theorem step_layout_create_ok_witness:
  "\<exists>sl req'. slurm_step_layout_create (\<lambda>s. if s = Some [1] then [[97], [98], [97]] else [[97], [98]])
      (\<lambda>l. [[97], [98]]) (\<lambda>l. [2]) 0 0
      \<lparr>req_node_list = Some [1], req_cpus_per_node = [4, 2], req_cpu_count_reps = [1, 1], req_num_hosts = 2,
       req_num_tasks = 3, req_cpus_per_task = None, req_cpus_task_reps = [], req_task_dist = SLURM_DIST_ARBITRARY,
       req_plane_size = 0\<rparr> = Some (Some sl, req') \<and>
    layout_ok sl \<and> unat (node_cnt sl) = length [[97], [98 :: u8]] \<and> task_cnt sl = 3"
proof -
  let ?req = "\<lparr>req_node_list = Some [1], req_cpus_per_node = [4, 2], req_cpu_count_reps = [1, 1], req_num_hosts = 2,
       req_num_tasks = 3, req_cpus_per_task = None, req_cpus_task_reps = [], req_task_dist = SLURM_DIST_ARBITRARY,
       req_plane_size = 0\<rparr> :: slurm_step_layout_req"
  have d: "base_dist SLURM_DIST_ARBITRARY = SLURM_DIST_ARBITRARY" "base_dist SLURM_DIST_ARBITRARY \<noteq> SLURM_DIST_PLANE"
    by (simp_all add: SLURM_DIST_ARBITRARY_def SLURM_DIST_STATE_BASE_def SLURM_DIST_PLANE_def)
  show ?thesis
    using step_layout_create_ok [of ?req "[[97], [98]]" "\<lambda>s. if s = Some [1] then [[97], [98], [97]] else [[97], [98]]"
        "\<lambda>l. [[97], [98]]" 0 "\<lambda>l. [2]" 0] d
    by (auto simp: req_ok_def hostlist_laws_def)
qed


section \<open>Properties of the distributions\<close>

text \<open>
  C14: The block distribution returns; the task ids run through the nodes in order, a node is
  over-subscribed only when the CPUs of all nodes are in use, and with packed nodes every node
  before some node is full while the nodes after it have at most one task.
\<close>

theorem block_distribution:
  assumes "fresh sl" and "unat (task_cnt sl) < 65536"
  defines "n \<equiv> unat (node_cnt sl)" and "tc \<equiv> unat (task_cnt sl)"
  shows "\<exists>ts ids. task_layout_block select_params sl cpus =
      Some (SLURM_SUCCESS, sl\<lparr>tasks := Some ts, tids := Some ids\<rparr>) \<and>
    tids_ok n tc ts ids \<and> concat (map (node_tids ids) [0..<n]) = map of_nat [0..<tc] \<and>
    (if tc \<le> (\<Sum>i<n. unat (cpus ! i)) then \<forall>i<n. ts ! i \<le> cpus ! i else \<forall>i<n. cpus ! i \<le> ts ! i) \<and>
    (packs_nodes select_params sl \<and> tc \<le> (\<Sum>i<n. unat (cpus ! i)) \<longrightarrow> (\<exists>p. filled n cpus n p ts))"
proof (rule block_layout [OF assms(1,2), of select_params cpus, folded n_def tc_def])
  fix ts ids N
  assume b: "task_layout_block select_params sl cpus =
        Some (SLURM_SUCCESS, sl\<lparr>tasks := Some ts, tids := Some ids\<rparr>)" "tids_ok n tc ts ids"
      "concat (map (node_tids ids) [0..<n]) = map of_nat [0..<tc]"
    and N: "counts n ts N" "tc = (\<Sum>i<n. N i)" "cpus_first n cpus N"
    and p: "packs_nodes select_params sl \<Longrightarrow> tc \<le> (\<Sum>i<n. unat (cpus ! i)) \<Longrightarrow> \<exists>p. filled n cpus n p ts"
  have u: "unat (ts ! i) = N i" if "i < n" for i
    using counts_below(1) [OF N(1) _ that] N(2) assms(2) by (simp add: tc_def)
  have "if tc \<le> (\<Sum>i<n. unat (cpus ! i)) then \<forall>i<n. ts ! i \<le> cpus ! i else \<forall>i<n. cpus ! i \<le> ts ! i"
    using cpus_first_capacity [OF N(3)] N(2) u by (simp add: word_le_nat_alt)
  then show ?thesis using b p by blast
qed

definition fresh_layout :: "u32 \<Rightarrow> u32 \<Rightarrow> u16 \<Rightarrow> slurm_step_layout" where
  "fresh_layout n tc plane = empty_layout\<lparr>node_cnt := n, task_cnt := tc, plane_size := plane,
     tasks := Some (replicate (unat n) 0), tids := Some (replicate (unat n) None)\<rparr>"

lemma fresh_layout: "0 < n \<Longrightarrow> fresh (fresh_layout n tc plane)"
  by (auto simp: fresh_layout_def fresh_def empty_layout_def)

lemma lessThan_2: "{..<2 :: nat} = {0, 1}"
  by auto

lemma fresh_layout_sel [simp]:
  "node_cnt (fresh_layout n tc plane) = n" "task_cnt (fresh_layout n tc plane) = tc"
  "plane_size (fresh_layout n tc plane) = plane"
  by (simp_all add: fresh_layout_def empty_layout_def)

theorem block_distribution_witness:
  "\<exists>ts ids. task_layout_block 0 (fresh_layout 2 5 0) [4, 2] =
      Some (SLURM_SUCCESS, (fresh_layout 2 5 0)\<lparr>tasks := Some ts, tids := Some ids\<rparr>) \<and>
    tids_ok 2 5 ts ids \<and> concat (map (node_tids ids) [0..<2]) = map of_nat [0..<5] \<and>
    ts ! 0 \<le> 4 \<and> ts ! 1 \<le> 2"
proof -
  have "(\<Sum>i<2. unat ([4, 2 :: u16] ! i)) = 6" by (simp add: lessThan_2)
  then obtain ts ids where "task_layout_block 0 (fresh_layout 2 5 0) [4, 2] =
        Some (SLURM_SUCCESS, (fresh_layout 2 5 0)\<lparr>tasks := Some ts, tids := Some ids\<rparr>)"
      "tids_ok 2 5 ts ids" "concat (map (node_tids ids) [0..<2]) = map of_nat [0..<5]"
      and ts: "\<forall>i<2. ts ! i \<le> [4, 2] ! i"
    using block_distribution [OF fresh_layout [of 2 5 0], of 0 "[4, 2]"] by auto
  moreover have "ts ! 0 \<le> 4" "ts ! 1 \<le> 2" using spec [OF ts, of 0] spec [OF ts, of 1] by simp_all
  ultimately show ?thesis by blast
qed

text \<open>
  C15: The cyclic distribution gives every node as many tasks as the block distribution without
  packing does, as evenly as the CPUs allow.
\<close>

theorem cyclic_distribution:
  assumes "fresh sl" and "unat (task_cnt sl) < 65536" and "\<not> packs_nodes select_params sl"
  defines "n \<equiv> unat (node_cnt sl)" and "tc \<equiv> unat (task_cnt sl)"
  shows "\<exists>ts ids ids'. task_layout_cyclic sl cpus = Some (SLURM_SUCCESS, sl\<lparr>tasks := Some ts, tids := Some ids\<rparr>) \<and>
    task_layout_block select_params sl cpus = Some (SLURM_SUCCESS, sl\<lparr>tasks := Some ts, tids := Some ids'\<rparr>) \<and>
    tids_ok n tc ts ids \<and>
    (if tc \<le> (\<Sum>i<n. unat (cpus ! i)) then \<forall>i<n. ts ! i \<le> cpus ! i else \<forall>i<n. cpus ! i \<le> ts ! i) \<and>
    (\<forall>i<n. \<forall>k<n. ts ! i < cpus ! i \<longrightarrow> unat (ts ! k) \<le> Suc (unat (ts ! i)))"
proof (rule cyclic_layout [OF assms(1,2), of cpus, folded n_def tc_def])
  fix ts ids N
  assume c: "task_layout_cyclic sl cpus = Some (SLURM_SUCCESS, sl\<lparr>tasks := Some ts, tids := Some ids\<rparr>)" "tids_ok n tc ts ids"
    and N: "counts n ts N" "tc = (\<Sum>i<n. N i)" "final_level n cpus N"
  have u: "unat (ts ! i) = N i" if "i < n" for i
    using counts_below(1) [OF N(1) _ that] N(2) assms(2) by (simp add: tc_def)
  have "if tc \<le> (\<Sum>i<n. unat (cpus ! i)) then \<forall>i<n. ts ! i \<le> cpus ! i else \<forall>i<n. cpus ! i \<le> ts ! i"
    using cpus_first_capacity [OF final_level_cpus_first [OF N(3)]] N(2) u by (simp add: word_le_nat_alt)
  moreover have "\<forall>i<n. \<forall>k<n. ts ! i < cpus ! i \<longrightarrow> unat (ts ! k) \<le> Suc (unat (ts ! i))"
    using final_level_even(1) [OF N(3)] u by (simp add: word_less_nat_alt)
  ultimately show ?thesis using c cyclic_counts_block [OF c(1) assms(3)] by blast
qed

theorem cyclic_distribution_witness:
  "\<exists>ts ids ids'. task_layout_cyclic (fresh_layout 2 5 0) [4, 2] =
      Some (SLURM_SUCCESS, (fresh_layout 2 5 0)\<lparr>tasks := Some ts, tids := Some ids\<rparr>) \<and>
    task_layout_block 0 (fresh_layout 2 5 0) [4, 2] =
      Some (SLURM_SUCCESS, (fresh_layout 2 5 0)\<lparr>tasks := Some ts, tids := Some ids'\<rparr>) \<and>
    tids_ok 2 5 ts ids \<and> ts ! 0 \<le> 4 \<and> ts ! 1 \<le> 2"
proof -
  have "(\<Sum>i<2. unat ([4, 2 :: u16] ! i)) = 6" by (simp add: lessThan_2)
  moreover have "\<not> packs_nodes 0 (fresh_layout 2 5 0)"
    by (simp add: packs_nodes_def fresh_layout_def empty_layout_def)
  ultimately obtain ts ids ids' where "task_layout_cyclic (fresh_layout 2 5 0) [4, 2] =
        Some (SLURM_SUCCESS, (fresh_layout 2 5 0)\<lparr>tasks := Some ts, tids := Some ids\<rparr>)"
      "task_layout_block 0 (fresh_layout 2 5 0) [4, 2] =
        Some (SLURM_SUCCESS, (fresh_layout 2 5 0)\<lparr>tasks := Some ts, tids := Some ids'\<rparr>)"
      "tids_ok 2 5 ts ids" and ts: "\<forall>i<2. ts ! i \<le> [4, 2] ! i"
    using cyclic_distribution [OF fresh_layout [of 2 5 0], of 0 "[4, 2]"] by auto
  moreover have "ts ! 0 \<le> 4" "ts ! 1 \<le> 2" using spec [OF ts, of 0] spec [OF ts, of 1] by simp_all
  ultimately show ?thesis by blast
qed



text \<open>
  With planes of one task the first cycle always reports that no CPU is left: of five tasks
  on nodes with four and one CPUs, the second node gets two.
\<close>

theorem plane_size_one_oversubscribes:
  "task_layout_plane (fresh_layout 2 5 1) [4, 1] =
     Some (SLURM_SUCCESS, (fresh_layout 2 5 1)\<lparr>tasks := Some [3, 2], tids := Some [Some [0, 2, 4], Some [1, 3]]\<rparr>)"
  by code_simp

lemma block_cycle_length:
  "block_cycle n tc cpus j over (ts, tk) = (ts', tk', space) \<Longrightarrow> length ts' = length ts"
proof -
  assume c: "block_cycle n tc cpus j over (ts, tk) = (ts', tk', space)"
  have "(\<lambda>(ts', tk', space :: bool). length ts' = length ts) (block_cycle n tc cpus j over (ts, tk))"
    unfolding block_cycle_def prod.case by (rule for_while_inv) (auto simp: bump_def split: if_splits)
  then show ?thesis by (simp add: c)
qed

lemma block_cycles_length:
  assumes "block_cycles n tc cpus ts0 = Some ts"
  shows "length ts = length ts0"
proof -
  let ?P = "\<lambda>(j :: nat, over :: bool, ts, tk :: nat). length ts = length (ts0 :: u16 list)"
  obtain j over tk where w: "while_option (\<lambda>(j, over, ts, tk). tk < tc)
      (\<lambda>(j, over, ts, tk). let (ts, tk, space) = block_cycle n tc cpus j over (ts, tk)
         in (Suc j, over \<or> \<not> space, ts, tk)) (0, False, ts0, 0) = Some (j, over, ts, tk)"
    using assms by (auto simp: block_cycles_def)
  have "?P (j, over, ts, tk)"
    by (rule while_option_rule [where P = ?P, OF _ w]) (auto dest: block_cycle_length split: prod.splits)
  then show ?thesis by simp
qed

text \<open>
  The counts are 16 bits wide: the block distribution of \<open>n\<close> tasks on one node reports success
  with \<open>n mod 65536\<close> tasks placed.
\<close>

theorem block_count_wraps:
  assumes "\<not> packs_nodes select_params (fresh_layout 1 tc 0)" and "n = unat tc"
  shows "task_layout_block select_params (fresh_layout 1 tc 0) cpus = Some (SLURM_SUCCESS,
    (fresh_layout 1 tc 0)\<lparr>tasks := Some [of_nat n], tids := Some [Some (map of_nat [0..<n mod 65536])]\<rparr>)"
proof (rule block_cycles_levels [of 1 1 n cpus])
  fix ts N
  assume ts: "block_cycles 1 n cpus (replicate 1 0) = Some ts" and N: "counts 1 ts N" "n = (\<Sum>i<1. N i)"
  have "length ts = 1" using block_cycles_length [OF ts] by simp
  then have "ts = [of_nat n]" using N by (auto simp: length_Suc_conv counts_def)
  then show ?thesis using ts assms(1)
    by (simp add: task_layout_block_def packs_nodes_def Let_def fresh_layout_def empty_layout_def
          number_tasks_def unat_of_nat flip: assms(2))
qed simp_all

theorem block_count_wraps_witness:
  "task_layout_block 0 (fresh_layout 1 65536 0) [1] =
     Some (SLURM_SUCCESS, (fresh_layout 1 65536 0)\<lparr>tasks := Some [0], tids := Some [Some []]\<rparr>)"
  using block_count_wraps [of 0 65536 65536 "[1]"] by (simp add: packs_nodes_def fresh_layout_def empty_layout_def)

end
