(* ===== verification/Step_Layout_Use.thy ===== *)
theory Step_Layout_Use
  imports Step_Layout_Create
begin

text \<open>Searching and copying a layout, and layouts made without an allocation.\<close>

section \<open>The node of a task\<close>

lemma layout_okE:
  assumes "layout_ok sl"
  obtains ts ids where "tasks sl = Some ts" "tids sl = Some ids"
    "tids_ok (unat (node_cnt sl)) (unat (task_cnt sl)) ts ids"
  using assms by (auto simp: layout_ok_def split: option.splits prod.splits)

lemma tids_ok_node:
  assumes "tids_ok n tc ts ids" and "t < tc" and "tc < 2 ^ 32"
  shows "\<exists>i<n. of_nat t \<in> set (node_tids ids i) \<and> (\<forall>k<n. of_nat t \<in> set (node_tids ids k) \<longrightarrow> k = i)"
proof -
  let ?f = "\<lambda>i. mset (map unat (node_tids ids i))"
  have sum: "(\<Sum>i<n. ?f i) = mset [0..<tc]" using assms(1) by (simp add: tids_ok_def mset_concat_upt)
  have "count (\<Sum>i<n. ?f i) t = 1" unfolding sum using assms(2) by simp
  then have one: "(\<Sum>i<n. count (?f i) t) = 1" by (simp add: count_sum)
  have mem: "of_nat t \<in> set (node_tids ids i) \<longleftrightarrow> 0 < count (?f i) t" for i
  proof -
    have u: "unat (of_nat t :: u32) = t" using assms(2,3) by (simp add: unat_of_nat)
    then have "x = of_nat t" if "unat x = t" for x :: u32 using that by (simp add: word_unat_eq_iff)
    then have "of_nat t \<in> set (node_tids ids i)" if "t \<in> unat ` set (node_tids ids i)" using that by (elim imageE) simp
    moreover have "t \<in> unat ` set (node_tids ids i)" if "of_nat t \<in> set (node_tids ids i)"
      using imageI [OF that, of unat] u by simp
    ultimately have "of_nat t \<in> set (node_tids ids i) \<longleftrightarrow> t \<in> unat ` set (node_tids ids i)" by (rule iffI [rotated])
    then show ?thesis by (simp add: count_greater_zero_iff)
  qed
  have "\<exists>i<n. 0 < count (?f i) t"
  proof (rule ccontr)
    assume "\<not> ?thesis"
    then have "(\<Sum>i<n. count (?f i) t) = (\<Sum>i<n. 0)" by (intro sum.cong) (simp_all only: lessThan_iff neq0_conv [symmetric], blast)
    then show False using one by simp
  qed
  then obtain i where i: "i < n" "0 < count (?f i) t" by blast
  moreover have "k = i" if "k < n" "0 < count (?f k) t" for k
  proof (rule ccontr)
    assume "k \<noteq> i"
    then have "(\<Sum>j\<in>{i, k}. g j) = g i + g k" for g :: "nat \<Rightarrow> nat" by simp
    from this [of "\<lambda>j. count (?f j) t"] have "(\<Sum>j\<in>{i, k}. count (?f j) t) \<ge> 2" using i(2) that(2) by linarith
    moreover have "(\<Sum>j\<in>{i, k}. count (?f j) t) \<le> (\<Sum>j<n. count (?f j) t)"
      using i(1) that(1) by (intro sum_mono2) auto
    ultimately show False using one by simp
  qed
  ultimately show ?thesis using mem by blast
qed

lemma node_has_task_eq:
  assumes "tids_ok n tc ts ids" and "i < n"
  shows "node_has_task ts ids x i = Some (x \<in> set (node_tids ids i))"
proof -
  have a: "i < length ts" "i < length ids" "length (node_tids ids i) = unat (ts ! i)"
    using assms by (auto simp: tids_ok_def)
  have "existsM [0..<unat (ts ! i)] (\<lambda>j. do { l \<leftarrow> readA ids i; l \<leftarrow> l; y \<leftarrow> readA l j; Some (y = x) }) =
      Some (\<exists>j \<in> set [0..<unat (ts ! i)]. node_tids ids i ! j = x)"
    using a by (intro existsM_Bex) (auto simp: node_tids_def split: option.splits)
  then show ?thesis using a by (auto simp: node_has_task_def in_set_conv_nth)
qed

lemma node_has_task_cong:
  assumes "layout_ok sl" and "layout_ok sl'" and "node_cnt sl' = node_cnt sl" and "task_cnt sl' = task_cnt sl"
    and "\<And>i. i < unat (node_cnt sl) \<Longrightarrow> node_tids (the (tids sl')) i = node_tids (the (tids sl)) i"
  shows "findM [0..<unat (node_cnt sl)] (node_has_task (the (tasks sl')) (the (tids sl')) x) =
    findM [0..<unat (node_cnt sl)] (node_has_task (the (tasks sl)) (the (tids sl)) x)"
proof -
  obtain ts ids where l: "tasks sl = Some ts" "tids sl = Some ids" "tids_ok (unat (node_cnt sl)) (unat (task_cnt sl)) ts ids"
    using assms(1) by (rule layout_okE)
  obtain ts' ids' where l': "tasks sl' = Some ts'" "tids sl' = Some ids'"
      "tids_ok (unat (node_cnt sl)) (unat (task_cnt sl)) ts' ids'"
    using assms(2) unfolding assms(3,4) [symmetric] by (rule layout_okE)
  have "findM [0..<unat (node_cnt sl)] (node_has_task ts ids x) =
      Some (find (\<lambda>i. x \<in> set (node_tids ids i)) [0..<unat (node_cnt sl)])"
    using node_has_task_eq [OF l(3)] by (intro findM_find) simp
  moreover have "findM [0..<unat (node_cnt sl)] (node_has_task ts' ids' x) =
      Some (find (\<lambda>i. x \<in> set (node_tids ids i)) [0..<unat (node_cnt sl)])"
    using node_has_task_eq [OF l'(3)] assms(5) l(2) l'(2) by (intro findM_find) simp
  ultimately show ?thesis using l(1,2) l'(1,2) by simp
qed

lemma host_id_same:
  assumes "layout_ok sl" and "layout_ok sl'" and "node_cnt sl' = node_cnt sl" and "task_cnt sl' = task_cnt sl"
    and "\<And>i. i < unat (node_cnt sl) \<Longrightarrow> node_tids (the (tids sl')) i = node_tids (the (tids sl)) i"
  shows "slurm_step_layout_host_id sl' t = slurm_step_layout_host_id sl t"
  using node_has_task_cong [OF assms, of "word_of_int t"] assms(1-4)
  by (auto simp: slurm_step_layout_host_id_def layout_ok_def split: option.splits)

text \<open>
  C33: In a good layout \<^verbatim>\<open>slurm_step_layout_host_id\<close> returns, for every task of the step, the one
  node that has it, and an error for a task id that is too large.
\<close>

theorem host_id_correct:
  assumes "layout_ok sl" and "0 \<le> taskid" and "taskid < 2 ^ 31" and "0 < task_cnt sl"
  shows "if taskid < int (unat (task_cnt sl))
    then \<exists>i < unat (node_cnt sl). slurm_step_layout_host_id sl taskid = Some (int i) \<and>
      (\<forall>k < unat (node_cnt sl). of_int taskid \<in> set (node_tids (the (tids sl)) k) \<longleftrightarrow> k = i)
    else slurm_step_layout_host_id sl taskid = Some SLURM_ERROR"
proof -
  let ?n = "unat (node_cnt sl)" and ?tc = "unat (task_cnt sl)"
  obtain ts ids where l: "tasks sl = Some ts" "tids sl = Some ids" "tids_ok ?n ?tc ts ids"
    using assms(1) by (rule layout_okE)
  define t where "t = nat taskid"
  have t: "taskid = int t" "t < 2 ^ 31" using assms(2,3) by (auto simp: t_def)
  have x: "unat (of_nat t :: u32) = t" using t(2) by (simp add: unat_of_nat)
  have tc: "0 < ?tc" "?tc < 2 ^ 32" using assms(4) unsigned_less [of "task_cnt sl"] by (auto simp: unat_gt_0)
  have "unat (task_cnt sl - 1) = ?tc - 1" using assms(4) by (simp add: unat_minus_one)
  then have cmp: "(of_nat t :: u32) > task_cnt sl - 1 \<longleftrightarrow> \<not> t < ?tc"
    using x tc(1) by (auto simp: word_less_nat_alt)
  have run: "findM [0..<?n] (node_has_task ts ids (of_nat t)) = Some (find (\<lambda>i. of_nat t \<in> set (node_tids ids i)) [0..<?n])"
    using node_has_task_eq [OF l(3)] by (intro findM_find) simp
  show ?thesis
  proof (cases "t < ?tc")
    case True
    then obtain i where i: "i < ?n" "of_nat t \<in> set (node_tids ids i)"
        "\<forall>k<?n. of_nat t \<in> set (node_tids ids k) \<longrightarrow> k = i"
      using tids_ok_node [OF l(3) True tc(2)] by blast
    have "find (\<lambda>i. of_nat t \<in> set (node_tids ids i)) [0..<?n] = Some i"
    proof (cases "find (\<lambda>i. of_nat t \<in> set (node_tids ids i)) [0..<?n]")
      case None
      then show ?thesis using i(1,2) by (auto simp: find_None_iff)
    next
      case (Some k)
      then show ?thesis using find_upt_Some [OF Some] i(3) by simp
    qed
    then have "slurm_step_layout_host_id sl taskid = Some (int i)"
      using l(1,2) run True cmp t(1) by (simp add: slurm_step_layout_host_id_def)
    moreover have "\<forall>k<?n. of_nat t \<in> set (node_tids ids k) \<longleftrightarrow> k = i" using i by blast
    moreover have c: "taskid < int ?tc" using True by (simp only: t(1) of_nat_less_iff)
    ultimately show ?thesis unfolding if_P [OF c] using i(1) t(1) l(2) by (intro exI [of _ i] conjI) simp_all
  next
    case False
    then have c: "\<not> taskid < int ?tc" by (simp only: t(1) of_nat_less_iff not_False_eq_True)
    show ?thesis unfolding if_not_P [OF c] using l(1,2) cmp False t(1) by (simp add: slurm_step_layout_host_id_def)
  qed
qed

definition sample_layout :: slurm_step_layout where
  "sample_layout = empty_layout\<lparr>node_cnt := 2, task_cnt := 3, front_end := Some [102], tasks := Some [2, 1],
     tids := Some [Some [0, 2], Some [1]]\<rparr>"

lemma sample_layout_ok: "layout_ok sample_layout"
  by code_simp

theorem host_id_correct_witness:
  "\<exists>i. slurm_step_layout_host_id sample_layout 2 = Some (int i) \<and> i < 2 \<and> slurm_step_layout_host_id sample_layout 7 = Some SLURM_ERROR"
proof -
  have [simp]: "node_cnt sample_layout = 2" "task_cnt sample_layout = 3" by (simp_all add: sample_layout_def empty_layout_def)
  show ?thesis using host_id_correct [OF sample_layout_ok, of 2] host_id_correct [OF sample_layout_ok, of 7] by auto
qed


section \<open>Copies\<close>

lemma those_map_Some: "(\<And>x. x \<in> set xs \<Longrightarrow> f x = Some (g x)) \<Longrightarrow> those (map f xs) = Some (map g xs)"
  by (induction xs) auto

text \<open>
  The copy of a good layout has the same tasks on the same nodes and is good; the front end
  and the plane size are not copied.
\<close>

theorem layout_copy_ok:
  assumes "layout_ok sl"
  shows "\<exists>sl'. slurm_step_layout_copy (Some sl) = Some (Some sl') \<and> layout_ok sl' \<and>
    node_list sl' = node_list sl \<and> node_cnt sl' = node_cnt sl \<and> task_cnt sl' = task_cnt sl \<and>
    task_dist sl' = task_dist sl \<and> start_protocol_ver sl' = start_protocol_ver sl \<and>
    (\<forall>i < unat (node_cnt sl). the (tasks sl') ! i = the (tasks sl) ! i \<and>
       node_tids (the (tids sl')) i = node_tids (the (tids sl)) i) \<and>
    front_end sl' = None \<and> plane_size sl' = 0"
proof -
  let ?n = "unat (node_cnt sl)"
  obtain ts ids where l: "tasks sl = Some ts" "tids sl = Some ids" "tids_ok ?n (unat (task_cnt sl)) ts ids"
    using assms by (rule layout_okE)
  let ?ids = "map (\<lambda>i. Some (node_tids ids i)) [0..<?n]"
  have len: "length (node_tids ids i) = unat (ts ! i)" if "i < ?n" for i using l(3) that by (simp add: tids_ok_def)
  have "copy_tids (ts ! i) (ids ! i) = Some (Some (node_tids ids i))" if "i < ?n" for i
    using len [OF that] by (auto simp: copy_tids_def node_tids_def unat_eq_0 split: option.splits)
  then have t: "those (map (\<lambda>i. copy_tids (ts ! i) (ids ! i)) [0..<?n]) = Some ?ids"
    by (intro those_map_Some) simp
  have n: "node_tids ?ids i = node_tids ids i" if "i < ?n" for i using that by (simp add: node_tids_def)
  then have e: "map (\<lambda>i. map unat (node_tids ?ids i)) [0..<?n] = map (\<lambda>i. map unat (node_tids ids i)) [0..<?n]"
    by (intro map_cong) auto
  have "tids_ok ?n (unat (task_cnt sl)) (take ?n ts) ?ids"
    using l(3) n unfolding tids_ok_def e by auto
  then show ?thesis
    using l t n by (auto simp: slurm_step_layout_copy_def Let_def layout_ok_def empty_layout_def tids_ok_def)
qed

theorem layout_copy_ok_witness:
  "\<exists>sl'. slurm_step_layout_copy (Some sample_layout) = Some (Some sl') \<and> layout_ok sl' \<and> front_end sl' = None"
  using layout_copy_ok [OF sample_layout_ok] by blast


section \<open>Layouts without an allocation\<close>

lemma fake_fill_all:
  assumes "j \<le> cpn" and "tk + (cpn - j) \<le> tc" and "length l = cpn" and "t = of_nat cpn" and "j < cpn \<or> 0 < j"
  shows "fake_fill tc cpn j (l, t, tk) =
    (take j l @ map of_nat [tk..<tk + (cpn - j)], of_nat cpn, tk + (cpn - j))"
  using assms
proof (induction "cpn - j" arbitrary: j l tk)
  case 0
  then show ?case by (simp add: fake_fill.simps)
next
  case (Suc d)
  then have j: "j < cpn" by simp
  have e1: "tk + (cpn - j) = Suc tk + (cpn - Suc j)" using j by simp
  have up: "[tk..<tk + (cpn - j)] = tk # [Suc tk..<Suc tk + (cpn - Suc j)]"
    unfolding e1 [symmetric] by (rule upt_conv_Cons) (use j in simp)
  have e: "fake_fill tc cpn j (l, t, tk) = (if Suc tk \<ge> tc then (l[j := of_nat tk], of_nat (Suc j), Suc tk)
      else fake_fill tc cpn (Suc j) (l[j := of_nat tk], t, Suc tk))"
    using j by (subst fake_fill.simps) (simp add: Let_def)
  have l: "take (Suc j) (l[j := of_nat tk]) = take j l @ [of_nat tk]"
    using j Suc.prems(3) by (simp add: take_update_last)
  show ?case
  proof (cases "Suc tk \<ge> tc")
    case True
    then have "cpn = Suc j" using Suc.prems(2) j by simp
    then show ?thesis using True e l Suc.prems(3) by simp
  next
    case False
    have "fake_fill tc cpn (Suc j) (l[j := of_nat tk], t, Suc tk) =
        (take (Suc j) (l[j := of_nat tk]) @ map of_nat [Suc tk..<Suc tk + (cpn - Suc j)], of_nat cpn, Suc tk + (cpn - Suc j))"
      using Suc.hyps(2) Suc.prems j by (intro Suc.hyps(1)) auto
    then show ?thesis using False e l up e1 by simp
  qed
qed

text \<open>The share of the next node when \<open>r\<close> tasks are left for \<open>k\<close> nodes.\<close>

definition share :: "nat \<Rightarrow> nat \<Rightarrow> nat" where
  "share r k = (r + k - 1) div k"

lemma share_bounds:
  assumes "0 < k" and "q * k \<le> r" and "r \<le> Suc q * k"
  shows "share r k = (if r = q * k then q else Suc q)" and "share r k \<le> r"
    and "q * (k - 1) \<le> r - share r k" and "r - share r k \<le> Suc q * (k - 1)"
proof -
  obtain m where k: "k = Suc m" using assms(1) by (cases k) auto
  show s: "share r k = (if r = q * k then q else Suc q)"
  proof (cases "r = q * k")
    case True
    then have "k * q \<le> r + k - 1" "r + k - 1 < k * Suc q" by (auto simp: k algebra_simps)
    then show ?thesis using True unfolding share_def by (simp add: div_nat_eqI)
  next
    case False
    then have "k * Suc q \<le> r + k - 1" "r + k - 1 < k * Suc (Suc q)" using assms by (auto simp: k algebra_simps)
    then show ?thesis using False unfolding share_def by (simp add: div_nat_eqI)
  qed
  show "share r k \<le> r" "q * (k - 1) \<le> r - share r k" "r - share r k \<le> Suc q * (k - 1)"
    using s assms by (auto simp: k algebra_simps)
qed

lemma fake_share_word:
  fixes nc tc :: u32
  assumes "tk \<le> unat tc" and "i < unat nc" and "unat tc + unat nc < 2 ^ 32"
  shows "unat (((tc - of_nat tk) + (nc - of_nat i) - 1) div (nc - of_nat i)) = share (unat tc - tk) (unat nc - i)"
proof -
  have tk: "unat (of_nat tk :: u32) = tk" "unat (of_nat i :: u32) = i" using assms by (auto simp: unat_of_nat)
  have a: "unat (tc - of_nat tk) = unat tc - tk" using assms(1) tk by (simp add: unat_sub word_le_nat_alt)
  have b: "unat (nc - of_nat i) = unat nc - i" using assms(2) tk by (simp add: unat_sub word_le_nat_alt)
  have c: "unat ((tc - of_nat tk) + (nc - of_nat i)) = (unat tc - tk) + (unat nc - i)"
    using unat_word_ariths(1) [of "tc - of_nat tk" "nc - of_nat i"] a b assms(3) by simp
  have "unat ((tc - of_nat tk) + (nc - of_nat i) - 1) = (unat tc - tk) + (unat nc - i) - 1"
    using c assms(2) by (subst unat_minus_one) (auto simp: unat_gt_0 [symmetric])
  then show ?thesis using b by (simp add: share_def unat_div)
qed

lemma upt_split: "a \<le> b \<Longrightarrow> b \<le> c \<Longrightarrow> [a..<c] = [a..<b] @ [b..<c]"
  by (metis le_add_diff_inverse upt_add_eq_append)

lemma fake_nodes_balanced:
  assumes "cpus_per_node = None \<or> cpu_count_reps = None" and "tk \<le> unat tc" and "i \<le> unat nc"
    and "unat tc < 65536" and "unat tc + unat nc < 2 ^ 32"
    and "q * (unat nc - i) \<le> unat tc - tk" and "unat tc - tk \<le> Suc q * (unat nc - i)"
  shows "\<exists>r. fake_nodes cpus_per_node cpu_count_reps nc tc [i..<unat nc] inx cnt tk = Some (r, unat tc) \<and>
    length r = unat nc - i \<and>
    (\<forall>(t, l) \<in> set r. (unat t = q \<or> unat t = Suc q) \<and> length (case l of None \<Rightarrow> [] | Some l \<Rightarrow> l) = unat t) \<and>
    concat (map (\<lambda>(t, l). case l of None \<Rightarrow> [] | Some l \<Rightarrow> l) r) = map of_nat [tk..<unat tc]"
  using assms
proof (induction "unat nc - i" arbitrary: i tk)
  case 0
  then show ?case by simp
next
  case (Suc d)
  have i: "i < unat nc" using Suc.hyps(2) by simp
  have up: "[i..<unat nc] = i # [Suc i..<unat nc]" using i by (rule upt_conv_Cons)
  define c where "c = share (unat tc - tk) (unat nc - i)"
  note sb = share_bounds [of "unat nc - i" q "unat tc - tk", folded c_def]
  have c: "c = q \<or> c = Suc q" "c \<le> unat tc - tk" "q * (unat nc - Suc i) \<le> unat tc - (tk + c)"
      "unat tc - (tk + c) \<le> Suc q * (unat nc - Suc i)"
    using sb Suc.prems(6,7) i by (auto split: if_splits)
  have w: "unat (((tc - of_nat tk) + (nc - of_nat i) - 1) div (nc - of_nat i)) = c"
    unfolding c_def using Suc.prems(2,5) i by (intro fake_share_word)
  have d: "d = unat nc - Suc i" and le: "tk + c \<le> unat tc" using Suc.hyps(2) Suc.prems(2) c(2) by simp_all
  obtain r where r: "fake_nodes cpus_per_node cpu_count_reps nc tc [Suc i..<unat nc] inx cnt (tk + c) = Some (r, unat tc)"
      "length r = unat nc - Suc i"
      "\<forall>(t, l) \<in> set r. (unat t = q \<or> unat t = Suc q) \<and> length (case l of None \<Rightarrow> [] | Some l \<Rightarrow> l) = unat t"
      "concat (map (\<lambda>(t, l). case l of None \<Rightarrow> [] | Some l \<Rightarrow> l) r) = map of_nat [tk + c..<unat tc]"
    using Suc.hyps(1) [OF d Suc.prems(1) le Suc_leI [OF i] Suc.prems(4,5) c(3,4)] by blast
  have sel: "(case (cpus_per_node, cpu_count_reps) of (Some cpn, Some reps) \<Rightarrow> A cpn reps | _ \<Rightarrow> B) = B" for A B
    using Suc.prems(1) by (auto split: option.splits)
  have app: "[tk..<unat tc] = [tk..<tk + c] @ [tk + c..<unat tc]" using le by (intro upt_split) simp_all
  show ?case
  proof (cases "tk \<ge> unat tc")
    case True
    then have "c = 0" using c(2) by simp
    then show ?thesis
      using True r(1-3) Suc.hyps(2) Suc.prems(1) c(1) unfolding up app
      by (intro exI [of _ "(0, None) # r"]) (auto simp: r(4) split: option.splits)
  next
    case False
    have "c \<noteq> 0" using sb(1) Suc.prems(6,7) False i by (cases q) (auto split: if_splits)
    then have f: "fake_fill (unat tc) c 0 (replicate c 0, of_nat c, tk) = (map of_nat [tk..<tk + c], of_nat c, tk + c)"
      using fake_fill_all [of 0 c tk "unat tc" "replicate c 0" "of_nat c"] c(2) by auto
    have u: "unat (of_nat c :: u16) = c" using c(2) Suc.prems(4) by (simp add: unat_of_nat)
    have uc: "ucast (((tc - of_nat tk) + (nc - of_nat i) - 1) div (nc - of_nat i)) = (of_nat c :: u16)"
      using arg_cong [OF w, of "of_nat :: nat \<Rightarrow> u16"] by simp
    have "fake_nodes cpus_per_node cpu_count_reps nc tc (i # [Suc i..<unat nc]) inx cnt tk =
        Some ((of_nat c, Some (map of_nat [tk..<tk + c])) # r, unat tc)"
      using False r(1) f unfolding fake_nodes.simps sel by (simp add: w uc Let_def)
    then show ?thesis
      using r(2,3) Suc.hyps(2) c(1) u unfolding up app
      by (intro exI [of _ "(of_nat c, Some (map of_nat [tk..<tk + c])) # r"]) (simp add: r(4))
  qed
qed

text \<open>
  Without CPU counts, \<^verbatim>\<open>fake_slurm_step_layout_create\<close> numbers the tasks through the nodes in
  order and balances them: every node gets the rounded down or rounded up average.
\<close>

theorem fake_layout_balanced:
  assumes "cpus_per_node = None \<or> cpu_count_reps = None" and "0 < nc" and "0 < tc" and "unat tc < 65536"
    and "unat tc + unat nc < 2 ^ 32"
  defines "n \<equiv> unat nc" and "k \<equiv> unat tc"
  shows "\<exists>sl ts ids. fake_slurm_step_layout_create (Some tlist) cpus_per_node cpu_count_reps nc tc = Some (Some sl) \<and>
    tasks sl = Some ts \<and> tids sl = Some ids \<and> node_cnt sl = nc \<and> task_cnt sl = tc \<and> length ts = n \<and>
    (\<forall>i<n. (unat (ts ! i) = k div n \<or> unat (ts ! i) = Suc (k div n)) \<and> length (node_tids ids i) = unat (ts ! i)) \<and>
    concat (map (node_tids ids) [0..<n]) = map of_nat [0..<k]"
proof -
  have n: "0 < n" using assms(2) by (simp add: n_def unat_gt_0)
  have "k div n * n \<le> k" "k \<le> Suc (k div n) * n"
    using dividend_less_div_times [OF n, of k] by simp_all
  then obtain r where r: "fake_nodes cpus_per_node cpu_count_reps nc tc [0..<n] 0 0 0 = Some (r, k)" "length r = n"
      "\<forall>(t, l) \<in> set r. (unat t = k div n \<or> unat t = Suc (k div n)) \<and> length (case l of None \<Rightarrow> [] | Some l \<Rightarrow> l) = unat t"
      "concat (map (\<lambda>(t, l). case l of None \<Rightarrow> [] | Some l \<Rightarrow> l) r) = map of_nat [0..<k]"
    using fake_nodes_balanced [OF assms(1), of 0 tc 0 nc "k div n" 0 0] assms(4,5)
    unfolding n_def [symmetric] k_def [symmetric] by auto
  have nt: "node_tids (map snd r) i = (case r ! i of (t, l) \<Rightarrow> case l of None \<Rightarrow> [] | Some l \<Rightarrow> l)" if "i < n" for i
    using that r(2) by (simp add: node_tids_def split_def)
  have "map (node_tids (map snd r)) [0..<n] = map (\<lambda>(t, l). case l of None \<Rightarrow> [] | Some l \<Rightarrow> l) r"
    using nt r(2) by (intro nth_equalityI) auto
  then have c: "concat (map (node_tids (map snd r)) [0..<n]) = map of_nat [0..<k]" using r(4) by simp
  have b: "\<forall>i<n. (unat (map fst r ! i) = k div n \<or> unat (map fst r ! i) = Suc (k div n)) \<and>
      length (node_tids (map snd r) i) = unat (map fst r ! i)"
  proof (intro allI impI)
    fix i
    assume i: "i < n"
    obtain t l where tl: "r ! i = (t, l)" by (cases "r ! i")
    then have "(t, l) \<in> set r" using i r(2) nth_mem by metis
    then show "(unat (map fst r ! i) = k div n \<or> unat (map fst r ! i) = Suc (k div n)) \<and>
        length (node_tids (map snd r) i) = unat (map fst r ! i)"
      using r(2,3) i tl nt [OF i] by auto
  qed
  have nz: "nc \<noteq> 0" "tc \<noteq> 0" using assms(2,3) by auto
  have "fake_slurm_step_layout_create (Some tlist) cpus_per_node cpu_count_reps nc tc =
      Some (Some (empty_layout\<lparr>node_list := Some tlist, node_cnt := nc, tasks := Some (map fst r),
        tids := Some (map snd r), task_cnt := tc\<rparr>))"
    using r(1) nz by (simp add: fake_slurm_step_layout_create_def n_def k_def)
  then show ?thesis using b c r(2)
    by (intro exI [of _ "empty_layout\<lparr>node_list := Some tlist, node_cnt := nc, tasks := Some (map fst r),
        tids := Some (map snd r), task_cnt := tc\<rparr>"] exI [of _ "map fst r"] exI [of _ "map snd r"])
       (simp add: empty_layout_def)
qed

theorem fake_layout_balanced_witness:
  "\<exists>sl ts ids. fake_slurm_step_layout_create (Some [110]) None None 3 7 = Some (Some sl) \<and>
    tasks sl = Some ts \<and> tids sl = Some ids \<and> (unat (ts ! 0) = 2 \<or> unat (ts ! 0) = 3) \<and>
    concat (map (node_tids ids) [0..<3]) = map of_nat [0..<7]"
  using fake_layout_balanced [of None None 3 7 "[110]"] by auto

end
