(* ===== verification/Step_Layout_Codec.thy ===== *)
theory Step_Layout_Codec
  imports Step_Layout_Use Pack_Codec
begin

text \<open>
  Layouts on the wire and in messages: \<^verbatim>\<open>pack_slurm_step_layout\<close>, \<^verbatim>\<open>unpack_slurm_step_layout\<close> with
  its error path, and \<^verbatim>\<open>slurm_step_layout_type_name\<close>.
\<close>

section \<open>Packing and unpacking a layout\<close>

text \<open>A NULL array may be packed when its length is zero.\<close>

definition pack_tids :: "slurm_step_layout \<Rightarrow> slurm_buf \<Rightarrow> slurm_buf option" where
  "pack_tids sl b =
     forM [0..<unat (node_cnt sl)] (\<lambda>i b. do {
       ids \<leftarrow> tids sl;
       ts \<leftarrow> tasks sl;
       l \<leftarrow> readA ids i;
       t \<leftarrow> readA ts i;
       pack32_array (case l of None \<Rightarrow> [] | Some l \<Rightarrow> l) (ucast t) b }) b"

definition pack_slurm_step_layout :: "slurm_step_layout option \<Rightarrow> slurm_buf \<Rightarrow> u16 \<Rightarrow> slurm_buf option" where
  "pack_slurm_step_layout step_layout b protocol_version =
     (if protocol_version \<ge> SLURM_16_05_PROTOCOL_VERSION
      then case step_layout of
        None \<Rightarrow> pack16 0 b
      | Some sl \<Rightarrow> do {
          b \<leftarrow> pack16 1 b;
          b \<leftarrow> packstr (front_end sl) b;
          b \<leftarrow> packstr (node_list sl) b;
          b \<leftarrow> pack32 (node_cnt sl) b;
          b \<leftarrow> pack16 (start_protocol_ver sl) b;
          b \<leftarrow> pack32 (task_cnt sl) b;
          b \<leftarrow> pack32 (task_dist sl) b;
          pack_tids sl b }
      else if protocol_version \<ge> SLURM_MIN_PROTOCOL_VERSION
      then case step_layout of
        None \<Rightarrow> pack16 0 b
      | Some sl \<Rightarrow> do {
          b \<leftarrow> pack16 1 b;
          b \<leftarrow> packstr (front_end sl) b;
          b \<leftarrow> packstr (node_list sl) b;
          b \<leftarrow> pack32 (node_cnt sl) b;
          b \<leftarrow> pack32 (task_cnt sl) b;
          b \<leftarrow> pack32 (task_dist sl) b;
          pack_tids sl b }
      else Some b)"

text \<open>
  \<^verbatim>\<open>slurm_step_layout_destroy\<close> frees the elements of \<^verbatim>\<open>tids\<close> for every node, also when the array
  is NULL: \<^verbatim>\<open>xfree\<close> then reads through the address of an element of NULL.
\<close>

definition slurm_step_layout_destroy :: "slurm_step_layout option \<Rightarrow> int option" where
  "slurm_step_layout_destroy p =
     (case p of
        None \<Rightarrow> Some SLURM_SUCCESS
      | Some sl \<Rightarrow> do {
          assertC (unat (node_cnt sl) \<le> (case tids sl of None \<Rightarrow> 0 | Some ids \<Rightarrow> length ids));
          Some SLURM_SUCCESS })"

text \<open>
  The result of unpacking: \<^term>\<open>None\<close> is \<^verbatim>\<open>SLURM_ERROR\<close>, with the caller's pointer set to NULL;
  \<^term>\<open>Some None\<close> is success with no layout in the message. \<open>unpack_error\<close> is the label.
\<close>

definition unpack_error :: "slurm_step_layout \<Rightarrow> slurm_buf \<Rightarrow> (slurm_step_layout option option \<times> slurm_buf) option" where
  "unpack_error sl b = do {
     slurm_step_layout_destroy (Some sl);
     Some (None, b) }"

fun unpack_tids :: "nat list \<Rightarrow> slurm_step_layout \<Rightarrow> slurm_buf \<Rightarrow>
    (slurm_step_layout option option \<times> slurm_buf) option" where
  "unpack_tids [] sl b = Some (Some (Some sl), b)"
| "unpack_tids (i # is) sl b =
     safe_unpack unpack32_array b (unpack_error sl) (\<lambda>l b.
       unpack_tids is (sl\<lparr>tids := map_option (\<lambda>ids. ids[i := Some l]) (tids sl),
         tasks := map_option (\<lambda>ts. ts[i := ucast (of_nat (length l) :: u32)]) (tasks sl)\<rparr>) b)"

text \<open>The fields before and after the protocol version, which only newer senders include.\<close>

definition unpack_head :: "bool \<Rightarrow> slurm_step_layout \<Rightarrow> slurm_buf \<Rightarrow>
    (slurm_step_layout \<Rightarrow> slurm_buf \<Rightarrow> (slurm_step_layout option option \<times> slurm_buf) option) \<Rightarrow>
    (slurm_step_layout option option \<times> slurm_buf) option" where
  "unpack_head slurmdbd_conf sl b rest =
     safe_unpack (unpackstr_xmalloc_chooser slurmdbd_conf) b (unpack_error sl) (\<lambda>r b.
     let sl = sl\<lparr>front_end := str_field r\<rparr> in
     safe_unpack (unpackstr_xmalloc_chooser slurmdbd_conf) b (unpack_error sl) (\<lambda>r b.
     let sl = sl\<lparr>node_list := str_field r\<rparr> in
     safe_unpack unpack32 b (unpack_error sl) (\<lambda>v. rest (sl\<lparr>node_cnt := v\<rparr>))))"

definition unpack_tail :: "slurm_step_layout \<Rightarrow> slurm_buf \<Rightarrow> (slurm_step_layout option option \<times> slurm_buf) option" where
  "unpack_tail sl b =
     safe_unpack unpack32 b (unpack_error sl) (\<lambda>v b.
     let sl = sl\<lparr>task_cnt := v\<rparr> in
     safe_unpack unpack32 b (unpack_error sl) (\<lambda>v b.
     let n = unat (node_cnt sl);
         sl = sl\<lparr>task_dist := v, tasks := Some (replicate (2 * n) 0), tids := Some (replicate n None)\<rparr> in
     unpack_tids [0..<n] sl b))"

definition unpack_slurm_step_layout :: "bool \<Rightarrow> slurm_buf \<Rightarrow> u16 \<Rightarrow>
    (slurm_step_layout option option \<times> slurm_buf) option" where
  "unpack_slurm_step_layout slurmdbd_conf b protocol_version =
     (if protocol_version \<ge> SLURM_16_05_PROTOCOL_VERSION
      then safe_unpack unpack16 b (\<lambda>b. Some (None, b)) (\<lambda>v b.
        if v = 0 then Some (Some None, b)
        else unpack_head slurmdbd_conf empty_layout b (\<lambda>sl b.
          safe_unpack unpack16 b (unpack_error sl) (\<lambda>v. unpack_tail (sl\<lparr>start_protocol_ver := v\<rparr>))))
      else if protocol_version \<ge> SLURM_MIN_PROTOCOL_VERSION
      then safe_unpack unpack16 b (\<lambda>b. Some (None, b)) (\<lambda>v b.
        if v = 0 then Some (Some None, b)
        else unpack_head slurmdbd_conf (empty_layout\<lparr>start_protocol_ver := protocol_version\<rparr>) b unpack_tail)
      else Some (None, b))"


section \<open>Names of the distributions\<close>

text \<open>The cases of the switch that append to the name, and those that return at once.\<close>

definition dist_names :: "(u32 \<times> string) list" where
  "dist_names =
    [(0x0001, ''Cyclic''), (0x0002, ''Block''), (0x0003, ''Arbitrary''),
     (0x0004, ''Plane''), (0x0011, ''CCyclic''), (0x0021, ''CBlock''),
     (0x0012, ''BCyclic''), (0x0022, ''BBlock''), (0x0031, ''CFCyclic''),
     (0x0032, ''BFCyclic'')]"

definition lllp_dist_names :: "(u32 \<times> string) list" where
  "lllp_dist_names =
    [(0x0111, ''CCyclicCyclic''), (0x0211, ''CCyclicBlock''), (0x0311, ''CCyclicFCyclic''),
     (0x0121, ''CBlockCyclic''), (0x0221, ''CBlockBlock''), (0x0321, ''CCyclicFCyclic''),
     (0x0131, ''CFCyclicCyclic''), (0x0231, ''CFCyclicBlock''), (0x0331, ''CFCyclicFCyclic''),
     (0x0112, ''BCyclicCyclic''), (0x0212, ''BCyclicBlock''), (0x0312, ''BCyclicFCyclic''),
     (0x0122, ''BBlockCyclic''), (0x0222, ''BBlockBlock''), (0x0322, ''BBlockFCyclic''),
     (0x0132, ''BFCyclicCyclic''), (0x0232, ''BFCyclicBlock''), (0x0332, ''BFCyclicFCyclic'')]"

definition slurm_step_layout_type_name :: "u32 \<Rightarrow> string" where
  "slurm_step_layout_type_name dist =
     (let base = dist AND SLURM_DIST_STATE_BASE in
      case map_of lllp_dist_names base of
        Some s \<Rightarrow> s
      | None \<Rightarrow>
          (let s = (case map_of dist_names base of Some s \<Rightarrow> s | None \<Rightarrow> ''Unknown'');
               s = (if dist AND SLURM_DIST_PACK_NODES \<noteq> 0 then (if s \<noteq> [] then s @ '','' else s) @ ''Pack'' else s)
           in if dist AND SLURM_DIST_NO_PACK_NODES \<noteq> 0 then (if s \<noteq> [] then s @ '','' else s) @ ''NoPack'' else s))"


section \<open>The layout as a message\<close>

text \<open>The encoding of a layout, field by field.\<close>

definition tid_lists :: "slurm_step_layout \<Rightarrow> u32 list list" where
  "tid_lists sl = map (node_tids (the (tids sl))) [0..<unat (node_cnt sl)]"

definition tids_enc :: "slurm_step_layout \<Rightarrow> u8 list" where
  "tids_enc sl = concat (map (arr_enc (be_bytes 4)) (tid_lists sl))"

definition tids_cost :: "slurm_step_layout \<Rightarrow> nat" where
  "tids_cost sl = sum_list (map (arr_cost (\<lambda>v. 4)) (tid_lists sl))"

lemma layout_lists:
  assumes "layout_ok sl"
  obtains ts ids where "tasks sl = Some ts" "tids sl = Some ids" "unat (node_cnt sl) \<le> length ts" "unat (node_cnt sl) \<le> length ids"
    "\<forall>i < unat (node_cnt sl). length (node_tids ids i) = unat (ts ! i)"
  using assms by (rule layout_okE) (auto simp: tids_ok_def)

lemma tid_lists_ok:
  assumes "layout_ok sl"
  shows "\<forall>l \<in> set (tid_lists sl). length l < 65536"
  using assms
proof (rule layout_lists)
  fix ts ids
  assume "tasks sl = Some ts" "tids sl = Some ids" "\<forall>i < unat (node_cnt sl). length (node_tids ids i) = unat (ts ! i)"
  moreover have "unat w < 65536" for w :: u16 using unsigned_less [of w] by simp
  ultimately show ?thesis by (auto simp: tid_lists_def)
qed

lemma pack_tids_lists:
  assumes "layout_ok sl"
  shows "pack_tids sl b = forM (tid_lists sl) (\<lambda>l. pack32_array l (of_nat (length l))) b"
proof -
  obtain ts ids where l: "tasks sl = Some ts" "tids sl = Some ids" "unat (node_cnt sl) \<le> length ts" "unat (node_cnt sl) \<le> length ids"
      "\<forall>i < unat (node_cnt sl). length (node_tids ids i) = unat (ts ! i)"
    using assms by (rule layout_lists) blast
  have "of_nat (length (node_tids ids i)) = (ucast (ts ! i) :: u32)" if "i < unat (node_cnt sl)" for i
    using l(5) that by simp
  then show ?thesis
    unfolding pack_tids_def tid_lists_def forM_map using l
    by (intro forM_cong) (auto simp: node_tids_def split: option.splits)
qed

interpretation ptids: packer pack_tids tids_enc tids_cost layout_ok
proof
  fix sl b
  assume ok: "layout_ok sl"
  then have a: "\<forall>l \<in> set (tid_lists sl). arr_ok (\<lambda>v. True) l" using tid_lists_ok by (fastforce simp: arr_ok_def)
  show "length (tids_enc sl) \<le> tids_cost sl"
    unfolding tids_enc_def tids_cost_def length_concat map_map comp_def using a a32.enc_cost by (intro sum_list_mono) auto
  show "\<exists>b'. pack_tids sl b = Some b' \<and> wrote b (tids_enc sl) b'" if "buf_ok b" "fits b (tids_cost sl)"
    unfolding pack_tids_lists [OF ok] tids_enc_def using a32.pk_list [OF that(1) a] that(2) unfolding tids_cost_def .
qed

lemma unpack_tids_holds:
  assumes "buf_ok b" and "holds b (concat (map (arr_enc (be_bytes 4)) ls))" and "\<forall>l \<in> set ls. length l < 65536"
    and "tasks sl = Some ts" and "tids sl = Some ids" and "k + length ls = length ids" and "length ids \<le> length ts"
  shows "unpack_tids [k..<length ids] sl b =
    Some (Some (Some (sl\<lparr>tids := Some (take k ids @ map Some ls),
        tasks := Some (take k ts @ map (\<lambda>l. of_nat (length l)) ls @ drop (length ids) ts)\<rparr>)),
      skip_bytes b (length (concat (map (arr_enc (be_bytes 4 :: u32 \<Rightarrow> _)) ls))))"
  using assms
proof (induction ls arbitrary: b sl ts ids k)
  case Nil
  then show ?case by (simp add: skip_bytes_def)
next
  case (Cons l ls)
  let ?e = "arr_enc (be_bytes 4) l" and ?ids = "ids[k := Some l]" and ?ts = "ts[k := of_nat (length l)]"
  have k: "k < length ids" "k < length ts" using Cons.prems(6,7) by auto
  have l: "length l < 65536" "arr_ok (\<lambda>v. True) l" using Cons.prems(3) by (auto simp: arr_ok_def)
  have h: "holds b (?e @ concat (map (arr_enc (be_bytes 4)) ls))" using Cons.prems(2) by simp
  note s = a32.safe_unpack_holds [OF Cons.prems(1) l(2) h]
  have u: "ucast (of_nat (length l) :: u32) = (of_nat (length l) :: u16)"
    using l(1) by (simp add: unsigned_of_nat take_bit_nat_eq_self)
  let ?sl = "sl\<lparr>tids := Some ?ids, tasks := Some ?ts\<rparr>"
  have up: "[k..<length ids] = k # [Suc k..<length ids]" using k(1) by (rule upt_conv_Cons)
  have "unpack_tids [k..<length ids] sl b = unpack_tids [Suc k..<length ?ids] ?sl (skip_bytes b (length ?e))"
    unfolding up using Cons.prems(4,5) by (simp add: s(1) u)
  also have "\<dots> = Some (Some (Some (?sl\<lparr>tids := Some (take (Suc k) ?ids @ map Some ls),
        tasks := Some (take (Suc k) ?ts @ map (\<lambda>l. of_nat (length l)) ls @ drop (length ?ids) ?ts)\<rparr>)),
      skip_bytes (skip_bytes b (length ?e)) (length (concat (map (arr_enc (be_bytes 4 :: u32 \<Rightarrow> _)) ls))))"
    by (rule Cons.IH [OF s(2,3)]) (use Cons.prems(3,6,7) in auto)
  finally show ?case using k Cons.prems(6,7) by (simp add: take_Suc_conv_app_nth skip_skip)
qed

lemma unpack_head_holds:
  assumes "buf_ok b" and "c_string_ok fe" and "c_string_ok nl"
    and "holds b (str_enc fe @ str_enc nl @ be_bytes 4 nc @ rest)"
  defines "b' \<equiv> skip_bytes b (length (str_enc fe @ str_enc nl @ be_bytes 4 nc))"
  shows "unpack_head False sl b k = k (sl\<lparr>front_end := fe, node_list := nl, node_cnt := nc\<rparr>) b'"
    and "buf_ok b'" and "holds b' rest"
proof -
  note s1 = unpackstr_holds [OF assms(1,2,4)]
  note s2 = unpackstr_holds [OF s1(2) assms(3) s1(3)]
  note s3 = c32.safe_unpack_holds [OF s2(2) _ s2(3)]
  have b': "skip_bytes (skip_bytes (skip_bytes b (length (str_enc fe))) (length (str_enc nl))) (length (be_bytes 4 nc)) = b'"
    by (simp add: b'_def skip_skip add.assoc)
  show "unpack_head False sl b k = k (sl\<lparr>front_end := fe, node_list := nl, node_cnt := nc\<rparr>) b'"
    by (simp add: unpack_head_def s1(1) s2(1) s3(1) str_field_mem assms(2,3) flip: b')
  show "buf_ok b'" "holds b' rest" using s3(2,3) by (simp_all flip: b')
qed

lemma unpack_tail_holds:
  assumes "buf_ok b" and "holds b (be_bytes 4 tc @ be_bytes 4 d @ concat (map (arr_enc (be_bytes 4 :: u32 \<Rightarrow> _)) ls))"
    and "\<forall>l \<in> set ls. length l < 65536" and "length ls = unat (node_cnt sl)"
  shows "unpack_tail sl b = Some (Some (Some (sl\<lparr>task_cnt := tc, task_dist := d, tids := Some (map Some ls),
        tasks := Some (map (\<lambda>l. of_nat (length l)) ls @ replicate (unat (node_cnt sl)) 0)\<rparr>)),
      skip_bytes b (length (be_bytes 4 tc @ be_bytes 4 d @ concat (map (arr_enc (be_bytes 4 :: u32 \<Rightarrow> _)) ls))))"
proof -
  let ?n = "unat (node_cnt sl)"
  note s1 = c32.safe_unpack_holds [OF assms(1) _ assms(2)]
  note s2 = c32.safe_unpack_holds [OF s1(2) _ s1(3)]
  let ?sl = "sl\<lparr>task_cnt := tc, task_dist := d, tasks := Some (replicate (2 * ?n) 0), tids := Some (replicate ?n None)\<rparr>"
  have "unpack_tids [0..<length (replicate ?n (None :: u32 list option))] ?sl
      (skip_bytes (skip_bytes b (length (be_bytes 4 tc))) (length (be_bytes 4 d))) =
    Some (Some (Some (?sl\<lparr>tids := Some (take 0 (replicate ?n None) @ map Some ls),
        tasks := Some (take 0 (replicate (2 * ?n) 0) @ map (\<lambda>l. of_nat (length l)) ls @
          drop (length (replicate ?n (None :: u32 list option))) (replicate (2 * ?n) 0))\<rparr>)),
      skip_bytes (skip_bytes (skip_bytes b (length (be_bytes 4 tc))) (length (be_bytes 4 d)))
        (length (concat (map (arr_enc (be_bytes 4 :: u32 \<Rightarrow> _)) ls))))"
    by (rule unpack_tids_holds [OF s2(2,3) assms(3)]) (simp_all add: assms(4))
  then show ?thesis by (simp add: unpack_tail_def Let_def s1(1) s2(1) [simplified] skip_skip)
qed

definition layout_enc :: "u16 \<Rightarrow> slurm_step_layout \<Rightarrow> u8 list" where
  "layout_enc ver sl = be_bytes 2 (1 :: u16) @ str_enc (front_end sl) @ str_enc (node_list sl) @ be_bytes 4 (node_cnt sl) @
     (if ver \<ge> SLURM_16_05_PROTOCOL_VERSION then be_bytes 2 (start_protocol_ver sl) else []) @
     be_bytes 4 (task_cnt sl) @ be_bytes 4 (task_dist sl) @ tids_enc sl"

definition layout_cost :: "slurm_step_layout \<Rightarrow> nat" where
  "layout_cost sl = mem_cost (str_mem (front_end sl)) + mem_cost (str_mem (node_list sl)) + tids_cost sl + 16"

definition wire_ok :: "slurm_step_layout \<Rightarrow> bool" where
  "wire_ok sl \<longleftrightarrow> c_string_ok (front_end sl) \<and> c_string_ok (node_list sl) \<and> layout_ok sl"

lemmas layout_fields = c16.then_packer pstr.then_packer c32.then_packer ptids.packer_axioms

lemma pack_layout_wrote:
  assumes "buf_ok b" and "wire_ok sl" and "fits b (layout_cost sl)" and "SLURM_MIN_PROTOCOL_VERSION \<le> ver"
  shows "\<exists>b'. pack_slurm_step_layout (Some sl) b ver = Some b' \<and> wrote b (layout_enc ver sl) b'"
proof (cases "ver \<ge> SLURM_16_05_PROTOCOL_VERSION")
  case True
  have "packer (\<lambda>sl b. pack_slurm_step_layout (Some sl) b ver)
      (\<lambda>sl. be_bytes 2 (1 :: u16) @ str_enc (front_end sl) @ str_enc (node_list sl) @ be_bytes 4 (node_cnt sl) @
        be_bytes 2 (start_protocol_ver sl) @ be_bytes 4 (task_cnt sl) @ be_bytes 4 (task_dist sl) @ tids_enc sl)
      (\<lambda>sl. 2 + (mem_cost (str_mem (front_end sl)) + (mem_cost (str_mem (node_list sl)) + (4 + (2 + (4 + (4 + tids_cost sl)))))))
      (\<lambda>sl. True \<and> mem_ok (str_mem (front_end sl)) \<and> mem_ok (str_mem (node_list sl)) \<and> True \<and> True \<and> True \<and> True \<and> layout_ok sl)"
    unfolding pack_slurm_step_layout_def if_P [OF True] option.case by (intro layout_fields)
  from packer.pk_wrote [OF this assms(1), of sl] show ?thesis
    using assms(2,3) True by (simp add: wire_ok_def c_string_mem_ok layout_enc_def layout_cost_def fits_def)
next
  case False
  have "packer (\<lambda>sl b. pack_slurm_step_layout (Some sl) b ver)
      (\<lambda>sl. be_bytes 2 (1 :: u16) @ str_enc (front_end sl) @ str_enc (node_list sl) @ be_bytes 4 (node_cnt sl) @
        be_bytes 4 (task_cnt sl) @ be_bytes 4 (task_dist sl) @ tids_enc sl)
      (\<lambda>sl. 2 + (mem_cost (str_mem (front_end sl)) + (mem_cost (str_mem (node_list sl)) + (4 + (4 + (4 + tids_cost sl))))))
      (\<lambda>sl. True \<and> mem_ok (str_mem (front_end sl)) \<and> mem_ok (str_mem (node_list sl)) \<and> True \<and> True \<and> True \<and> layout_ok sl)"
    unfolding pack_slurm_step_layout_def if_not_P [OF False] if_P [OF assms(4)] option.case by (intro layout_fields)
  from packer.pk_wrote [OF this assms(1), of sl] show ?thesis
    using assms(2,3) False by (simp add: wire_ok_def c_string_mem_ok layout_enc_def layout_cost_def fits_def)
qed

text \<open>What arrives: the plane size and, from older senders, the protocol version are not sent.\<close>

definition received :: "u16 \<Rightarrow> slurm_step_layout \<Rightarrow> slurm_step_layout" where
  "received ver sl = sl\<lparr>plane_size := 0,
     start_protocol_ver := (if ver \<ge> SLURM_16_05_PROTOCOL_VERSION then start_protocol_ver sl else ver),
     tids := Some (map Some (tid_lists sl)),
     tasks := Some (map (\<lambda>l. of_nat (length l)) (tid_lists sl) @ replicate (unat (node_cnt sl)) 0)\<rparr>"

lemma unpack_layout_holds:
  assumes "buf_ok b" and "wire_ok sl" and "holds b (layout_enc ver sl)" and "SLURM_MIN_PROTOCOL_VERSION \<le> ver"
  shows "unpack_slurm_step_layout False b ver = Some (Some (Some (received ver sl)), skip_bytes b (length (layout_enc ver sl)))"
proof -
  have w: "c_string_ok (front_end sl)" "c_string_ok (node_list sl)" "\<forall>l \<in> set (tid_lists sl). length l < 65536"
      "length (tid_lists sl) = unat (node_cnt sl)"
    using assms(2) tid_lists_ok by (auto simp: wire_ok_def tid_lists_def)
  note s1 = c16.safe_unpack_holds [OF assms(1) TrueI assms(3) [unfolded layout_enc_def]]
  note s2 = unpack_head_holds [OF s1(2) w(1,2) s1(3)]
  show ?thesis
  proof (cases "ver \<ge> SLURM_16_05_PROTOCOL_VERSION")
    case True
    note s3 = c16.safe_unpack_holds [OF s2(2) TrueI s2(3) [unfolded if_P [OF True]]]
    note s4 = unpack_tail_holds [OF s3(2) s3(3) [unfolded tids_enc_def] w(3)]
    show ?thesis
      unfolding unpack_slurm_step_layout_def if_P [OF True] s1(1) if_not_P [OF one_neq_zero] s2(1) s3(1)
      using True by (subst s4) (simp_all add: w(4) layout_enc_def received_def tids_enc_def skip_skip add_ac empty_layout_def)
  next
    case False
    note s4 = unpack_tail_holds [OF s2(2) s2(3) [unfolded if_not_P [OF False] tids_enc_def append_Nil] w(3)]
    show ?thesis
      unfolding unpack_slurm_step_layout_def if_not_P [OF False] if_P [OF assms(4)] s1(1) if_not_P [OF one_neq_zero] s2(1)
      using False by (subst s4) (simp_all add: w(4) layout_enc_def received_def tids_enc_def skip_skip add_ac empty_layout_def)
  qed
qed

lemma received_same:
  assumes "layout_ok sl" and "i < unat (node_cnt sl)"
  shows "node_tids (the (tids (received ver sl))) i = node_tids (the (tids sl)) i"
    and "the (tasks (received ver sl)) ! i = the (tasks sl) ! i"
proof -
  show "node_tids (the (tids (received ver sl))) i = node_tids (the (tids sl)) i"
    using assms(2) by (simp add: received_def tid_lists_def node_tids_def)
  show "the (tasks (received ver sl)) ! i = the (tasks sl) ! i"
    using assms(1)
  proof (rule layout_lists)
    fix ts ids
    assume l: "tasks sl = Some ts" "tids sl = Some ids" "\<forall>i < unat (node_cnt sl). length (node_tids ids i) = unat (ts ! i)"
    then have "length (node_tids ids i) = unat (ts ! i)" using assms(2) by blast
    then show ?thesis using l(1,2) assms(2) by (simp add: received_def tid_lists_def nth_append)
  qed
qed

lemma received_ok:
  assumes "layout_ok sl"
  shows "layout_ok (received ver sl)"
  using assms
proof (rule layout_okE)
  let ?n = "unat (node_cnt sl)" and ?r = "received ver sl"
  fix ts ids
  assume l: "tasks sl = Some ts" "tids sl = Some ids" "tids_ok ?n (unat (task_cnt sl)) ts ids"
  have r: "node_cnt ?r = node_cnt sl" "task_cnt ?r = task_cnt sl" "tids ?r \<noteq> None" "tasks ?r \<noteq> None"
      "length (the (tids ?r)) = ?n" "?n \<le> length (the (tasks ?r))"
    by (simp_all add: received_def tid_lists_def)
  have s: "node_tids (the (tids ?r)) i = node_tids ids i" "the (tasks ?r) ! i = ts ! i" if "i < ?n" for i
    using received_same [OF assms that, of ver] l(1,2) by simp_all
  have e: "map (\<lambda>i. map unat (node_tids (the (tids ?r)) i)) [0..<?n] = map (\<lambda>i. map unat (node_tids ids i)) [0..<?n]"
    using s(1) by (intro map_cong) auto
  have "tids_ok ?n (unat (task_cnt sl)) (the (tasks ?r)) (the (tids ?r))"
    using l(3) r s unfolding tids_ok_def e by simp
  then show ?thesis using r by (auto simp: layout_ok_def)
qed



lemma unpack_error_crash: "tids sl = None \<Longrightarrow> node_cnt sl \<noteq> 0 \<Longrightarrow> unpack_error sl b = None"
  by (simp add: unpack_error_def slurm_step_layout_destroy_def assertC_def unat_eq_0)

text \<open>
  C34: A message that ends right after the node count crashes the receiver: the error path frees
  the elements of the array of task ids, which is still NULL.
\<close>

theorem unpack_truncated_layout_crashes:
  assumes "buf_ok b" and "c_string_ok fe" and "c_string_ok nl" and "nc \<noteq> 0"
    and "holds b (be_bytes 2 (1 :: u16) @ str_enc fe @ str_enc nl @ be_bytes 4 (nc :: u32))"
    and "unat (remaining_buf b) = length (be_bytes 2 (1 :: u16) @ str_enc fe @ str_enc nl @ be_bytes 4 nc)"
    and "SLURM_MIN_PROTOCOL_VERSION \<le> ver"
  shows "unpack_slurm_step_layout False b ver = None"
proof -
  let ?m = "be_bytes 2 (1 :: u16) @ str_enc fe @ str_enc nl @ be_bytes 4 nc"
  note s1 = c16.safe_unpack_holds [OF assms(1) TrueI assms(5)]
  have h: "holds (skip_bytes b (length (be_bytes 2 (1 :: u16)))) (str_enc fe @ str_enc nl @ be_bytes 4 nc @ [])"
    using s1(3) by simp
  note s2 = unpack_head_holds [OF s1(2) assms(2,3) h]
  let ?b = "skip_bytes (skip_bytes b (length (be_bytes 2 (1 :: u16)))) (length (str_enc fe @ str_enc nl @ be_bytes 4 nc))"
  have b: "?b = skip_bytes b (length ?m)" by (simp add: skip_skip add_ac)
  have "unat (remaining_buf ?b) = 0"
    unfolding unat_remaining [OF s2(2)] using holds_skip(3) [OF assms(1,5)] assms(6) unat_remaining [OF assms(1)]
    unfolding b by (simp add: skip_bytes_def)
  then have z: "remaining_buf ?b = 0" by (simp only: unat_eq_0)
  have e: "safe_unpack unpack16 ?b err k = err ?b" "safe_unpack unpack32 ?b err' k' = err' ?b" for err k err' k'
    unfolding unpack16_def [abs_def] unpack32_def [abs_def] by (rule safe_unpack_short [OF s2(2)], unfold z, simp)+
  show ?thesis
  proof (cases "ver \<ge> SLURM_16_05_PROTOCOL_VERSION")
    case True
    show ?thesis
      unfolding unpack_slurm_step_layout_def if_P [OF True] s1(1) if_not_P [OF one_neq_zero] s2(1) e
      by (rule unpack_error_crash) (simp_all add: empty_layout_def assms(4))
  next
    case False
    show ?thesis
      unfolding unpack_slurm_step_layout_def if_not_P [OF False] if_P [OF assms(7)] s1(1) if_not_P [OF one_neq_zero] s2(1)
        unpack_tail_def e
      by (rule unpack_error_crash) (simp_all add: empty_layout_def assms(4))
  qed
qed

definition truncated_buf :: slurm_buf where
  "truncated_buf = \<lparr>buf_magic = BUF_MAGIC, buf_head = map Some [0, 1, 0, 0, 0, 0, 0, 0, 0, 0, 0, 0, 0, 2],
     buf_size = 14, buf_processed = 0\<rparr>"

theorem unpack_truncated_layout_crashes_witness:
  "unpack_slurm_step_layout False truncated_buf 7680 = None"
proof (rule unpack_truncated_layout_crashes [of _ None None 2])
  show "buf_ok truncated_buf" by (simp add: truncated_buf_def buf_ok_def MAX_BUF_SIZE_def)
  have e: "be_bytes 2 (1 :: u16) @ str_enc None @ str_enc None @ be_bytes 4 (2 :: u32) = [0, 1, 0, 0, 0, 0, 0, 0, 0, 0, 0, 0, 0, 2]"
    by code_simp
  show "holds truncated_buf (be_bytes 2 (1 :: u16) @ str_enc None @ str_enc None @ be_bytes 4 (2 :: u32))"
    unfolding e by (simp add: truncated_buf_def holds_def)
  show "unat (remaining_buf truncated_buf) = length (be_bytes 2 (1 :: u16) @ str_enc None @ str_enc None @ be_bytes 4 (2 :: u32))"
    unfolding e by (simp add: truncated_buf_def remaining_buf_def)
qed (simp_all add: c_string_ok_def SLURM_MIN_PROTOCOL_VERSION_def)

text \<open>
  The names of the distributions tell them apart, except that the distribution cyclic over
  nodes, block over sockets and fully cyclic over cores is called like the one cyclic over sockets.
  With three levels the node packing flags are not shown.
\<close>

theorem layout_type_names:
  "distinct (map slurm_step_layout_type_name (remove1 0x0321 (map fst (dist_names @ lllp_dist_names)))) \<and>
   slurm_step_layout_type_name 0x0321 = slurm_step_layout_type_name 0x0311 \<and>
   slurm_step_layout_type_name (0x0022 OR SLURM_DIST_PACK_NODES) = ''BBlock,Pack'' \<and>
   slurm_step_layout_type_name (0x0222 OR SLURM_DIST_PACK_NODES) = ''BBlockBlock''"
  by code_simp

end
