(* ===== verification/Bitstring_Fmt.thy ===== *)
theory Bitstring_Fmt
  imports Bitstring
begin

text \<open>
  The text formats of bitmaps (src/common/bitstring.c): ranges such as 0-5,42, arrays of start and
  end pairs, hexadecimal and binary masks, each with its reader.
\<close>

section \<open>Ranges\<close>

text \<open>The decimal digits that \<^verbatim>\<open>printf\<close> writes.\<close>

fun dec :: "nat \<Rightarrow> c_string" where
  "dec n = (if n < 10 then [48 + of_nat n] else dec (n div 10) @ [48 + of_nat (n mod 10)])"

declare dec.simps [simp del]

definition dec_int :: "int \<Rightarrow> c_string" where
  "dec_int x = (if x < 0 then 45 # dec (nat (- x)) else dec (nat x))"

text \<open>
  The loop of \<^verbatim>\<open>bit_fmt\<close>, \<^verbatim>\<open>bit_fmt_full\<close> and \<^verbatim>\<open>bitstr2inx\<close> over the runs of set bits. A word
  that is zero is skipped whole; \<open>run_end\<close> is the inner loop and \<open>emit\<close> what is done with a run.
\<close>

function run_end :: "bitstr \<Rightarrow> nat \<Rightarrow> nat option" where
  "run_end b bt =
     (if bt + 1 < bs_bits b
      then do { t \<leftarrow> bit_test b (int (bt + 1)); if t then run_end b (bt + 1) else Some bt }
      else Some bt)"
  by pat_completeness auto
termination by (relation "measure (\<lambda>(b, bt). bs_bits b - bt)") auto

declare run_end.simps [simp del]

lemma run_end_ge: "run_end b bt = Some e \<Longrightarrow> bt \<le> e"
proof (induction b bt rule: run_end.induct)
  case (1 b bt)
  show ?case
  proof (cases "bt + 1 < bs_bits b")
    case True
    then obtain t where t: "bit_test b (int (bt + 1)) = Some t" "(if t then run_end b (bt + 1) else Some bt) = Some e"
      using "1.prems" by (subst (asm) run_end.simps) (auto split: bind_splits)
    then show ?thesis using "1.IH" [OF True t(1)] by (cases t) auto
  next
    case False
    then show ?thesis using "1.prems" by (simp add: run_end.simps)
  qed
qed

function scan_runs :: "bitstr \<Rightarrow> (nat \<times> nat \<Rightarrow> 's \<Rightarrow> 's) \<Rightarrow> nat \<Rightarrow> 's \<Rightarrow> 's option" where
  "scan_runs b emit bt s =
     (if bt < bs_bits b
      then if bs_words b ! bit_word bt = 0 then scan_runs b emit (bt + 64) s
           else do {
             t \<leftarrow> bit_test b (int bt);
             if t then do { e \<leftarrow> run_end b bt; scan_runs b emit (e + 1) (emit (bt, e) s) }
             else scan_runs b emit (bt + 1) s }
      else Some s)"
  by pat_completeness auto
termination
  by (relation "measure (\<lambda>(b, emit, bt, s). bs_bits b - bt)") (auto dest: run_end_ge)

declare scan_runs.simps [simp del]

definition fmt_item :: "nat \<times> nat \<Rightarrow> c_string" where
  "fmt_item r = (if fst r = snd r then dec (fst r) else dec (fst r) @ 45 # dec (snd r))"

text \<open>
  \<^verbatim>\<open>bit_fmt\<close> writes to a buffer of \<open>len\<close> bytes, cutting off what does not fit; removing the last
  character of an empty string is undefined.
\<close>

definition bit_fmt :: "int \<Rightarrow> bitstr \<Rightarrow> c_string option" where
  "bit_fmt len b = do {
     assert_bitstr_valid b;
     assertC (len > 0);
     (str, count) \<leftarrow> scan_runs b (\<lambda>r (str, count).
        (take (nat len - 1) (str @ fmt_item r @ [44]), count + (snd r - fst r + 1))) 0 ([], 0 :: nat);
     (if count > 0 then do { assertC (str \<noteq> []); Some (butlast str) } else Some str) }"

definition bit_fmt_full :: "bitstr \<Rightarrow> c_string option option" where
  "bit_fmt_full b = do {
     assert_bitstr_valid b;
     (str, comma) \<leftarrow> scan_runs b (\<lambda>r (str, comma).
        (Some ((case str of None \<Rightarrow> [] | Some s \<Rightarrow> s) @ comma @ fmt_item r), [44])) 0 (None, [] :: c_string);
     Some str }"

text \<open>The array of start and end pairs ends with -1.\<close>

definition bitstr2inx :: "bitstr option \<Rightarrow> int list option" where
  "bitstr2inx p =
     (case p of
        None \<Rightarrow> Some [-1]
      | Some b \<Rightarrow> do {
          inx \<leftarrow> scan_runs b (\<lambda>r inx. inx @ [int (fst r), int (snd r)]) 0 [];
          Some (inx @ [-1]) })"

fun inx_loop :: "bitstr \<Rightarrow> int list \<Rightarrow> (int \<times> bitstr) option" where
  "inx_loop b [] = None"
| "inx_loop b (x # xs) =
     (if x = -1 then Some (0, b)
      else if x < 0 \<or> x \<ge> int (bs_bits b) then Some (-1, b)
      else case xs of
        [] \<Rightarrow> None
      | y # ys \<Rightarrow>
          if y < 0 \<or> y \<ge> int (bs_bits b) then Some (-1, b)
          else do { b \<leftarrow> bit_nset b x y; inx_loop b ys })"

definition inx2bitstr :: "bitstr \<Rightarrow> int list \<Rightarrow> (int \<times> bitstr) option" where
  "inx2bitstr b inx = do {
     b \<leftarrow> bit_nclear b 0 (int (bs_bits b) - 1);
     inx_loop b inx }"

fun inx2bitfmt_loop :: "c_string option \<Rightarrow> int list \<Rightarrow> c_string option option" where
  "inx2bitfmt_loop str [] = None"
| "inx2bitfmt_loop str (x # xs) =
     (if x \<ge> 0
      then case xs of
        [] \<Rightarrow> None
      | y # ys \<Rightarrow> inx2bitfmt_loop (Some (case str of
            Some s \<Rightarrow> s @ 44 # dec_int x @ 45 # dec_int y
          | None \<Rightarrow> dec_int x @ 45 # dec_int y)) ys
      else Some str)"

definition inx2bitfmt :: "int list option \<Rightarrow> c_string option option" where
  "inx2bitfmt inx = (case inx of None \<Rightarrow> Some None | Some inx \<Rightarrow> inx2bitfmt_loop None inx)"


section \<open>Reading ranges\<close>

text \<open>
  The scanner of \<^verbatim>\<open>bitfmt2int\<close>, on the characters with the terminating zero; \<open>first\<close> is
  \<^verbatim>\<open>i == 0\<close>. Overflow of \<^verbatim>\<open>sum\<close> is undefined; other characters are skipped.
\<close>

fun fmt_scan :: "bool \<Rightarrow> int list \<Rightarrow> int \<Rightarrow> int \<Rightarrow> c_string \<Rightarrow> int list option" where
  "fmt_scan first acc start_val num [] = Some acc"
| "fmt_scan first acc start_val num (c # cs) =
     (if 48 \<le> c \<and> c \<le> 57
      then do {
        assertC (num * 10 + (uint c - 48) < 2 ^ 31);
        fmt_scan False acc start_val (num * 10 + (uint c - 48)) cs }
      else if c = 45 then fmt_scan False acc num 0 cs
      else if c = 44 \<or> c = 0
      then if first then Some acc
           else fmt_scan False (acc @ [if start_val = -1 then num else start_val, num]) (-1) 0 cs
      else fmt_scan False acc start_val num cs)"

text \<open>
  \<^verbatim>\<open>strtol\<close> in base 10: the value, limited to the range of \<^verbatim>\<open>long\<close>, and the rest of the string.
\<close>

definition is_digit :: "u8 \<Rightarrow> bool" where
  "is_digit c \<longleftrightarrow> 48 \<le> c \<and> c \<le> 57"

definition is_space :: "u8 \<Rightarrow> bool" where
  "is_space c \<longleftrightarrow> c = 32 \<or> 9 \<le> c \<and> c \<le> 13"

definition strtol10 :: "c_string \<Rightarrow> int \<times> c_string" where
  "strtol10 s =
     (let s1 = dropWhile is_space s;
          neg = (s1 \<noteq> [] \<and> hd s1 = 45);
          s2 = (if s1 \<noteq> [] \<and> (hd s1 = 45 \<or> hd s1 = 43) then tl s1 else s1);
          v = foldl (\<lambda>v c. v * 10 + (uint c - 48)) 0 (takeWhile is_digit s2)
      in if takeWhile is_digit s2 = [] then (0, s)
         else (max (- (2 ^ 63)) (min (2 ^ 63 - 1) (if neg then - v else v)), dropWhile is_digit s2))"

definition int32 :: "int \<Rightarrow> int" where
  "int32 v = signed_take_bit 31 v"

definition char_at :: "c_string \<Rightarrow> u8" where
  "char_at s = (case s of [] \<Rightarrow> 0 | c # cs \<Rightarrow> c)"

function step_vals :: "int \<Rightarrow> int \<Rightarrow> int \<Rightarrow> int list option" where
  "step_vals i stop stp =
     (if i < stop \<and> 0 < stp
      then do {
        assertC (i + stp < 2 ^ 31);
        rest \<leftarrow> step_vals (i + stp) stop stp;
        Some (i # i # rest) }
      else Some [])"
  by pat_completeness auto
termination by (relation "measure (\<lambda>(i, stop, stp). nat (stop - i))") auto

declare step_vals.simps [simp del]

definition bitfmt2int :: "c_string option \<Rightarrow> int list option option" where
  "bitfmt2int p =
     (case p of
        None \<Rightarrow> Some None
      | Some str \<Rightarrow>
          if 58 \<notin> set str
          then do { inx \<leftarrow> fmt_scan True [] (-1) 0 (str @ [0]); Some (Some (inx @ [-1])) }
          else
            (let (v, tmp) = strtol10 str; start_task_id = int32 v in
             if char_at tmp \<noteq> 45 then Some None
             else let (v, tmp) = strtol10 (tl tmp); end_task_id = int32 v in
             if char_at tmp \<noteq> 58 then Some None
             else let (v, tmp) = strtol10 (tl tmp); stp = int32 v in
             if char_at tmp \<noteq> 0 then Some None
             else if end_task_id < start_task_id \<or> stp \<le> 0 then Some None
             else do {
               assertC (end_task_id - start_task_id < 2 ^ 31);
               assertC (((end_task_id - start_task_id) div stp + 1) * 2 + 1 < 2 ^ 31);
               inx \<leftarrow> step_vals start_task_id end_task_id stp;
               Some (Some (inx @ [-1])) }))"

definition bit_unfmt :: "bitstr \<Rightarrow> c_string option \<Rightarrow> (int \<times> bitstr) option" where
  "bit_unfmt b str = do {
     assert_bitstr_valid b;
     (if str = None \<or> str = Some [] then Some (0, b)
      else do {
        intvec \<leftarrow> bitfmt2int str;
        (case intvec of None \<Rightarrow> Some (-1, b) | Some inx \<Rightarrow> inx2bitstr b inx) }) }"


section \<open>Masks\<close>

definition hex_char :: "u8 \<Rightarrow> u8" where
  "hex_char v = (if v \<le> 9 then v + 48 else v + (65 - 10))"

text \<open>The digits of \<^verbatim>\<open>bit_fmt_hexmask\<close>, written from the last one to the first.\<close>

definition test_below :: "bitstr \<Rightarrow> nat \<Rightarrow> nat \<Rightarrow> bool option" where
  "test_below b n i = (if i < n then bit_test b (int i) else Some False)"

function hex_digits :: "bitstr \<Rightarrow> nat \<Rightarrow> nat \<Rightarrow> c_string option" where
  "hex_digits b n i =
     (if i < n
      then do {
        b0 \<leftarrow> bit_test b (int i);
        b1 \<leftarrow> test_below b n (i + 1);
        b2 \<leftarrow> test_below b n (i + 2);
        b3 \<leftarrow> test_below b n (i + 3);
        rest \<leftarrow> hex_digits b n (i + 4);
        Some (rest @ [hex_char ((if b0 then 1 else 0) OR (if b1 then 2 else 0) OR (if b2 then 4 else 0) OR (if b3 then 8 else 0))]) }
      else Some [])"
  by pat_completeness auto
termination by (relation "measure (\<lambda>(b, n, i). n - i)") auto

declare hex_digits.simps [simp del]

definition bit_fmt_hexmask :: "bitstr \<Rightarrow> c_string option" where
  "bit_fmt_hexmask b = do {
     n \<leftarrow> bit_size b;
     ds \<leftarrow> hex_digits b (nat n) 0;
     Some ([48, 120] @ ds) }"

definition hex_val :: "u8 \<Rightarrow> u8 option" where
  "hex_val c =
     (if is_digit c then Some (c - 48)
      else if 65 \<le> c \<and> c \<le> 70 then Some (c - (65 - 10))
      else if 97 \<le> c \<and> c \<le> 102 then Some (c - 32 - (65 - 10))
      else None)"

definition set_if :: "bool \<Rightarrow> nat \<Rightarrow> bitstr \<Rightarrow> bitstr option" where
  "set_if v i b = (if v \<and> i < bs_bits b then bit_set b (int i) else Some b)"

text \<open>The characters from the last one to the first; \<open>i\<close> is \<^verbatim>\<open>bit_index\<close>.\<close>

fun unhex_loop :: "c_string \<Rightarrow> nat \<Rightarrow> int \<Rightarrow> bitstr \<Rightarrow> (int \<times> bitstr) option" where
  "unhex_loop [] i rc b = Some (rc, b)"
| "unhex_loop (c # cs) i rc b =
     (let (v, rc) = (case hex_val c of Some v \<Rightarrow> (v, rc) | None \<Rightarrow> (0, -1)) in do {
      b \<leftarrow> set_if (v AND 1 \<noteq> 0) i b;
      b \<leftarrow> set_if (v AND 2 \<noteq> 0) (i + 1) b;
      b \<leftarrow> set_if (v AND 4 \<noteq> 0) (i + 2) b;
      b \<leftarrow> set_if (v AND 8 \<noteq> 0) (i + 3) b;
      unhex_loop cs (i + 4) rc b })"

definition bit_unfmt_hexmask :: "bitstr \<Rightarrow> c_string \<Rightarrow> (int \<times> bitstr) option" where
  "bit_unfmt_hexmask b str = do {
     n \<leftarrow> bit_size b;
     b \<leftarrow> bit_nclear b 0 (n - 1);
     unhex_loop (rev (if take 2 str = [48, 120] then drop 2 str else str)) 0 0 b }"

function bin_digits :: "bitstr \<Rightarrow> nat \<Rightarrow> nat \<Rightarrow> c_string option" where
  "bin_digits b n i =
     (if i < n
      then do {
        t \<leftarrow> bit_test b (int i);
        rest \<leftarrow> bin_digits b n (i + 1);
        Some (rest @ [(if t then 1 else 0) + 48]) }
      else Some [])"
  by pat_completeness auto
termination by (relation "measure (\<lambda>(b, n, i). n - i)") auto

declare bin_digits.simps [simp del]

definition bit_fmt_binmask :: "bitstr \<Rightarrow> c_string option" where
  "bit_fmt_binmask b = do { n \<leftarrow> bit_size b; bin_digits b (nat n) 0 }"

fun unbin_loop :: "c_string \<Rightarrow> nat \<Rightarrow> bitstr \<Rightarrow> bitstr option" where
  "unbin_loop [] i b = Some b"
| "unbin_loop (c # cs) i b = do {
     b \<leftarrow> set_if ((c - 48) AND 1 \<noteq> 0) i b;
     unbin_loop cs (i + 1) b }"

definition bit_unfmt_binmask :: "bitstr \<Rightarrow> c_string \<Rightarrow> bitstr option" where
  "bit_unfmt_binmask b str = do {
     n \<leftarrow> bit_size b;
     b \<leftarrow> bit_nclear b 0 (n - 1);
     unbin_loop (rev str) 0 b }"


section \<open>The runs of a bitmap\<close>

text \<open>Maximal runs in ascending order, the first of them not before \<open>k\<close>.\<close>

fun runs_ok :: "nat \<Rightarrow> (nat \<times> nat) list \<Rightarrow> bool" where
  "runs_ok k [] = True"
| "runs_ok k ((s, e) # rs) = (k \<le> s \<and> s \<le> e \<and> runs_ok (e + 2) rs)"

definition runs_set :: "(nat \<times> nat) list \<Rightarrow> nat set" where
  "runs_set rs = (\<Union>r \<in> set rs. {fst r..snd r})"

lemma runs_set_simps [simp]: "runs_set [] = {}" "runs_set (r # rs) = {fst r..snd r} \<union> runs_set rs"
  by (simp_all add: runs_set_def)

lemma runs_ok_mono: "runs_ok k rs \<Longrightarrow> j \<le> k \<Longrightarrow> runs_ok j rs"
  by (cases rs) auto

lemma run_end_spec:
  assumes "bitstr_wf b" and "bt \<in> bits_of b"
  shows "\<exists>e. run_end b bt = Some e \<and> bt \<le> e \<and> {bt..e} \<subseteq> bits_of b \<and> Suc e \<notin> bits_of b"
  using assms
proof (induction b bt rule: run_end.induct)
  case (1 b bt)
  show ?case
  proof (cases "bt + 1 < bs_bits b \<and> bt + 1 \<in> bits_of b")
    case True
    then have t: "bit_test b (int (bt + 1)) = Some True" using "1.prems"(1) bit_test_Some [of b "bt + 1"] by simp
    obtain e where e: "run_end b (bt + 1) = Some e" "bt + 1 \<le> e" "{bt + 1..e} \<subseteq> bits_of b" "Suc e \<notin> bits_of b"
      using "1.IH" [OF _ t] True "1.prems"(1) by auto
    have "{bt..e} = insert bt {bt + 1..e}" using e(2) by auto
    then have "{bt..e} \<subseteq> bits_of b" using e(3) "1.prems"(2) by simp
    then show ?thesis using e True t by (intro exI [of _ e]) (simp add: run_end.simps [of b bt])
  next
    case False
    then have n: "Suc bt \<notin> bits_of b" using bits_of_bound [of "Suc bt" b] by auto
    have "run_end b bt = Some bt"
    proof (cases "bt + 1 < bs_bits b")
      case True
      then have "bit_test b (int (bt + 1)) = Some False" using n "1.prems"(1) bit_test_Some [of b "bt + 1"] by simp
      then show ?thesis using True by (simp add: run_end.simps)
    qed (simp add: run_end.simps)
    then show ?thesis using n "1.prems"(2) by auto
  qed
qed

lemma zero_word_bits:
  assumes "bs_words b ! bit_word bt = 0" and "bt mod 64 = 0" and "bt \<le> i" and "i < bt + 64"
  shows "i \<notin> bits_of b"
proof -
  obtain k where k: "bt = 64 * k" using assms(2) by auto
  then have "i div 64 = k" using assms(3,4) by auto
  then show ?thesis using assms(1) k by (simp add: bits_of_def wbit_def bit_word_div)
qed

lemma set_bit_word: "i \<in> bits_of b \<Longrightarrow> bs_words b ! bit_word i \<noteq> 0"
  by (auto simp: bits_of_def wbit_def bit_word_div)

text \<open>
  The loop finds exactly the maximal runs. It must not skip a word from the middle: it is at the
  start of a word or in one that is not zero.
\<close>

lemma scan_runs_fold:
  assumes "bitstr_wf b" and "bt mod 64 = 0 \<or> bs_words b ! bit_word bt \<noteq> 0"
  shows "\<exists>rs. scan_runs b emit bt s = Some (fold emit rs s) \<and> runs_ok bt rs \<and> runs_set rs = {i \<in> bits_of b. bt \<le> i}"
  using assms
proof (induction b emit bt s rule: scan_runs.induct)
  case (1 b emit bt s)
  have next_ok: "(bt' + 1) mod 64 = 0 \<or> bs_words b ! bit_word (bt' + 1) \<noteq> 0" if "bs_words b ! bit_word bt' \<noteq> 0" for bt'
  proof (cases "(bt' + 1) mod 64 = 0")
    case False
    then have "(bt' + 1) div 64 = bt' div 64" by (simp add: div_Suc)
    then show ?thesis using that by (simp add: bit_word_div)
  qed simp
  show ?case
  proof (cases "bt < bs_bits b")
    case False
    then have "{i \<in> bits_of b. bt \<le> i} = {}" using bits_of_bound [of _ b] by fastforce
    then show ?thesis using False by (intro exI [of _ "[]"]) (simp add: scan_runs.simps)
  next
    case lt: True
    show ?thesis
    proof (cases "bs_words b ! bit_word bt = 0")
      case True
      then have al: "bt mod 64 = 0" using "1.prems"(2) by simp
      obtain rs where rs: "scan_runs b emit (bt + 64) s = Some (fold emit rs s)" "runs_ok (bt + 64) rs"
          "runs_set rs = {i \<in> bits_of b. bt + 64 \<le> i}"
        using "1.IH"(1) [OF lt True "1.prems"(1)] al by auto
      have "{i \<in> bits_of b. bt + 64 \<le> i} = {i \<in> bits_of b. bt \<le> i}"
        using zero_word_bits [OF True al] by (auto simp: not_le) (meson leI)
      then show ?thesis using rs lt True runs_ok_mono [OF rs(2), of bt]
        by (intro exI [of _ rs]) (simp add: scan_runs.simps [of b emit bt])
    next
      case nz: False
      show ?thesis
      proof (cases "bt \<in> bits_of b")
        case True
        then have t: "bit_test b (int bt) = Some True" using "1.prems"(1) lt by (simp add: abort_simps)
        obtain e where e: "run_end b bt = Some e" "bt \<le> e" "{bt..e} \<subseteq> bits_of b" "Suc e \<notin> bits_of b"
          using run_end_spec [OF "1.prems"(1) True] by blast
        then have "e \<in> bits_of b" by auto
        then obtain rs where rs: "scan_runs b emit (e + 1) (emit (bt, e) s) = Some (fold emit rs (emit (bt, e) s))"
            "runs_ok (e + 1) rs" "runs_set rs = {i \<in> bits_of b. e + 1 \<le> i}"
          using "1.IH"(2) [OF lt nz t _ e(1) "1.prems"(1) next_ok [OF set_bit_word]] by auto
        have "runs_ok (e + 2) rs"
        proof (cases rs)
          case (Cons r rs')
          have "fst r \<in> runs_set rs" using rs(2) Cons by (cases r) auto
          then have "fst r \<in> bits_of b" unfolding rs(3) by simp
          then have "fst r \<noteq> Suc e" using e(4) by metis
          then show ?thesis using rs(2) Cons by (cases r) auto
        qed simp
        moreover have "{bt..e} \<union> {i \<in> bits_of b. e + 1 \<le> i} = {i \<in> bits_of b. bt \<le> i}" using e(2,3) by auto
        ultimately show ?thesis using rs e(1,2) lt nz t
          by (intro exI [of _ "(bt, e) # rs"]) (simp add: scan_runs.simps [of b emit bt])
      next
        case False
        then have t: "bit_test b (int bt) = Some False" using "1.prems"(1) lt by (simp add: abort_simps)
        obtain rs where rs: "scan_runs b emit (bt + 1) s = Some (fold emit rs s)" "runs_ok (bt + 1) rs"
            "runs_set rs = {i \<in> bits_of b. bt + 1 \<le> i}"
          using "1.IH"(3) [OF lt nz t _ "1.prems"(1) next_ok [OF nz]] by auto
        have "{i \<in> bits_of b. bt + 1 \<le> i} = {i \<in> bits_of b. bt \<le> i}"
          using False by (auto simp: Suc_le_eq order_less_le)
        then show ?thesis using rs lt nz t runs_ok_mono [OF rs(2), of bt]
          by (intro exI [of _ rs]) (simp add: scan_runs.simps [of b emit bt])
      qed
    qed
  qed
qed

lemma scan_runs_all:
  assumes "bitstr_wf b"
  obtains rs where "scan_runs b emit 0 s = Some (fold emit rs s)" and "runs_ok 0 rs" and "runs_set rs = bits_of b"
  using scan_runs_fold [OF assms, of 0 emit s] by auto

lemma runs_below: "runs_ok k rs \<Longrightarrow> (s, e) \<in> set rs \<Longrightarrow> s \<le> e \<and> e \<in> runs_set rs"
  by (induction rs arbitrary: k rule: list.induct) (fastforce simp: runs_set_def)+


section \<open>Printing and reading ranges\<close>

fun joined :: "(nat \<times> nat) list \<Rightarrow> c_string" where
  "joined [] = []"
| "joined [r] = fmt_item r"
| "joined (r # r' # rs) = fmt_item r @ 44 # joined (r' # rs)"

definition pairs :: "(nat \<times> nat) list \<Rightarrow> int list" where
  "pairs rs = concat (map (\<lambda>r. [int (fst r), int (snd r)]) rs)"

lemma pairs_simps [simp]: "pairs [] = []" "pairs (r # rs) = int (fst r) # int (snd r) # pairs rs"
  "pairs (rs @ rs') = pairs rs @ pairs rs'"
  by (simp_all add: pairs_def)

lemma joined_snoc: "joined (rs @ [r]) = (if rs = [] then fmt_item r else joined rs @ 44 # fmt_item r)"
  by (induction rs rule: joined.induct) auto

lemma digit_char:
  assumes "d < 10"
  shows "uint (48 + of_nat d :: u8) = 48 + int d" and "48 \<le> (48 + of_nat d :: u8)" and "(48 + of_nat d :: u8) \<le> 57"
proof -
  have u: "unat (48 + of_nat d :: u8) = 48 + d" using assms by (simp add: unat_word_ariths unat_of_nat)
  then show "uint (48 + of_nat d :: u8) = 48 + int d" by (simp add: uint_nat del: unat_word_ariths)
  show "48 \<le> (48 + of_nat d :: u8)" "(48 + of_nat d :: u8) \<le> 57" using u assms by (simp_all add: word_le_nat_alt)
qed

lemma dec_not_Nil [simp]: "dec n \<noteq> []"
  by (simp add: dec.simps [of n])

lemma dec_digits: "c \<in> set (dec n) \<Longrightarrow> 48 \<le> c \<and> c \<le> 57"
proof (induction n rule: dec.induct)
  case (1 n)
  then show ?case using digit_char(2,3) [of n] digit_char(2,3) [of "n mod 10"]
    by (cases "n < 10") (auto simp: dec.simps [of n])
qed

lemma fmt_scan_dec:
  "n < 2 ^ 31 \<Longrightarrow> fmt_scan first acc sv 0 (dec n @ cs) = fmt_scan False acc sv (int n) cs"
proof (induction n arbitrary: first cs rule: dec.induct)
  case (1 n)
  show ?case
  proof (cases "n < 10")
    case True
    then show ?thesis using digit_char [of n] by (simp add: dec.simps [of n])
  next
    case False
    have "n div 10 < 2 ^ 31" using "1.prems" by simp
    then have "fmt_scan first acc sv 0 (dec n @ cs) =
        fmt_scan False acc sv (int (n div 10)) ((48 + of_nat (n mod 10)) # cs)"
      using "1.IH" [OF False] False by (simp add: dec.simps [of n])
    moreover have "int (n div 10) * 10 + int (n mod 10) = int n" by presburger
    ultimately show ?thesis using digit_char [of "n mod 10"] "1.prems" by simp
  qed
qed

lemma fmt_scan_item:
  assumes "fst r < 2 ^ 31" and "snd r < 2 ^ 31" and "c = 44 \<or> c = 0"
  shows "fmt_scan first acc (-1) 0 (fmt_item r @ c # cs) = fmt_scan False (acc @ pairs [r]) (-1) 0 cs"
  using assms fmt_scan_dec [OF assms(1)] fmt_scan_dec [OF assms(2)] by (auto simp: fmt_item_def)

lemma fmt_scan_joined:
  assumes "\<forall>r \<in> set rs. fst r < 2 ^ 31 \<and> snd r < 2 ^ 31" and "rs \<noteq> []"
  shows "fmt_scan first acc (-1) 0 (joined rs @ [0]) = Some (acc @ pairs rs)"
  using assms
proof (induction rs arbitrary: first acc rule: joined.induct)
  case (2 r)
  then show ?case by (simp add: fmt_scan_item)
next
  case (3 r r' rs)
  then show ?case by (simp add: fmt_scan_item)
qed simp

lemma joined_chars: "c \<in> set (joined rs) \<Longrightarrow> 48 \<le> c \<and> c \<le> 57 \<or> c = 44 \<or> c = 45"
  by (induction rs rule: joined.induct) (auto simp: fmt_item_def dest: dec_digits split: if_splits)

lemma joined_not_Nil: "rs \<noteq> [] \<Longrightarrow> joined rs \<noteq> []"
  by (cases rs rule: joined.cases) (auto simp: fmt_item_def)

lemma bitfmt2int_joined:
  assumes "\<forall>r \<in> set rs. fst r < 2 ^ 31 \<and> snd r < 2 ^ 31" and "rs \<noteq> []"
  shows "bitfmt2int (Some (joined rs)) = Some (Some (pairs rs @ [-1]))"
proof -
  have "58 \<notin> set (joined rs)" using joined_chars [of 58] by auto
  then show ?thesis using fmt_scan_joined [OF assms] by (simp add: bitfmt2int_def)
qed

lemma fmt_full_fold:
  "fold (\<lambda>r (str, comma). (Some ((case str of None \<Rightarrow> [] | Some s \<Rightarrow> s) @ comma @ fmt_item r), [44])) rs (None, []) =
    (if rs = [] then (None, []) else (Some (joined rs), [44]))"
  by (induction rs rule: rev_induct) (auto simp: joined_snoc)

lemma take_take_append: "take k (take k xs @ ys) = take k (xs @ ys)"
  by (cases "k \<le> length xs") simp_all

lemma fmt_fold:
  "fold (\<lambda>r (str, count). (take k (str @ fmt_item r @ [44]), count + (snd r - fst r + 1))) rs ([], 0 :: nat) =
    (take k (concat (map (\<lambda>r. fmt_item r @ [44]) rs)), \<Sum>r\<leftarrow>rs. snd r - fst r + 1)"
proof (induction rs rule: rev_induct)
  case (snoc r rs)
  show ?case unfolding fold_append comp_def snoc.IH
    using take_take_append [of k "concat (map (\<lambda>r. fmt_item r @ [44]) rs)" "fmt_item r @ [44]"] by simp
qed simp

lemma commas_joined: "rs \<noteq> [] \<Longrightarrow> concat (map (\<lambda>r. fmt_item r @ [44]) rs) = joined rs @ [44]"
  by (induction rs rule: joined.induct) auto

lemma butlast_take_snoc: "0 < k \<Longrightarrow> butlast (take k (xs @ [x])) = take (k - 1) xs"
  by (cases "k \<le> length xs") (auto simp: butlast_take butlast_append take_Cons')

lemma inx_loop_pairs:
  assumes "bitstr_wf b" and "\<forall>r \<in> set rs. fst r < bs_bits b \<and> snd r < bs_bits b"
  shows "\<exists>b'. inx_loop b (pairs rs @ [-1]) = Some (0, b') \<and> bitstr_wf b' \<and> bs_bits b' = bs_bits b \<and>
    bits_of b' = bits_of b \<union> runs_set rs"
  using assms
proof (induction rs arbitrary: b)
  case (Cons r rs)
  obtain b1 where b1: "bit_nset b (int (fst r)) (int (snd r)) = Some b1" "bitstr_wf b1" "bs_bits b1 = bs_bits b"
      "bits_of b1 = bits_of b \<union> {fst r..snd r}"
    by (rule bit_nset_Some [OF Cons.prems(1), of "fst r" "snd r"]) (use Cons.prems(2) in auto)
  then obtain b' where "inx_loop b1 (pairs rs @ [-1]) = Some (0, b')" "bitstr_wf b'" "bs_bits b' = bs_bits b1"
      "bits_of b' = bits_of b1 \<union> runs_set rs"
    using Cons.IH [of b1] Cons.prems(2) by auto
  then show ?case using b1 Cons.prems(2) by auto
qed simp

lemma nclear_all:
  assumes "bitstr_wf b" and "0 < bs_bits b"
  obtains b' where "bit_nclear b 0 (int (bs_bits b) - 1) = Some b'" and "bitstr_wf b'" and "bs_bits b' = bs_bits b" and "bits_of b' = {}"
proof -
  have n: "int (bs_bits b) - 1 = int (bs_bits b - 1)" using assms(2) by simp
  obtain b1 where b1: "bit_nclear b 0 (int (bs_bits b) - 1) = Some b1" "bitstr_wf b1" "bs_bits b1 = bs_bits b"
      "bits_of b1 = bits_of b - {0..bs_bits b - 1}"
    unfolding n by (rule bit_nclear_Some [OF assms(1), of 0 "bs_bits b - 1"]) (use assms(2) in auto)
  moreover have "bits_of b1 = {}" using b1(4) bits_of_bound [of _ b] by fastforce
  ultimately show thesis using that by blast
qed

lemma inx2bitstr_pairs:
  assumes "bitstr_wf b" and "0 < bs_bits b" and "\<forall>r \<in> set rs. fst r < bs_bits b \<and> snd r < bs_bits b"
  shows "\<exists>b'. inx2bitstr b (pairs rs @ [-1]) = Some (0, b') \<and> bitstr_wf b' \<and> bs_bits b' = bs_bits b \<and> bits_of b' = runs_set rs"
proof -
  obtain b1 where b1: "bit_nclear b 0 (int (bs_bits b) - 1) = Some b1" "bitstr_wf b1" "bs_bits b1 = bs_bits b" "bits_of b1 = {}"
    using assms(1,2) by (rule nclear_all)
  then show ?thesis using inx_loop_pairs [OF b1(2), of rs] assms(3) b1(1,3) by (auto simp: inx2bitstr_def)
qed

lemma runs_in_size:
  assumes "bitstr_wf b" and "runs_ok 0 rs" and "runs_set rs = bits_of b"
  shows "\<forall>r \<in> set rs. fst r < bs_bits b \<and> snd r < bs_bits b" and "\<forall>r \<in> set rs. fst r < 2 ^ 31 \<and> snd r < 2 ^ 31"
proof -
  have "fst r < bs_bits b \<and> snd r < bs_bits b" if "r \<in> set rs" for r
    using runs_below [OF assms(2), of "fst r" "snd r"] that bits_of_bound [of "snd r" b] assms(3) by auto
  then show a: "\<forall>r \<in> set rs. fst r < bs_bits b \<and> snd r < bs_bits b" by blast
  have "bs_bits b < 2 ^ 31" using assms(1) by (simp add: bitstr_wf_def)
  then show "\<forall>r \<in> set rs. fst r < 2 ^ 31 \<and> snd r < 2 ^ 31" using a by (meson less_trans)
qed

lemma bit_fmt_text:
  assumes "bitstr_wf b" and "2 \<le> len"
  obtains rs where "bit_fmt len b = Some (take (nat len - 2) (joined rs))" and "runs_ok 0 rs" and "runs_set rs = bits_of b"
proof (rule scan_runs_all [OF assms(1)])
  fix rs
  let ?k = "nat len - 1"
  assume s: "scan_runs b (\<lambda>r (str, count). (take ?k (str @ fmt_item r @ [44]), count + (snd r - fst r + 1))) 0 ([], 0 :: nat) =
      Some (fold (\<lambda>r (str, count). (take ?k (str @ fmt_item r @ [44]), count + (snd r - fst r + 1))) rs ([], 0))"
    and rs: "runs_ok 0 rs" "runs_set rs = bits_of b"
  have k: "0 < ?k" "?k - 1 = nat len - 2" using assms(2) by auto
  have "bit_fmt len b = Some (take (nat len - 2) (joined rs))"
  proof (cases "rs = []")
    case True
    then show ?thesis using s assms by (simp add: bit_fmt_def abort_simps)
  next
    case False
    then have "0 < (\<Sum>r\<leftarrow>rs. snd r - fst r + 1)" by (cases rs) auto
    moreover have "take ?k (joined rs @ [44]) \<noteq> []" using k(1) unfolding take_eq_Nil by simp
    ultimately show ?thesis
      unfolding bit_fmt_def s [unfolded fmt_fold commas_joined [OF False]] k(2) [symmetric]
      using assms butlast_take_snoc [OF k(1), of "joined rs" 44] by (simp add: abort_simps del: take_append take_eq_Nil)
  qed
  then show thesis using that rs by blast
qed

lemma runs_unique: "runs_ok k rs \<Longrightarrow> runs_ok k' rs' \<Longrightarrow> runs_set rs = runs_set rs' \<Longrightarrow> rs = rs'"
proof (induction rs arbitrary: k k' rs')
  case Nil
  then show ?case by (cases rs') auto
next
  case (Cons r rs)
  obtain s e where r: "r = (s, e)" by force
  obtain s' e' qs where q: "rs' = (s', e') # qs" using Cons.prems r by (cases rs') auto
  have low: "e + 2 \<le> i" if "i \<in> runs_set qs" "runs_ok (e + 2) qs" for i e and qs :: "(nat \<times> nat) list"
    using that by (induction qs arbitrary: e) (fastforce simp: runs_set_def)+
  have a: "s \<le> e" "s' \<le> e'" "runs_ok (e + 2) rs" "runs_ok (e' + 2) qs" using Cons.prems r q by auto
  have eq: "{s..e} \<union> runs_set rs = {s'..e'} \<union> runs_set qs" using Cons.prems(3) r q by simp
  have l1: "i \<in> runs_set rs \<Longrightarrow> e + 2 \<le> i" and l2: "i \<in> runs_set qs \<Longrightarrow> e' + 2 \<le> i" for i
    using low a(3,4) by auto
  have "s \<in> {s'..e'} \<union> runs_set qs" "s' \<in> {s..e} \<union> runs_set rs" using eq a(1,2) by auto
  then have s: "s = s'" using l1 [of s'] l2 [of s] a(1,2) by auto
  have "e \<in> {s'..e'} \<union> runs_set qs" "e' \<in> {s..e} \<union> runs_set rs" using eq a(1,2) by auto
  moreover have "Suc e \<notin> {s..e} \<union> runs_set rs" "Suc e' \<notin> {s'..e'} \<union> runs_set qs" using l1 [of "Suc e"] l2 [of "Suc e'"] by auto
  ultimately have e: "e = e'" using eq s a(1,2) l1 [of e'] l2 [of e]
    by (metis (no_types, lifting) Un_iff atLeastAtMost_iff le_antisym not_less_eq_eq le_SucI add_2_eq_Suc' Suc_le_mono)
  have "runs_set rs = runs_set qs"
  proof (intro set_eqI iffI)
    fix i
    show "i \<in> runs_set qs" if i: "i \<in> runs_set rs"
    proof -
      have "i \<in> {s'..e'} \<union> runs_set qs" using eq i by blast
      then show ?thesis using l1 [OF i] e by simp
    qed
    show "i \<in> runs_set rs" if i: "i \<in> runs_set qs"
    proof -
      have "i \<in> {s..e} \<union> runs_set rs" using eq i by blast
      then show ?thesis using l2 [OF i] e by simp
    qed
  qed
  then have "rs = qs" using Cons.IH [OF a(3,4)] by blast
  then show ?case using r q s e by simp
qed


definition sample_bits :: bitstr where
  "sample_bits = \<lparr>bs_magic = BITSTR_MAGIC, bs_bits = 70, bs_words = [0x8000000000000017, 0x21]\<rparr>"

lemma sample_bits_wf: "bitstr_wf sample_bits"
  by (simp add: sample_bits_def bitstr_wf_def bitstr_words_def)

lemma sample_bits_some: "0 \<in> bits_of sample_bits"
  by (simp add: sample_bits_def bits_of_def wbit_def)


text \<open>
  The step format leaves out the end of its range, which the comment includes: 1-17:4 is read
  as 1, 5, 9, 13. An empty text leaves the bitmap as it is instead of clearing it.
\<close>

theorem bitfmt_step_excludes_end:
  "bitfmt2int (Some [49, 45, 49, 55, 58, 52]) = Some (Some [1, 1, 5, 5, 9, 9, 13, 13, -1]) \<and>
   bit_unfmt sample_bits (Some []) = Some (0, sample_bits)"
  by code_simp


section \<open>Masks and back\<close>

definition nibble :: "bool \<Rightarrow> bool \<Rightarrow> bool \<Rightarrow> bool \<Rightarrow> u8" where
  "nibble b0 b1 b2 b3 = (if b0 then 1 else 0) OR (if b1 then 2 else 0) OR (if b2 then 4 else 0) OR (if b3 then 8 else 0)"

lemma hex_val_char: "hex_val (hex_char (nibble b0 b1 b2 b3)) = Some (nibble b0 b1 b2 b3)"
  by (cases b0; cases b1; cases b2; cases b3) (simp_all add: nibble_def hex_val_def hex_char_def is_digit_def)

lemma nibble_bits:
  "nibble b0 b1 b2 b3 AND 1 \<noteq> 0 \<longleftrightarrow> b0" "nibble b0 b1 b2 b3 AND 2 \<noteq> 0 \<longleftrightarrow> b1"
  "nibble b0 b1 b2 b3 AND 4 \<noteq> 0 \<longleftrightarrow> b2" "nibble b0 b1 b2 b3 AND 8 \<noteq> 0 \<longleftrightarrow> b3"
  by (cases b0; cases b1; cases b2; cases b3; simp add: nibble_def)+

definition adds :: "nat set \<Rightarrow> bitstr \<Rightarrow> bitstr \<Rightarrow> bool" where
  "adds S b b' \<longleftrightarrow> bitstr_wf b' \<and> bs_bits b' = bs_bits b \<and> bits_of b' = bits_of b \<union> S"

lemma adds_trans: "adds S b b1 \<Longrightarrow> adds T b1 b2 \<Longrightarrow> adds (S \<union> T) b b2"
  by (auto simp: adds_def)

lemma set_if_adds:
  assumes "bitstr_wf b" and "v \<Longrightarrow> i < bs_bits b"
  shows "\<exists>b'. set_if v i b = Some b' \<and> adds (if v then {i} else {}) b b'"
  using assms by (auto simp: set_if_def adds_def abort_simps abs_simps)

lemma test_below_Some:
  assumes "bitstr_wf b"
  shows "test_below b (bs_bits b) i = Some (i \<in> bits_of b)"
  using assms bits_of_bound [of i b] by (auto simp: test_below_def abort_simps)

lemma unhex_nibble:
  assumes "bitstr_wf b" and "S \<subseteq> {..<bs_bits b}"
  shows "\<exists>b'. unhex_loop (hex_char (nibble (i \<in> S) (i + 1 \<in> S) (i + 2 \<in> S) (i + 3 \<in> S)) # cs) i rc b =
      unhex_loop cs (i + 4) rc b' \<and> adds {j \<in> S. i \<le> j \<and> j < i + 4} b b'"
proof -
  have lt: "k \<in> S \<Longrightarrow> k < bs_bits b" for k using assms(2) by auto
  obtain b1 where b1: "set_if (i \<in> S) i b = Some b1" "adds (if i \<in> S then {i} else {}) b b1"
    using set_if_adds [OF assms(1), of "i \<in> S" i] lt by blast
  obtain b2 where b2: "set_if (i + 1 \<in> S) (i + 1) b1 = Some b2" "adds (if i + 1 \<in> S then {i + 1} else {}) b1 b2"
    using set_if_adds [of b1 "i + 1 \<in> S" "i + 1"] b1(2) lt by (auto simp: adds_def)
  obtain b3 where b3: "set_if (i + 2 \<in> S) (i + 2) b2 = Some b3" "adds (if i + 2 \<in> S then {i + 2} else {}) b2 b3"
    using set_if_adds [of b2 "i + 2 \<in> S" "i + 2"] b1(2) b2(2) lt by (auto simp: adds_def)
  obtain b4 where b4: "set_if (i + 3 \<in> S) (i + 3) b3 = Some b4" "adds (if i + 3 \<in> S then {i + 3} else {}) b3 b4"
    using set_if_adds [of b3 "i + 3 \<in> S" "i + 3"] b1(2) b2(2) b3(2) lt by (auto simp: adds_def)
  have four: "{j \<in> S. i \<le> j \<and> j < i + 4} = S \<inter> {i, i + 1, i + 2, i + 3}" by auto
  have "(if i \<in> S then {i} else {}) \<union> (if i + 1 \<in> S then {i + 1} else {}) \<union> (if i + 2 \<in> S then {i + 2} else {}) \<union>
      (if i + 3 \<in> S then {i + 3} else {}) = {j \<in> S. i \<le> j \<and> j < i + 4}" unfolding four by auto
  then have "adds {j \<in> S. i \<le> j \<and> j < i + 4} b b4"
    using adds_trans [OF adds_trans [OF adds_trans [OF b1(2) b2(2)] b3(2)] b4(2)] by simp
  then show ?thesis using b1(1) b2(1) b3(1) b4(1) by (auto simp: hex_val_char nibble_bits)
qed

text \<open>Reading what was written from bit \<open>i\<close> on adds exactly those bits.\<close>

lemma hex_digits_back:
  assumes "bitstr_wf b"
  shows "\<exists>ds. hex_digits b (bs_bits b) i = Some ds \<and>
    (\<forall>b'. bitstr_wf b' \<and> bs_bits b' = bs_bits b \<longrightarrow>
      (\<exists>b2. unhex_loop (rev ds) i 0 b' = Some (0, b2) \<and> adds {j \<in> bits_of b. i \<le> j} b' b2))"
proof (induction "bs_bits b - i" arbitrary: i rule: less_induct)
  case (less i)
  let ?S = "bits_of b"
  show ?case
  proof (cases "i < bs_bits b")
    case True
    obtain ds where ds: "hex_digits b (bs_bits b) (i + 4) = Some ds"
        "\<And>b'. bitstr_wf b' \<Longrightarrow> bs_bits b' = bs_bits b \<Longrightarrow>
          \<exists>b2. unhex_loop (rev ds) (i + 4) 0 b' = Some (0, b2) \<and> adds {j \<in> ?S. i + 4 \<le> j} b' b2"
      using less.hyps [of "i + 4", OF diff_less_mono2 [OF _ True]] by auto
    let ?c = "hex_char (nibble (i \<in> ?S) (i + 1 \<in> ?S) (i + 2 \<in> ?S) (i + 3 \<in> ?S))"
    have h: "hex_digits b (bs_bits b) i = Some (ds @ [?c])"
      using True ds(1) bit_test_Some [OF assms True] test_below_Some [OF assms]
      by (simp add: hex_digits.simps [of b "bs_bits b" i] nibble_def)
    have "\<exists>b2. unhex_loop (rev (ds @ [?c])) i 0 b' = Some (0, b2) \<and> adds {j \<in> ?S. i \<le> j} b' b2"
      if b': "bitstr_wf b'" "bs_bits b' = bs_bits b" for b'
    proof -
      have "?S \<subseteq> {..<bs_bits b'}" using bits_of_bound [of _ b] b'(2) by auto
      from unhex_nibble [OF b'(1) this, of i "rev ds" 0] obtain b1
        where b1: "unhex_loop (?c # rev ds) i 0 b' = unhex_loop (rev ds) (i + 4) 0 b1" "adds {j \<in> ?S. i \<le> j \<and> j < i + 4} b' b1"
        by blast
      then obtain b2 where b2: "unhex_loop (rev ds) (i + 4) 0 b1 = Some (0, b2)" "adds {j \<in> ?S. i + 4 \<le> j} b1 b2"
        using ds(2) [of b1] b'(2) by (auto simp: adds_def)
      have "{j \<in> ?S. i \<le> j \<and> j < i + 4} \<union> {j \<in> ?S. i + 4 \<le> j} = {j \<in> ?S. i \<le> j}" by auto
      then have "adds {j \<in> ?S. i \<le> j} b' b2" using adds_trans [OF b1(2) b2(2)] by simp
      then show ?thesis using b1(1) b2(1) by auto
    qed
    then show ?thesis using h by blast
  next
    case False
    then have e: "{j \<in> ?S. i \<le> j} = {}" using bits_of_bound [of _ b] by fastforce
    then show ?thesis unfolding e using False by (simp add: hex_digits.simps [of b "bs_bits b" i] adds_def)
  qed
qed

lemma bin_digits_back:
  assumes "bitstr_wf b"
  shows "\<exists>ds. bin_digits b (bs_bits b) i = Some ds \<and>
    (\<forall>b'. bitstr_wf b' \<and> bs_bits b' = bs_bits b \<longrightarrow>
      (\<exists>b2. unbin_loop (rev ds) i b' = Some b2 \<and> adds {j \<in> bits_of b. i \<le> j} b' b2))"
proof (induction "bs_bits b - i" arbitrary: i rule: less_induct)
  case (less i)
  let ?S = "bits_of b"
  show ?case
  proof (cases "i < bs_bits b")
    case True
    obtain ds where ds: "bin_digits b (bs_bits b) (i + 1) = Some ds"
        "\<And>b'. bitstr_wf b' \<Longrightarrow> bs_bits b' = bs_bits b \<Longrightarrow>
          \<exists>b2. unbin_loop (rev ds) (i + 1) b' = Some b2 \<and> adds {j \<in> ?S. i + 1 \<le> j} b' b2"
      using less.hyps [of "i + 1", OF diff_less_mono2 [OF _ True]] by auto
    let ?c = "(if i \<in> ?S then 1 else 0) + 48 :: u8"
    have h: "bin_digits b (bs_bits b) i = Some (ds @ [?c])"
      using True ds(1) bit_test_Some [OF assms True] by (simp add: bin_digits.simps [of b "bs_bits b" i])
    have "\<exists>b2. unbin_loop (rev (ds @ [?c])) i b' = Some b2 \<and> adds {j \<in> ?S. i \<le> j} b' b2"
      if b': "bitstr_wf b'" "bs_bits b' = bs_bits b" for b'
    proof -
      obtain b1 where b1: "set_if (i \<in> ?S) i b' = Some b1" "adds (if i \<in> ?S then {i} else {}) b' b1"
        using set_if_adds [OF b'(1), of "i \<in> ?S" i] True b'(2) by auto
      then obtain b2 where b2: "unbin_loop (rev ds) (i + 1) b1 = Some b2" "adds {j \<in> ?S. i + 1 \<le> j} b1 b2"
        using ds(2) [of b1] b'(2) by (auto simp: adds_def)
      have "(if i \<in> ?S then {i} else {}) \<union> {j \<in> ?S. i + 1 \<le> j} = {j \<in> ?S. i \<le> j}" by (auto simp: Suc_le_eq order_less_le)
      then have "adds {j \<in> ?S. i \<le> j} b' b2" using adds_trans [OF b1(2) b2(2)] by simp
      then show ?thesis using b1(1) b2(1) by auto
    qed
    then show ?thesis using h by blast
  next
    case False
    then have e: "{j \<in> ?S. i \<le> j} = {}" using bits_of_bound [of _ b] by fastforce
    then show ?thesis unfolding e using False by (simp add: bin_digits.simps [of b "bs_bits b" i] adds_def)
  qed
qed

lemma hexmask_back:
  assumes "bitstr_wf b"
  obtains str where "bit_fmt_hexmask b = Some str" and
    "\<And>b'. bitstr_wf b' \<Longrightarrow> bs_bits b' = bs_bits b \<Longrightarrow> 0 < bs_bits b \<Longrightarrow>
      \<exists>b2. bit_unfmt_hexmask b' str = Some (0, b2) \<and> bitstr_wf b2 \<and> bs_bits b2 = bs_bits b \<and> bits_of b2 = bits_of b"
proof -
  obtain ds where ds: "hex_digits b (bs_bits b) 0 = Some ds"
      "\<And>b'. bitstr_wf b' \<Longrightarrow> bs_bits b' = bs_bits b \<Longrightarrow>
        \<exists>b2. unhex_loop (rev ds) 0 0 b' = Some (0, b2) \<and> adds {j \<in> bits_of b. 0 \<le> j} b' b2"
    using hex_digits_back [OF assms, of 0] by blast
  have "\<exists>b2. bit_unfmt_hexmask b' ([48, 120] @ ds) = Some (0, b2) \<and> bitstr_wf b2 \<and> bs_bits b2 = bs_bits b \<and> bits_of b2 = bits_of b"
    if b': "bitstr_wf b'" "bs_bits b' = bs_bits b" "0 < bs_bits b" for b'
  proof -
    obtain b1 where b1: "bit_nclear b' 0 (int (bs_bits b') - 1) = Some b1" "bitstr_wf b1" "bs_bits b1 = bs_bits b'" "bits_of b1 = {}"
      by (rule nclear_all [OF b'(1)]) (use b'(2,3) in simp)
    then show ?thesis using ds(2) [of b1] b' by (auto simp: bit_unfmt_hexmask_def abort_simps adds_def)
  qed
  then show thesis using that ds(1) assms by (simp add: bit_fmt_hexmask_def abort_simps)
qed

text \<open>
  C25: The hexadecimal and the binary mask of a bitmap, read into any bitmap of the same size, give
  the same bits back.
\<close>

theorem bit_mask_formats:
  assumes "bitstr_wf b" and "0 < bs_bits b" and "bitstr_wf b'" and "bs_bits b' = bs_bits b"
  shows "(\<exists>str b2. bit_fmt_hexmask b = Some str \<and> bit_unfmt_hexmask b' str = Some (0, b2) \<and>
      bitstr_wf b2 \<and> bs_bits b2 = bs_bits b \<and> bits_of b2 = bits_of b) \<and>
    (\<exists>str b2. bit_fmt_binmask b = Some str \<and> bit_unfmt_binmask b' str = Some b2 \<and>
      bitstr_wf b2 \<and> bs_bits b2 = bs_bits b \<and> bits_of b2 = bits_of b)"
proof
  show "\<exists>str b2. bit_fmt_hexmask b = Some str \<and> bit_unfmt_hexmask b' str = Some (0, b2) \<and>
      bitstr_wf b2 \<and> bs_bits b2 = bs_bits b \<and> bits_of b2 = bits_of b"
    using assms(1)
  proof (rule hexmask_back)
    fix str
    assume s: "bit_fmt_hexmask b = Some str" and bk: "\<And>b'. bitstr_wf b' \<Longrightarrow> bs_bits b' = bs_bits b \<Longrightarrow> 0 < bs_bits b \<Longrightarrow>
      \<exists>b2. bit_unfmt_hexmask b' str = Some (0, b2) \<and> bitstr_wf b2 \<and> bs_bits b2 = bs_bits b \<and> bits_of b2 = bits_of b"
    show ?thesis using s bk [OF assms(3,4,2)] by blast
  qed
  obtain ds where ds: "bin_digits b (bs_bits b) 0 = Some ds"
      "\<And>b'. bitstr_wf b' \<Longrightarrow> bs_bits b' = bs_bits b \<Longrightarrow>
        \<exists>b2. unbin_loop (rev ds) 0 b' = Some b2 \<and> adds {j \<in> bits_of b. 0 \<le> j} b' b2"
    using bin_digits_back [OF assms(1), of 0] by blast
  obtain b1 where b1: "bit_nclear b' 0 (int (bs_bits b') - 1) = Some b1" "bitstr_wf b1" "bs_bits b1 = bs_bits b'" "bits_of b1 = {}"
    by (rule nclear_all [OF assms(3)]) (use assms(2,4) in simp)
  then show "\<exists>str b2. bit_fmt_binmask b = Some str \<and> bit_unfmt_binmask b' str = Some b2 \<and>
      bitstr_wf b2 \<and> bs_bits b2 = bs_bits b \<and> bits_of b2 = bits_of b"
    using ds(1) ds(2) [of b1] assms by (auto simp: bit_fmt_binmask_def bit_unfmt_binmask_def abort_simps adds_def)
qed

theorem bit_mask_formats_witness:
  "\<exists>str b2. bit_fmt_hexmask sample_bits = Some str \<and> bit_unfmt_hexmask sample_bits str = Some (0, b2) \<and>
    bits_of b2 = bits_of sample_bits"
  using bit_mask_formats [OF sample_bits_wf _ sample_bits_wf refl] by (auto simp: sample_bits_def)

end
