(* ===== verification/Job_Resources.thy ===== *)
theory Job_Resources
  imports Bitstring_Count Bitstring_Search Run_Length
begin

text \<open>
  The resources allocated to a job (src/common/job_resources.c and .h): which nodes, which cores of
  each node, and the CPU counts, in the compact formats the controller keeps. Also the map of the
  cores of the whole cluster (\<^verbatim>\<open>cr_init_global_core_data\<close> in src/common/node_conf.c) that jobs are
  added to and removed from.

  Index arithmetic is on natural numbers. Where a sum exceeds the range of \<^verbatim>\<open>int\<close>, which C either
  leaves undefined or converts in an implementation-defined way, the model is \<^term>\<open>None\<close>, as for a
  read through NULL or outside an array. Two structures passed to one function are distinct objects.
\<close>

section \<open>Data\<close>

record job_resources =
  core_bitmap :: "bitstr option"
  core_bitmap_used :: "bitstr option"
  cpu_array_cnt :: u32
  cpu_array_value :: "u16 list option"
  cpu_array_reps :: "u32 list option"
  cpus :: "u16 list option"
  cpus_used :: "u16 list option"
  cores_per_socket :: "u16 list option"
  memory_allocated :: "u64 list option"
  memory_used :: "u64 list option"
  nhosts :: u32
  node_bitmap :: "bitstr option"
  node_req :: u32
  nodes :: "c_string option"
  ncpus :: u32
  sock_core_rep_count :: "u32 list option"
  sockets_per_node :: "u16 list option"
  whole_node :: u8

text \<open>What the code uses of a node record and of its configuration record.\<close>

record node_record =
  sockets :: u16
  cores :: u16
  config_sockets :: u16
  config_cores :: u16

definition create_job_resources :: job_resources where
  "create_job_resources =
     \<lparr>core_bitmap = None, core_bitmap_used = None, cpu_array_cnt = 0, cpu_array_value = None,
      cpu_array_reps = None, cpus = None, cpus_used = None, cores_per_socket = None,
      memory_allocated = None, memory_used = None, nhosts = 0, node_bitmap = None, node_req = 0,
      nodes = None, ncpus = 0, sock_core_rep_count = None, sockets_per_node = None, whole_node = 0\<rparr>"


section \<open>Building\<close>

definition node_shape :: "bool \<Rightarrow> node_record \<Rightarrow> u16 \<times> u16" where
  "node_shape fast_schedule nd =
     (if fast_schedule then (config_sockets nd, config_cores nd) else (sockets nd, cores nd))"

text \<open>
  The body of the loop of \<^verbatim>\<open>build_job_resources\<close> for a node of the job; the state is the structure,
  \<^verbatim>\<open>sock_inx\<close> and \<^verbatim>\<open>core_cnt\<close>.
\<close>

definition new_shape :: "job_resources \<Rightarrow> int \<Rightarrow> u16 \<Rightarrow> u16 \<Rightarrow> bool option" where
  "new_shape jr sock_inx socks cors =
     (if sock_inx < 0 then Some True
      else do {
        s \<leftarrow> deref (sockets_per_node jr) (nat sock_inx);
        if socks \<noteq> s then Some True
        else do { c \<leftarrow> deref (cores_per_socket jr) (nat sock_inx); Some (cors \<noteq> c) } })"

definition build_node :: "u16 \<times> u16 \<Rightarrow> job_resources \<times> int \<times> nat \<Rightarrow> (job_resources \<times> int \<times> nat) option" where
  "build_node shape = (\<lambda>(jr, sock_inx, core_cnt). do {
     let (socks, cors) = shape;
     fresh \<leftarrow> new_shape jr sock_inx socks cors;
     (jr, sock_inx) \<leftarrow>
       (if fresh
        then do {
          ss \<leftarrow> store (sockets_per_node jr) (nat (sock_inx + 1)) socks;
          cc \<leftarrow> store (cores_per_socket jr) (nat (sock_inx + 1)) cors;
          Some (jr\<lparr>sockets_per_node := ss, cores_per_socket := cc\<rparr>, sock_inx + 1) }
        else Some (jr, sock_inx));
     r \<leftarrow> deref (sock_core_rep_count jr) (nat sock_inx);
     rr \<leftarrow> store (sock_core_rep_count jr) (nat sock_inx) (r + 1);
     int_ok (core_cnt + unat cors * unat socks);
     Some (jr\<lparr>sock_core_rep_count := rr\<rparr>, sock_inx, core_cnt + unat cors * unat socks) })"

definition build_job_resources :: "node_record list \<Rightarrow> bool \<Rightarrow> job_resources \<Rightarrow> (int \<times> job_resources) option" where
  "build_job_resources node_table fast_schedule jr =
     (case node_bitmap jr of
        None \<Rightarrow> Some (SLURM_ERROR, jr)
      | Some nb \<Rightarrow> do {
          let n = unat (nhosts jr);
          let jr = jr\<lparr>sockets_per_node := Some (replicate n 0), cores_per_socket := Some (replicate n 0),
                      sock_core_rep_count := Some (replicate n 0)\<rparr>;
          len \<leftarrow> bit_size nb;
          (jr, sock_inx, core_cnt) \<leftarrow>
            forM [0..<nat len]
              (\<lambda>i st. do {
                 t \<leftarrow> bit_test nb (int i);
                 if t then do { nd \<leftarrow> readA node_table i; build_node (node_shape fast_schedule nd) st }
                 else Some st })
              (jr, -1, 0);
          core \<leftarrow> bit_alloc (int core_cnt);
          used \<leftarrow> bit_alloc (int core_cnt);
          Some (SLURM_SUCCESS, jr\<lparr>core_bitmap := Some core, core_bitmap_used := Some used\<rparr>) })"

text \<open>
  The run-length encoding of the CPU counts; the state is \<^verbatim>\<open>last_cpu_cnt\<close>, which no 16-bit count
  equals at first, the counters and the arrays.
\<close>

definition cpu_array_step :: "u16 list \<Rightarrow> nat \<Rightarrow> u16 option \<times> nat \<times> nat \<times> u16 list \<times> u32 list \<Rightarrow>
    (u16 option \<times> nat \<times> nat \<times> u16 list \<times> u32 list) option" where
  "cpu_array_step cp i = (\<lambda>(last, cnt, cpu_count, vals, reps). do {
     c \<leftarrow> readA cp i;
     int_ok (cpu_count + unat c);
     (if Some c \<noteq> last
      then do {
        assertC (cnt < length vals \<and> cnt < length reps);
        Some (Some c, cnt + 1, cpu_count + unat c, vals[cnt := c], reps[cnt := 1]) }
      else do {
        assertC (0 < cnt \<and> cnt - 1 < length reps);
        Some (last, cnt, cpu_count + unat c, vals, reps[cnt - 1 := reps ! (cnt - 1) + 1]) }) })"

definition build_job_resources_cpu_array :: "job_resources \<Rightarrow> (int \<times> job_resources) option" where
  "build_job_resources_cpu_array jr =
     (if nhosts jr = 0 then Some (0, jr)
      else case cpus jr of
        None \<Rightarrow> Some (-1, jr)
      | Some cp \<Rightarrow> do {
          let n = unat (nhosts jr);
          (last, cnt, cpu_count, vals, reps) \<leftarrow>
            forM [0..<n] (cpu_array_step cp) (None, 0, 0, replicate n 0, replicate n 0);
          Some (int cpu_count, jr\<lparr>cpu_array_cnt := of_nat cnt, cpu_array_value := Some vals, cpu_array_reps := Some reps\<rparr>) })"

text \<open>
  \<^verbatim>\<open>build_job_resources_cpus_array\<close> reads the array it is filling. The inner loop over the
  repetitions of a run either completes or returns -1.
\<close>

fun cpus_run :: "nat \<Rightarrow> nat \<Rightarrow> nat \<Rightarrow> u16 list \<times> nat \<times> nat \<Rightarrow> (u16 list \<times> nat \<times> nat + u16 list) option" where
  "cpus_run n i 0 st = Some (Inl st)"
| "cpus_run n i (Suc k) (cp, cpu_inx, cpu_count) =
     (if cpu_inx \<ge> n then Some (Inr cp)
      else do {
        c \<leftarrow> readA cp i;
        int_ok (cpu_count + unat c);
        cpus_run n i k (cp[cpu_inx := c], cpu_inx + 1, cpu_count + unat c) })"

fun cpus_runs :: "nat \<Rightarrow> u32 list \<Rightarrow> nat list \<Rightarrow> u16 list \<times> nat \<times> nat \<Rightarrow> (u16 list \<times> nat \<times> nat + u16 list) option" where
  "cpus_runs n reps [] st = Some (Inl st)"
| "cpus_runs n reps (i # is) st = do {
     r \<leftarrow> readA reps i;
     x \<leftarrow> cpus_run n i (unat r) st;
     (case x of Inl st \<Rightarrow> cpus_runs n reps is st | Inr cp \<Rightarrow> Some (Inr cp)) }"

definition build_job_resources_cpus_array :: "job_resources \<Rightarrow> (int \<times> job_resources) option" where
  "build_job_resources_cpus_array jr =
     (if nhosts jr = 0 then Some (0, jr)
      else if cpu_array_cnt jr = 0 \<or> cpu_array_value jr = None then Some (-1, jr)
      else case cpu_array_reps jr of
        None \<Rightarrow> Some (-1, jr)
      | Some reps \<Rightarrow> do {
          let n = unat (nhosts jr);
          x \<leftarrow> cpus_runs n reps [0..<unat (cpu_array_cnt jr)] (replicate n 0, 0, 0);
          Some (case x of
            Inr cp \<Rightarrow> (-1, jr\<lparr>cpus := Some cp\<rparr>)
          | Inl (cp, cpu_inx, cpu_count) \<Rightarrow>
              (if cpu_inx < n then -1 else int cpu_count, jr\<lparr>cpus := Some cp\<rparr>)) })"


section \<open>Checking, copying and freeing\<close>

definition free_null_bitmap :: "bitstr option \<Rightarrow> unit option" where
  "free_null_bitmap p = (case p of None \<Rightarrow> Some () | Some b \<Rightarrow> do { bit_free b; Some () })"

text \<open>
  \<open>node_name2bitmap\<close> and the number of node records are state of the node table: an error code, or
  the bitmap of the named nodes.
\<close>

definition reset_node_bitmap :: "(c_string \<Rightarrow> int \<times> bitstr option) \<Rightarrow> nat \<Rightarrow> job_resources option \<Rightarrow>
    (int \<times> job_resources option) option" where
  "reset_node_bitmap node_name2bitmap node_record_count p =
     (case p of
        None \<Rightarrow> Some (SLURM_SUCCESS, None)
      | Some jr \<Rightarrow> do {
          free_null_bitmap (node_bitmap jr);
          (rc, nb) \<leftarrow>
            (case nodes jr of
               Some names \<Rightarrow> Some (node_name2bitmap names)
             | None \<Rightarrow> do { b \<leftarrow> bit_alloc (int node_record_count); Some (0, Some b) });
          let jr = jr\<lparr>node_bitmap := nb\<rparr>;
          (if rc \<noteq> 0 then Some (SLURM_ERROR, Some jr)
           else do {
             b \<leftarrow> nb;
             i \<leftarrow> bit_set_count b;
             Some (if int (unat (nhosts jr)) \<noteq> i then SLURM_ERROR else SLURM_SUCCESS, Some jr) }) })"

fun valid_nodes :: "node_record list \<Rightarrow> bool \<Rightarrow> bitstr \<Rightarrow> job_resources \<Rightarrow> nat list \<Rightarrow> nat \<Rightarrow> nat \<Rightarrow> int option" where
  "valid_nodes node_table fast nb jr [] sock_inx sock_cnt = Some SLURM_SUCCESS"
| "valid_nodes node_table fast nb jr (i # is) sock_inx sock_cnt = do {
     t \<leftarrow> bit_test nb (int i);
     (if \<not> t then valid_nodes node_table fast nb jr is sock_inx sock_cnt
      else do {
        nd \<leftarrow> readA node_table i;
        let (socks, cors) = node_shape fast nd;
        r \<leftarrow> deref (sock_core_rep_count jr) sock_inx;
        let (sock_inx, sock_cnt) = (if sock_cnt \<ge> unat r then (sock_inx + 1, 0) else (sock_inx, sock_cnt));
        s \<leftarrow> deref (sockets_per_node jr) sock_inx;
        c \<leftarrow> deref (cores_per_socket jr) sock_inx;
        int_ok (unat s * unat c);
        int_ok (unat socks * unat cors);
        (if unat s * unat c \<noteq> unat socks * unat cors then Some SLURM_ERROR
         else valid_nodes node_table fast nb jr is sock_inx (sock_cnt + 1)) }) }"

definition valid_job_resources :: "node_record list \<Rightarrow> bool \<Rightarrow> job_resources \<Rightarrow> int option" where
  "valid_job_resources node_table fast_schedule jr =
     (case node_bitmap jr of
        None \<Rightarrow> Some SLURM_ERROR
      | Some nb \<Rightarrow>
          if sockets_per_node jr = None \<or> cores_per_socket jr = None \<or> sock_core_rep_count jr = None
          then Some SLURM_ERROR
          else do {
            len \<leftarrow> bit_size nb;
            valid_nodes node_table fast_schedule nb jr [0..<nat len] 0 0 })"

text \<open>A copy of \<open>k\<close> elements into a new array of \<open>n\<close>, zero beyond them.\<close>

definition copy_prefix :: "'v::zero list option \<Rightarrow> nat \<Rightarrow> nat \<Rightarrow> 'v list option option" where
  "copy_prefix p k n =
     (if k = 0 then Some (Some (replicate n 0))
      else do { xs \<leftarrow> p; assertC (k \<le> length xs \<and> k \<le> n); Some (Some (take k xs @ replicate (n - k) 0)) })"

definition copy_array :: "'v::zero list option \<Rightarrow> nat \<Rightarrow> 'v list option option" where
  "copy_array p n = (if p = None then Some None else copy_prefix p n n)"

definition copy_bitmap :: "bitstr option \<Rightarrow> bitstr option option" where
  "copy_bitmap p = (case p of None \<Rightarrow> Some None | Some b \<Rightarrow> do { c \<leftarrow> bit_copy b; Some (Some c) })"

function copy_runs :: "u32 list option \<Rightarrow> nat \<Rightarrow> nat \<Rightarrow> nat \<Rightarrow> nat option" where
  "copy_runs reps n i sock_inx =
     (if i < n
      then do {
        r \<leftarrow> deref reps i;
        if r = 0 then Some i
        else if sock_inx + unat r \<ge> n then Some (i + 1)
        else copy_runs reps n (i + 1) (sock_inx + unat r) }
      else Some i)"
  by pat_completeness auto
termination by (relation "measure (\<lambda>(reps, n, i, sock_inx). n - i)") auto

declare copy_runs.simps [simp del]

definition copy_job_resources :: "job_resources \<Rightarrow> job_resources option" where
  "copy_job_resources jr = do {
     let n = unat (nhosts jr);
     let cnt = unat (cpu_array_cnt jr);
     core \<leftarrow> copy_bitmap (core_bitmap jr);
     used \<leftarrow> copy_bitmap (core_bitmap_used jr);
     nb \<leftarrow> copy_bitmap (node_bitmap jr);
     reps \<leftarrow> (if cnt = 0 then Some None else copy_array (cpu_array_reps jr) cnt);
     vals \<leftarrow> (if cnt = 0 then Some None else copy_array (cpu_array_value jr) cnt);
     cp \<leftarrow> copy_array (cpus jr) n;
     cu \<leftarrow> copy_array (cpus_used jr) n;
     ma \<leftarrow> copy_array (memory_allocated jr) n;
     mu \<leftarrow> copy_array (memory_used jr) n;
     i \<leftarrow> copy_runs (sock_core_rep_count jr) n 0 0;
     ss \<leftarrow> copy_prefix (sockets_per_node jr) i n;
     cc \<leftarrow> copy_prefix (cores_per_socket jr) i n;
     rr \<leftarrow> copy_prefix (sock_core_rep_count jr) i n;
     Some (create_job_resources\<lparr>nhosts := nhosts jr, ncpus := ncpus jr, node_req := node_req jr,
       whole_node := whole_node jr, core_bitmap := core, core_bitmap_used := used, node_bitmap := nb,
       cpu_array_cnt := cpu_array_cnt jr, cpu_array_reps := reps, cpu_array_value := vals, cpus := cp,
       cpus_used := cu, memory_allocated := ma, memory_used := mu, sockets_per_node := ss,
       cores_per_socket := cc, sock_core_rep_count := rr\<rparr>) }"

definition free_job_resources :: "job_resources option \<Rightarrow> job_resources option option" where
  "free_job_resources p =
     (case p of
        None \<Rightarrow> Some None
      | Some jr \<Rightarrow> do {
          free_null_bitmap (core_bitmap jr);
          free_null_bitmap (core_bitmap_used jr);
          free_null_bitmap (node_bitmap jr);
          Some None })"


section \<open>The cores of a node\<close>

text \<open>
  The loop that most operations start with: the runs before the node are skipped. The result is
  \<^verbatim>\<open>bit_inx\<close>, what is left of \<^verbatim>\<open>node_id\<close>, and the index of the run of the node if there is one.
\<close>

fun find_node :: "job_resources \<Rightarrow> nat list \<Rightarrow> nat \<Rightarrow> nat \<Rightarrow> (nat \<times> nat \<times> nat option) option" where
  "find_node jr [] bit_inx node_id = Some (bit_inx, node_id, None)"
| "find_node jr (i # is) bit_inx node_id = do {
     r \<leftarrow> deref (sock_core_rep_count jr) i;
     (if unat r \<le> node_id
      then do {
        s \<leftarrow> deref (sockets_per_node jr) i;
        c \<leftarrow> deref (cores_per_socket jr) i;
        int_ok (bit_inx + unat s * unat c * unat r);
        find_node jr is (bit_inx + unat s * unat c * unat r) (node_id - unat r) }
      else Some (bit_inx, node_id, Some i)) }"

definition get_job_resources_offset :: "job_resources \<Rightarrow> u32 \<Rightarrow> u16 \<Rightarrow> u16 \<Rightarrow> int option" where
  "get_job_resources_offset jr node_id socket_id core_id = do {
     (bit_inx, k, at) \<leftarrow> find_node jr [0..<unat (nhosts jr)] 0 (unat node_id);
     r \<leftarrow> (case at of
        None \<Rightarrow> Some (Some bit_inx)
      | Some i \<Rightarrow> do {
          s \<leftarrow> deref (sockets_per_node jr) i;
          c \<leftarrow> deref (cores_per_socket jr) i;
          (if socket_id \<ge> s then Some None
           else if core_id \<ge> c then Some None
           else do {
             let bit_inx = bit_inx + unat s * unat c * k + unat c * unat socket_id + unat core_id;
             int_ok bit_inx;
             Some (Some bit_inx) }) });
     (case r of
        None \<Rightarrow> Some (-1)
      | Some bit_inx \<Rightarrow> do {
          b \<leftarrow> core_bitmap jr;
          n \<leftarrow> bit_size b;
          Some (if int bit_inx \<ge> n then -1 else int bit_inx) }) }"

text \<open>\<^verbatim>\<open>bit_test\<close> returns 0 or 1.\<close>

definition get_job_resources_bit :: "job_resources \<Rightarrow> u32 \<Rightarrow> u16 \<Rightarrow> u16 \<Rightarrow> int option" where
  "get_job_resources_bit jr node_id socket_id core_id = do {
     bit_inx \<leftarrow> get_job_resources_offset jr node_id socket_id core_id;
     (if bit_inx < 0 then Some SLURM_ERROR
      else do { b \<leftarrow> core_bitmap jr; t \<leftarrow> bit_test b bit_inx; Some (if t then 1 else 0) }) }"

definition set_job_resources_bit :: "job_resources \<Rightarrow> u32 \<Rightarrow> u16 \<Rightarrow> u16 \<Rightarrow> (int \<times> job_resources) option" where
  "set_job_resources_bit jr node_id socket_id core_id = do {
     bit_inx \<leftarrow> get_job_resources_offset jr node_id socket_id core_id;
     (if bit_inx < 0 then Some (SLURM_ERROR, jr)
      else do {
        b \<leftarrow> core_bitmap jr;
        b \<leftarrow> bit_set b bit_inx;
        Some (SLURM_SUCCESS, jr\<lparr>core_bitmap := Some b\<rparr>) }) }"

text \<open>The first core and the number of cores of a node, the latter zero if there is no such node.\<close>

definition node_range :: "job_resources \<Rightarrow> nat \<Rightarrow> (nat \<times> nat) option" where
  "node_range jr node_id = do {
     (bit_inx, k, at) \<leftarrow> find_node jr [0..<unat (nhosts jr)] 0 node_id;
     (case at of
        None \<Rightarrow> Some (bit_inx, 0)
      | Some i \<Rightarrow> do {
          s \<leftarrow> deref (sockets_per_node jr) i;
          c \<leftarrow> deref (cores_per_socket jr) i;
          int_ok (bit_inx + unat s * unat c * k + unat s * unat c);
          Some (bit_inx + unat s * unat c * k, unat s * unat c) }) }"

text \<open>The same with the checks that follow: \<^term>\<open>None\<close> in the result is an error.\<close>

definition node_cores :: "job_resources \<Rightarrow> nat \<Rightarrow> (nat \<times> nat) option option" where
  "node_cores jr node_id = do {
     (bit_inx, core_cnt) \<leftarrow> node_range jr node_id;
     (if core_cnt < 1 then Some None
      else do {
        b \<leftarrow> core_bitmap jr;
        n \<leftarrow> bit_size b;
        Some (if int (bit_inx + core_cnt) > n then None else Some (bit_inx, core_cnt)) }) }"

definition get_job_resources_node :: "job_resources \<Rightarrow> u32 \<Rightarrow> int option" where
  "get_job_resources_node jr node_id = do {
     r \<leftarrow> node_cores jr (unat node_id);
     (case r of
        None \<Rightarrow> Some 0
      | Some (bit_inx, core_cnt) \<Rightarrow> do {
          b \<leftarrow> core_bitmap jr;
          t \<leftarrow> existsM [0..<core_cnt] (\<lambda>i. bit_test b (int (bit_inx + i)));
          Some (if t then 1 else 0) }) }"

definition change_job_resources_node :: "bool \<Rightarrow> job_resources \<Rightarrow> u32 \<Rightarrow> (int \<times> job_resources) option" where
  "change_job_resources_node new_value jr node_id = do {
     r \<leftarrow> node_cores jr (unat node_id);
     (case r of
        None \<Rightarrow> Some (SLURM_ERROR, jr)
      | Some (bit_inx, core_cnt) \<Rightarrow> do {
          b \<leftarrow> core_bitmap jr;
          b \<leftarrow> forM [0..<core_cnt] (\<lambda>i b. bit_put new_value b (int (bit_inx + i))) b;
          Some (SLURM_SUCCESS, jr\<lparr>core_bitmap := Some b\<rparr>) }) }"

definition set_job_resources_node :: "job_resources \<Rightarrow> u32 \<Rightarrow> (int \<times> job_resources) option" where
  "set_job_resources_node jr node_id = change_job_resources_node True jr node_id"

definition clear_job_resources_node :: "job_resources \<Rightarrow> u32 \<Rightarrow> (int \<times> job_resources) option" where
  "clear_job_resources_node jr node_id = change_job_resources_node False jr node_id"

definition count_job_resources_node :: "job_resources \<Rightarrow> u32 \<Rightarrow> nat option" where
  "count_job_resources_node jr node_id = do {
     r \<leftarrow> node_cores jr (unat node_id);
     (case r of
        None \<Rightarrow> Some 0
      | Some (bit_inx, core_cnt) \<Rightarrow> do {
          b \<leftarrow> core_bitmap jr;
          forM [0..<core_cnt]
            (\<lambda>i set_cnt. do { t \<leftarrow> bit_test b (int (bit_inx + i)); Some (if t then Suc set_cnt else set_cnt) }) 0 }) }"

definition copy_job_resources_node :: "job_resources \<Rightarrow> u32 \<Rightarrow> bitstr option option" where
  "copy_job_resources_node jr node_id = do {
     r \<leftarrow> node_cores jr (unat node_id);
     (case r of
        None \<Rightarrow> Some None
      | Some (bit_inx, core_cnt) \<Rightarrow> do {
          b \<leftarrow> core_bitmap jr;
          core \<leftarrow> bit_alloc (int core_cnt);
          core \<leftarrow> forM [0..<core_cnt] (\<lambda>i core. do {
             t \<leftarrow> bit_test b (int (bit_inx + i)); if t then bit_set core (int i) else Some core }) core;
          Some (Some core) }) }"

definition job_resources_bits_copy :: "job_resources \<Rightarrow> u16 \<Rightarrow> job_resources \<Rightarrow> u16 \<Rightarrow> (int \<times> job_resources) option" where
  "job_resources_bits_copy new new_node_offset from_jr from_node_offset =
     (if unat new_node_offset \<ge> unat (nhosts new) then Some (SLURM_ERROR, new)
      else do {
        (new_bit_inx, new_core_cnt) \<leftarrow> node_range new (unat new_node_offset);
        (if unat from_node_offset \<ge> unat (nhosts from_jr) then Some (SLURM_ERROR, new)
         else do {
           (from_bit_inx, from_core_cnt) \<leftarrow> node_range from_jr (unat from_node_offset);
           let rc = (if new_core_cnt \<noteq> from_core_cnt then SLURM_ERROR else SLURM_SUCCESS);
           let cnt = min new_core_cnt from_core_cnt;
           (core, used) \<leftarrow> forM [0..<cnt]
             (\<lambda>i (core, used). do {
                fc \<leftarrow> core_bitmap from_jr;
                t \<leftarrow> bit_test fc (int (from_bit_inx + i));
                core \<leftarrow> (if t then do { c \<leftarrow> core; c \<leftarrow> bit_set c (int (new_bit_inx + i)); Some (Some c) } else Some core);
                fu \<leftarrow> core_bitmap_used from_jr;
                t \<leftarrow> bit_test fu (int (from_bit_inx + i));
                used \<leftarrow> (if t then do { u \<leftarrow> used; u \<leftarrow> bit_set u (int (new_bit_inx + i)); Some (Some u) } else Some used);
                Some (core, used) })
             (core_bitmap new, core_bitmap_used new);
           Some (rc, new\<lparr>core_bitmap := core, core_bitmap_used := used\<rparr>) }) })"

text \<open>
  \<^verbatim>\<open>get_job_resources_cnt\<close> compares an \<^verbatim>\<open>int\<close> that starts at -1 with the unsigned node number, so
  the comparison is modulo \<open>2\<^sup>3\<^sup>2\<close>. The result is the return code and the two counts.
\<close>

fun cnt_walk :: "job_resources \<Rightarrow> u32 \<Rightarrow> nat list \<Rightarrow> u32 \<Rightarrow> (int \<times> u16 \<times> u16) option" where
  "cnt_walk jr node_id [] node_inx = Some (SLURM_ERROR, 0, 0)"
| "cnt_walk jr node_id (i # is) node_inx = do {
     r \<leftarrow> deref (sock_core_rep_count jr) i;
     (if node_id \<le> node_inx + r
      then do {
        c \<leftarrow> deref (cores_per_socket jr) i;
        s \<leftarrow> deref (sockets_per_node jr) i;
        Some (SLURM_SUCCESS, s, c) }
      else cnt_walk jr node_id is (node_inx + r)) }"

definition get_job_resources_cnt :: "job_resources \<Rightarrow> u32 \<Rightarrow> (int \<times> u16 \<times> u16) option" where
  "get_job_resources_cnt jr node_id = do {
     assertC (cores_per_socket jr \<noteq> None \<and> sock_core_rep_count jr \<noteq> None \<and> sockets_per_node jr \<noteq> None);
     cnt_walk jr node_id [0..<unat (nhosts jr)] (- 1) }"


section \<open>Removing a node\<close>

text \<open>
  The runs after an exhausted one move up until \<^verbatim>\<open>host_cnt\<close> nodes are covered. The three arrays are
  sockets, cores and repetitions.
\<close>

type_synonym runs = "u16 list \<times> u16 list \<times> u32 list"

function shift_runs :: "runs \<Rightarrow> nat \<Rightarrow> int \<Rightarrow> runs option" where
  "shift_runs (ss, cc, rr) i host_cnt =
     (if host_cnt > 0
      then if i + 1 < length ss \<and> i + 1 < length cc \<and> i + 1 < length rr
           then shift_runs (ss[i := ss ! (i + 1)], cc[i := cc ! (i + 1)], rr[i := rr ! (i + 1)]) (i + 1)
                  (host_cnt - int (unat (rr ! (i + 1))))
           else None
      else Some (ss, cc, rr))"
  by pat_completeness auto
termination by (relation "measure (\<lambda>((ss, cc, rr), i, host_cnt). length rr - i)") auto

declare shift_runs.simps [simp del]

text \<open>The first loop: the new runs, the first core and the number of cores of the node.\<close>

fun extract_runs :: "runs \<Rightarrow> nat list \<Rightarrow> int \<Rightarrow> nat \<Rightarrow> nat \<Rightarrow> (runs \<times> nat \<times> nat) option" where
  "extract_runs rs [] host_cnt node_inx bit_inx = Some (rs, bit_inx, 0)"
| "extract_runs (ss, cc, rr) (i # is) host_cnt node_inx bit_inx = do {
     s \<leftarrow> readA ss i;
     c \<leftarrow> readA cc i;
     r \<leftarrow> readA rr i;
     let host_cnt = host_cnt - int (unat r);
     (if unat r \<le> node_inx
      then do {
        int_ok (bit_inx + unat s * unat c * unat r);
        extract_runs (ss, cc, rr) is host_cnt (node_inx - unat r) (bit_inx + unat s * unat c * unat r) }
      else do {
        int_ok (bit_inx + unat s * unat c * node_inx + unat s * unat c);
        rs \<leftarrow> (if r - 1 = 0 then shift_runs (ss, cc, rr[i := r - 1]) i host_cnt
              else Some (ss, cc, rr[i := r - 1]));
        Some (rs, bit_inx + unat s * unat c * node_inx, unat s * unat c) }) }"

text \<open>Moving the bits after the node down, and cutting the bitmap.\<close>

definition shift_bits :: "nat \<Rightarrow> nat \<Rightarrow> nat \<Rightarrow> bitstr \<Rightarrow> bitstr option" where
  "shift_bits bit_inx core_cnt len b =
     forM [bit_inx..<len - core_cnt]
       (\<lambda>i b. do { t \<leftarrow> bit_test b (int (i + core_cnt)); bit_put t b (int i) }) b"

definition cut_cores :: "nat \<Rightarrow> nat \<Rightarrow> nat \<Rightarrow> bitstr \<Rightarrow> bitstr option" where
  "cut_cores bit_inx core_cnt len b = do {
     b \<leftarrow> shift_bits bit_inx core_cnt len b;
     bit_realloc b (int len - int core_cnt) }"

text \<open>Clearing the bit of the node with number \<open>node_id\<close> within the job; \<open>n\<close> counts the nodes seen.\<close>

fun clear_nth_node :: "nat list \<Rightarrow> nat \<Rightarrow> nat \<Rightarrow> bitstr \<Rightarrow> (int \<times> bitstr) option" where
  "clear_nth_node [] node_id n nb = Some (int n - 1, nb)"
| "clear_nth_node (i # is) node_id n nb = do {
     t \<leftarrow> bit_test nb (int i);
     (if \<not> t then clear_nth_node is node_id n nb
      else if n = node_id then do { nb \<leftarrow> bit_clear nb (int i); Some (int n, nb) }
      else clear_nth_node is node_id (n + 1) nb) }"

definition shift_array :: "nat \<Rightarrow> nat \<Rightarrow> 'v list option \<Rightarrow> 'v list option option" where
  "shift_array k n p = forM [k..<n] (\<lambda>i p. do { v \<leftarrow> deref p (i + 1); store p i v }) p"

definition extract_job_resources_node :: "(bitstr \<Rightarrow> c_string option) \<Rightarrow> job_resources \<Rightarrow> u32 \<Rightarrow>
    (int \<times> job_resources) option" where
  "extract_job_resources_node bitmap2node_name jr node_id = do {
     (jr, bit_inx, core_cnt) \<leftarrow>
       (if nhosts jr = 0 then Some (jr, 0, 0)
        else do {
          ss \<leftarrow> sockets_per_node jr;
          cc \<leftarrow> cores_per_socket jr;
          rr \<leftarrow> sock_core_rep_count jr;
          ((ss, cc, rr), bit_inx, core_cnt) \<leftarrow>
            extract_runs (ss, cc, rr) [0..<unat (nhosts jr)] (int (unat (nhosts jr))) (unat node_id) 0;
          Some (jr\<lparr>sockets_per_node := Some ss, cores_per_socket := Some cc, sock_core_rep_count := Some rr\<rparr>,
                bit_inx, core_cnt) });
     (if core_cnt < 1 then Some (SLURM_ERROR, jr)
      else do {
        b \<leftarrow> core_bitmap jr;
        len \<leftarrow> bit_size b;
        b \<leftarrow> cut_cores bit_inx core_cnt (nat len) b;
        used \<leftarrow> (case core_bitmap_used jr of
            None \<Rightarrow> Some None
          | Some u \<Rightarrow> do { u \<leftarrow> cut_cores bit_inx core_cnt (nat len) u; Some (Some u) });
        nb \<leftarrow> node_bitmap jr;
        i_first \<leftarrow> bit_ffs nb;
        i_last \<leftarrow> (if i_first \<ge> 0 then bit_fls nb else Some (i_first - 1));
        (n, nb) \<leftarrow> clear_nth_node [nat i_first..<nat (i_last + 1)] (unat node_id) 0 nb;
        let nh = nhosts jr - 1;
        let k = (if n < 0 then unat nh else nat n);
        cp \<leftarrow> shift_array k (unat nh) (cpus jr);
        cu \<leftarrow> shift_array k (unat nh) (cpus_used jr);
        ma \<leftarrow> shift_array k (unat nh) (memory_allocated jr);
        mu \<leftarrow> shift_array k (unat nh) (memory_used jr);
        let jr = jr\<lparr>core_bitmap := Some b, core_bitmap_used := used, node_bitmap := Some nb, nhosts := nh,
                    cpus := cp, cpus_used := cu, memory_allocated := ma, memory_used := mu,
                    nodes := bitmap2node_name nb\<rparr>;
        (cnt, jr) \<leftarrow> build_job_resources_cpu_array jr;
        Some (SLURM_SUCCESS, jr\<lparr>ncpus := word_of_int cnt\<rparr>) }) }"

text \<open>The number of a node of the cluster within the job.\<close>

definition job_resources_node_inx_to_cpu_inx :: "job_resources option \<Rightarrow> int \<Rightarrow> int option" where
  "job_resources_node_inx_to_cpu_inx p node_inx =
     (case p of
        None \<Rightarrow> Some (-1)
      | Some jr \<Rightarrow>
          (case node_bitmap jr of
             None \<Rightarrow> Some (-1)
           | Some nb \<Rightarrow> do {
               t \<leftarrow> bit_test nb node_inx;
               (if \<not> t then Some (-1)
                else if cpu_array_cnt jr = 0 then Some (-1)
                else if nhosts jr = 1 then Some 0
                else do {
                  first_inx \<leftarrow> bit_ffs nb;
                  cnt \<leftarrow> forM [nat first_inx..<nat node_inx + 1]
                    (\<lambda>i n. do { t \<leftarrow> bit_test nb (int i); Some (if t then Suc n else n) }) 0;
                  Some (if cnt > unat (nhosts jr) then -1 else int cnt - 1) }) }))"


section \<open>The cores of the cluster\<close>

text \<open>
  \<^verbatim>\<open>cr_init_global_core_data\<close> computes the number of cores of every node, in 16 bits, and where they
  start in a bitmap of all cores; the last offset is the total.
\<close>

definition cr_cores :: "bool \<Rightarrow> node_record \<Rightarrow> u16" where
  "cr_cores fast_schedule nd =
     (if fast_schedule then config_cores nd * config_sockets nd else cores nd * sockets nd)"

fun cr_offsets :: "u32 \<Rightarrow> u16 list \<Rightarrow> u32 list" where
  "cr_offsets off [] = [off]"
| "cr_offsets off (c # cs) = off # cr_offsets (off + ucast c) cs"

definition cr_init_global_core_data :: "node_record list \<Rightarrow> bool \<Rightarrow> (u16 list \<times> u32 list) option" where
  "cr_init_global_core_data node_table fast_schedule = do {
     assertC (node_table \<noteq> []);
     (let cs = map (cr_cores fast_schedule) node_table in Some (cs, cr_offsets 0 cs)) }"

definition cr_get_coremap_offset :: "u32 list option \<Rightarrow> nat \<Rightarrow> u32 option" where
  "cr_get_coremap_offset offsets node_index = deref offsets node_index"

text \<open>
  The loops over the nodes of a job stop after as many nodes as its bitmap has; \<open>offs\<close> is
  \<^verbatim>\<open>cr_node_cores_offset\<close> and \<open>bpn\<close> is \<^verbatim>\<open>bits_per_node\<close>.
\<close>

lemma bit_test_bound: "bit_test b (int i) = Some t \<Longrightarrow> i < bs_bits b"
  by (auto simp: bit_test_def assert_bit_valid_def bind_eq_Some_conv assertC_def split: if_splits)

definition core_conflict :: "job_resources \<Rightarrow> bitstr \<Rightarrow> nat \<Rightarrow> nat \<Rightarrow> nat \<Rightarrow> bool option" where
  "core_conflict jr full full_bit_inx job_bit_inx n =
     existsM [0..<n] (\<lambda>i. do {
       t \<leftarrow> bit_test full (int (full_bit_inx + i));
       (if \<not> t then Some False
        else if whole_node jr = 1 then Some True
        else do { b \<leftarrow> core_bitmap jr; bit_test b (int (job_bit_inx + i)) }) })"

function fits_nodes :: "job_resources \<Rightarrow> bitstr \<Rightarrow> u32 list \<Rightarrow> u16 list \<Rightarrow> bitstr \<Rightarrow> nat \<Rightarrow> nat \<Rightarrow> nat \<Rightarrow> int option" where
  "fits_nodes jr full offs bpn nb full_node_inx job_bit_inx job_node_cnt =
     (if job_node_cnt > 0
      then do {
        t \<leftarrow> bit_test nb (int full_node_inx);
        (if t
         then do {
           off \<leftarrow> readA offs full_node_inx;
           n \<leftarrow> readA bpn full_node_inx;
           x \<leftarrow> core_conflict jr full (unat off) job_bit_inx (unat n);
           (if x then Some 0
            else fits_nodes jr full offs bpn nb (full_node_inx + 1) (job_bit_inx + unat n) (job_node_cnt - 1)) }
         else fits_nodes jr full offs bpn nb (full_node_inx + 1) job_bit_inx job_node_cnt) }
      else Some 1)"
  by pat_completeness auto
termination
  by (relation "measure (\<lambda>(jr, full, offs, bpn, nb, i, j, k). bs_bits nb - i)") (auto dest: bit_test_bound)

declare fits_nodes.simps [simp del]

definition job_fits_into_cores :: "u32 list \<Rightarrow> job_resources \<Rightarrow> bitstr option \<Rightarrow> u16 list \<Rightarrow> int option" where
  "job_fits_into_cores offs jr full_bitmap bits_per_node =
     (case full_bitmap of
        None \<Rightarrow> Some 1
      | Some full \<Rightarrow> do {
          nb \<leftarrow> node_bitmap jr;
          cnt \<leftarrow> bit_set_count nb;
          first \<leftarrow> bit_ffs nb;
          fits_nodes jr full offs bits_per_node nb (nat first) 0 (nat cnt) })"

definition mark_node :: "bool \<Rightarrow> job_resources \<Rightarrow> nat \<Rightarrow> nat \<Rightarrow> nat \<Rightarrow> bitstr \<Rightarrow> bitstr option" where
  "mark_node v jr full_bit_inx job_bit_inx n full =
     forM [0..<n] (\<lambda>i full. do {
       t \<leftarrow> (if whole_node jr \<noteq> 1 then do { b \<leftarrow> core_bitmap jr; bit_test b (int (job_bit_inx + i)) } else Some True);
       if t then bit_put v full (int (full_bit_inx + i)) else Some full }) full"

function mark_nodes :: "bool \<Rightarrow> job_resources \<Rightarrow> u32 list \<Rightarrow> u16 list \<Rightarrow> bitstr \<Rightarrow> nat \<Rightarrow> nat \<Rightarrow> nat \<Rightarrow> bitstr \<Rightarrow> bitstr option" where
  "mark_nodes v jr offs bpn nb full_node_inx job_bit_inx job_node_cnt full =
     (if job_node_cnt > 0
      then do {
        t \<leftarrow> bit_test nb (int full_node_inx);
        (if t
         then do {
           off \<leftarrow> readA offs full_node_inx;
           n \<leftarrow> readA bpn full_node_inx;
           full \<leftarrow> mark_node v jr (unat off) job_bit_inx (unat n) full;
           mark_nodes v jr offs bpn nb (full_node_inx + 1) (job_bit_inx + unat n) (job_node_cnt - 1) full }
         else mark_nodes v jr offs bpn nb (full_node_inx + 1) job_bit_inx job_node_cnt full) }
      else Some full)"
  by pat_completeness auto
termination
  by (relation "measure (\<lambda>(v, jr, offs, bpn, nb, i, j, k, full). bs_bits nb - i)") (auto dest: bit_test_bound)

declare mark_nodes.simps [simp del]

text \<open>
  \<^verbatim>\<open>add_job_to_cores\<close> and \<^verbatim>\<open>remove_job_from_cores\<close> differ in the operation on the bits; both create
  the bitmap of the cluster if there is none.
\<close>

definition mark_job :: "bool \<Rightarrow> nat \<Rightarrow> u32 list \<Rightarrow> job_resources \<Rightarrow> bitstr option \<Rightarrow> u16 list \<Rightarrow> bitstr option option" where
  "mark_job v node_record_count offs jr full_core_bitmap bits_per_node =
     (if core_bitmap jr = None then Some full_core_bitmap
      else do {
        full \<leftarrow> (case full_core_bitmap of
            Some b \<Rightarrow> Some b
          | None \<Rightarrow> do {
              size \<leftarrow> forM [0..<node_record_count]
                (\<lambda>i size. do { n \<leftarrow> readA bits_per_node i; Some (size + ucast n) }) (0 :: u32);
              bit_alloc (int (unat size)) });
        nb \<leftarrow> node_bitmap jr;
        cnt \<leftarrow> bit_set_count nb;
        first \<leftarrow> bit_ffs nb;
        full \<leftarrow> mark_nodes v jr offs bits_per_node nb (nat first) 0 (nat cnt) full;
        Some (Some full) })"

definition add_job_to_cores :: "nat \<Rightarrow> u32 list \<Rightarrow> job_resources \<Rightarrow> bitstr option \<Rightarrow> u16 list \<Rightarrow> bitstr option option" where
  "add_job_to_cores = mark_job True"

definition remove_job_from_cores :: "nat \<Rightarrow> u32 list \<Rightarrow> job_resources \<Rightarrow> bitstr option \<Rightarrow> u16 list \<Rightarrow> bitstr option option" where
  "remove_job_from_cores = mark_job False"

end
