(* ===== verification/Job_Resources_Cores.thy ===== *)
theory Job_Resources_Cores
  imports Job_Resources
begin

text \<open>
  The layout of the core bitmap of a job: the invariant of the structure, where the cores of a node
  are, and what the operations on the cores of a node do.
\<close>

section \<open>The invariant\<close>

text \<open>The first repetition counts, all positive, add up to \<open>n\<close>.\<close>

fun covers :: "u32 list \<Rightarrow> nat \<Rightarrow> bool" where
  "covers [] n \<longleftrightarrow> n = 0"
| "covers (r # rs) n \<longleftrightarrow> n = 0 \<or> 0 < unat r \<and> unat r \<le> n \<and> covers rs (n - unat r)"

text \<open>Sockets and cores per socket of every node of the job, and its number of cores.\<close>

definition shape :: "job_resources \<Rightarrow> (u16 \<times> u16) list" where
  "shape jr =
     (case (sockets_per_node jr, cores_per_socket jr, sock_core_rep_count jr) of
        (Some ss, Some cc, Some rr) \<Rightarrow> take (unat (nhosts jr)) (expand (zip ss cc) rr)
      | _ \<Rightarrow> [])"

definition width :: "u16 \<times> u16 \<Rightarrow> nat" where
  "width x = unat (fst x) * unat (snd x)"

definition widths :: "job_resources \<Rightarrow> nat list" where
  "widths jr = map width (shape jr)"

text \<open>Where the cores of node \<open>i\<close> start.\<close>

definition first_core :: "job_resources \<Rightarrow> nat \<Rightarrow> nat" where
  "first_core jr i = sum_list (take i (widths jr))"

definition jr_ok :: "job_resources \<Rightarrow> bool" where
  "jr_ok jr \<longleftrightarrow>
     (case (sockets_per_node jr, cores_per_socket jr, sock_core_rep_count jr, core_bitmap jr) of
        (Some ss, Some cc, Some rr, Some b) \<Rightarrow>
          length ss = length rr \<and> length cc = length rr \<and>
          covers rr (unat (nhosts jr)) \<and> (\<forall>w \<in> set (widths jr). 0 < w) \<and>
          bitstr_wf b \<and> bs_bits b = sum_list (widths jr)
      | _ \<Rightarrow> False)"

text \<open>
  The arrays of the runs are long enough to be indexed by nodes, and no run is left after those of
  the nodes of the job. This holds of what is built and copied. What arrives in a message has arrays
  only as long as there are runs.
\<close>

definition jr_tight :: "job_resources \<Rightarrow> bool" where
  "jr_tight jr \<longleftrightarrow> (case sock_core_rep_count jr of None \<Rightarrow> False | Some rr \<Rightarrow>
     unat (nhosts jr) \<le> length rr \<and> sum_list (map unat rr) = unat (nhosts jr))"

lemma jr_okE:
  assumes "jr_ok jr"
  obtains ss cc rr b where "sockets_per_node jr = Some ss" "cores_per_socket jr = Some cc" "sock_core_rep_count jr = Some rr"
    "core_bitmap jr = Some b" "length ss = length rr" "length cc = length rr"
    "covers rr (unat (nhosts jr))" "\<forall>w \<in> set (widths jr). 0 < w" "bitstr_wf b" "bs_bits b = sum_list (widths jr)"
  using assms by (auto simp: jr_ok_def split: option.splits)

lemma covers_expand: "covers rr n \<Longrightarrow> length vs = length rr \<Longrightarrow> n \<le> length (expand vs rr)"
proof (induction rr n arbitrary: vs rule: covers.induct)
  case (2 r rs n)
  then obtain v vs' where "vs = v # vs'" by (cases vs) auto
  then show ?case using "2.IH" [of vs'] "2.prems" by auto
qed simp

lemma covers_length: "covers (drop k rr) n \<Longrightarrow> 0 < n \<Longrightarrow> k < length rr"
  by (cases "k < length rr") auto

text \<open>How many runs describe the first \<open>n\<close> nodes; they encode the shapes of these nodes.\<close>

fun run_cnt :: "u32 list \<Rightarrow> nat \<Rightarrow> nat" where
  "run_cnt [] n = 0"
| "run_cnt (r # rs) n = (if n = 0 then 0 else Suc (run_cnt rs (n - unat r)))"

lemma run_cnt_zero [simp]: "run_cnt rs 0 = 0"
  by (cases rs) simp_all

lemma run_cnt_le:
  "run_cnt rr n \<le> length rr"
  "covers rr n \<Longrightarrow> run_cnt rr n \<le> n"
proof -
  show "run_cnt rr n \<le> length rr" by (induction rr n rule: run_cnt.induct) auto
  show "covers rr n \<Longrightarrow> run_cnt rr n \<le> n"
  proof (induction rr n rule: run_cnt.induct)
    case (2 r rs n)
    then show ?case by (cases "n = 0") fastforce+
  qed simp
qed

lemma run_cnt_take:
  assumes "covers rr n" and "length vs = length rr"
  shows "expand (take (run_cnt rr n) vs) (take (run_cnt rr n) rr) = take n (expand vs rr) \<and>
    covers (take (run_cnt rr n) rr) n \<and> sum_list (map unat (take (run_cnt rr n) rr)) = n \<and>
    (\<forall>r \<in> set (take (run_cnt rr n) rr). 0 < unat r)"
  using assms
proof (induction rr n arbitrary: vs rule: run_cnt.induct)
  case (2 r rs n)
  then obtain v vs' where vs: "vs = v # vs'" "length vs' = length rs" by (cases vs) auto
  show ?case
  proof (cases "n = 0")
    case False
    then have r: "0 < unat r" "unat r \<le> n" "covers rs (n - unat r)" using "2.prems"(1) by auto
    show ?thesis using "2.IH" [OF False r(3) vs(2)] r False by (auto simp: vs)
  qed simp
qed simp

lemma length_shape:
  assumes "jr_ok jr"
  shows "length (shape jr) = unat (nhosts jr)"
  using assms
proof (rule jr_okE)
  fix ss cc rr
  assume jr: "sockets_per_node jr = Some ss" "cores_per_socket jr = Some cc" "sock_core_rep_count jr = Some rr"
    "length ss = length rr" "length cc = length rr" "covers rr (unat (nhosts jr))"
  have "unat (nhosts jr) \<le> length (expand (zip ss cc) rr)" using jr(4,5) by (intro covers_expand jr(6)) simp
  then show ?thesis using jr(1-3) by (simp add: shape_def)
qed

lemma length_widths: "jr_ok jr \<Longrightarrow> length (widths jr) = unat (nhosts jr)"
  by (simp add: widths_def length_shape)

lemma first_core_Suc: "i < length (widths jr) \<Longrightarrow> first_core jr (Suc i) = first_core jr i + widths jr ! i"
  by (simp add: first_core_def take_Suc_conv_app_nth)

lemma first_core_mono: "i \<le> j \<Longrightarrow> first_core jr i \<le> first_core jr j"
proof (induction j)
  case (Suc j)
  have "first_core jr j \<le> first_core jr (Suc j)"
    by (cases "j < length (widths jr)") (auto simp: first_core_Suc, simp add: first_core_def)
  then show ?case using Suc by (cases "i = Suc j") auto
qed simp

lemma first_core_end:
  assumes "i < length (widths jr)"
  shows "first_core jr i + widths jr ! i \<le> sum_list (widths jr)"
  using first_core_mono [of "Suc i" "length (widths jr)" jr] assms first_core_Suc [OF assms] by (simp add: first_core_def)


section \<open>Finding a node\<close>

lemma expand_drop:
  "k < length vs \<Longrightarrow> k < length rr \<Longrightarrow>
    expand (drop k vs) (drop k rr) = replicate (unat (rr ! k)) (vs ! k) @ expand (drop (Suc k) vs) (drop (Suc k) rr)"
  by (simp add: Cons_nth_drop_Suc [symmetric])

lemma sum_list_replicate_nat: "sum_list (replicate n (w :: nat)) = n * w"
  by (simp add: sum_list_replicate)

lemma find_node_spec:
  assumes jr: "sockets_per_node jr = Some ss" "cores_per_socket jr = Some cc" "sock_core_rep_count jr = Some rr"
    "length ss = length rr" "length cc = length rr"
    and "covers (drop k rr) n" and "node_id < n" and "k + n \<le> m"
    and "off + sum_list (map width (take n (expand (drop k (zip ss cc)) (drop k rr)))) < 2 ^ 31"
  shows "\<exists>x j i. find_node jr [k..<m] off node_id = Some (x, j, Some i) \<and> i < length rr \<and>
    (ss ! i, cc ! i) = expand (drop k (zip ss cc)) (drop k rr) ! node_id \<and>
    x + unat (ss ! i) * unat (cc ! i) * j = off + sum_list (map width (take node_id (expand (drop k (zip ss cc)) (drop k rr))))"
  using assms(6-)
proof (induction "m - k" arbitrary: k n off node_id)
  case 0
  then show ?case by simp
next
  case (Suc d)
  have k: "k < m" "k < length rr" using Suc.prems covers_length [OF Suc.prems(1)] by auto
  let ?r = "unat (rr ! k)" and ?w = "unat (ss ! k) * unat (cc ! k)"
  let ?E = "expand (drop k (zip ss cc)) (drop k rr)" and ?E' = "expand (drop (Suc k) (zip ss cc)) (drop (Suc k) rr)"
  have E: "?E = replicate ?r (ss ! k, cc ! k) @ ?E'" using k jr(4,5) by (subst expand_drop) auto
  have up: "[k..<m] = k # [Suc k..<m]" using k(1) by (rule upt_conv_Cons)
  have cov: "0 < ?r" "?r \<le> n" "covers (drop (Suc k) rr) (n - ?r)"
    using Suc.prems(1,2) k(2) by (auto simp: Cons_nth_drop_Suc [symmetric])
  have wd: "width (ss ! k, cc ! k) = ?w" by (simp add: width_def)
  show ?case
  proof (cases "?r \<le> node_id")
    case True
    have tk: "take n ?E = replicate ?r (ss ! k, cc ! k) @ take (n - ?r) ?E'" unfolding E using cov(2) by simp
    have fit: "off + ?r * ?w + sum_list (map width (take (n - ?r) ?E')) < 2 ^ 31"
      using Suc.prems(4) unfolding tk by (simp add: wd sum_list_replicate_nat add.assoc)
    have ok: "int_ok (off + ?w * ?r) = Some ()" using fit by (simp add: int_ok_def mult.commute)
    have "find_node jr [k..<m] off node_id = find_node jr [Suc k..<m] (off + ?w * ?r) (node_id - ?r)"
      unfolding up using True k jr ok by simp
    moreover obtain x j i where f: "find_node jr [Suc k..<m] (off + ?w * ?r) (node_id - ?r) = Some (x, j, Some i)" "i < length rr"
        "(ss ! i, cc ! i) = ?E' ! (node_id - ?r)"
        "x + unat (ss ! i) * unat (cc ! i) * j = off + ?w * ?r + sum_list (map width (take (node_id - ?r) ?E'))"
    proof -
      have "d = m - Suc k" "node_id - ?r < n - ?r" "Suc k + (n - ?r) \<le> m" using Suc.hyps(2) Suc.prems(2,3) True cov by auto
      moreover have "off + ?w * ?r + sum_list (map width (take (n - ?r) ?E')) < 2 ^ 31" using fit by (simp add: mult.commute)
      ultimately show thesis using Suc.hyps(1) [of "Suc k" "n - ?r" "node_id - ?r" "off + ?w * ?r"] cov(3) that by blast
    qed
    moreover have "?E ! node_id = ?E' ! (node_id - ?r)" unfolding E using True by (simp add: nth_append)
    moreover have "sum_list (map width (take node_id ?E)) = ?w * ?r + sum_list (map width (take (node_id - ?r) ?E'))"
      unfolding E using True by (simp add: wd sum_list_replicate_nat)
    ultimately show ?thesis by auto
  next
    case False
    have "find_node jr [k..<m] off node_id = Some (off, node_id, Some k)" unfolding up using False k jr by simp
    moreover have "?E ! node_id = (ss ! k, cc ! k)" unfolding E using False by (simp add: nth_append)
    moreover have "sum_list (map width (take node_id ?E)) = node_id * ?w"
      unfolding E using False by (simp add: wd sum_list_replicate_nat)
    ultimately show ?thesis using k(2) by auto
  qed
qed

lemma node_found:
  assumes ok: "jr_ok jr" and i: "node_id < unat (nhosts jr)"
  obtains x j k ss cc where "find_node jr [0..<unat (nhosts jr)] 0 node_id = Some (x, j, Some k)"
    "sockets_per_node jr = Some ss" "cores_per_socket jr = Some cc" "k < length ss" "k < length cc"
    "(ss ! k, cc ! k) = shape jr ! node_id"
    "x + unat (ss ! k) * unat (cc ! k) * j = first_core jr node_id"
  using ok
proof (rule jr_okE)
  let ?n = "unat (nhosts jr)"
  fix ss cc rr b
  assume jr: "sockets_per_node jr = Some ss" "cores_per_socket jr = Some cc" "sock_core_rep_count jr = Some rr"
      "core_bitmap jr = Some b" "length ss = length rr" "length cc = length rr" "covers rr ?n"
    and b: "bitstr_wf b" "bs_bits b = sum_list (widths jr)"
  let ?E = "expand (zip ss cc) rr"
  have sh: "shape jr = take ?n ?E" using jr(1-3) by (simp add: shape_def)
  have "sum_list (map width (take ?n ?E)) < 2 ^ 31"
    using b unfolding widths_def sh by (simp add: bitstr_wf_def)
  then obtain x j k where "find_node jr [0..<?n] 0 node_id = Some (x, j, Some k)" "k < length rr" "(ss ! k, cc ! k) = ?E ! node_id"
      "x + unat (ss ! k) * unat (cc ! k) * j = sum_list (map width (take node_id ?E))"
    using find_node_spec [OF jr(1-3,5,6), where k = 0 and n = ?n and m = ?n and node_id = node_id and off = 0] jr(7) i by auto
  moreover have "?E ! node_id = shape jr ! node_id" "take node_id ?E = take node_id (shape jr)" unfolding sh using i by simp_all
  ultimately show thesis
    using that jr by (simp add: first_core_def widths_def take_map)
qed

lemma node_range_Some:
  assumes "jr_ok jr" and "node_id < unat (nhosts jr)"
  shows "node_range jr node_id = Some (first_core jr node_id, widths jr ! node_id)"
  using assms
proof (rule node_found)
  fix x j k ss cc
  assume f: "find_node jr [0..<unat (nhosts jr)] 0 node_id = Some (x, j, Some k)"
    "sockets_per_node jr = Some ss" "cores_per_socket jr = Some cc" "k < length ss" "k < length cc"
    "(ss ! k, cc ! k) = shape jr ! node_id" "x + unat (ss ! k) * unat (cc ! k) * j = first_core jr node_id"
  have l: "node_id < length (widths jr)" using assms by (simp add: length_widths)
  have w: "widths jr ! node_id = unat (ss ! k) * unat (cc ! k)"
    using l by (simp add: widths_def width_def flip: f(6))
  have "first_core jr node_id + widths jr ! node_id < 2 ^ 31"
    using first_core_end [OF l] assms(1) by (auto elim!: jr_okE simp: bitstr_wf_def)
  then have "int_ok (x + unat (ss ! k) * unat (cc ! k) * j + unat (ss ! k) * unat (cc ! k)) = Some ()"
    using f(7) w by (simp add: int_ok_def)
  then show ?thesis using f w by (simp add: node_range_def)
qed

lemma node_cores_Some:
  assumes "jr_ok jr" and "node_id < unat (nhosts jr)"
  shows "node_cores jr node_id = Some (Some (first_core jr node_id, widths jr ! node_id))"
  using assms(1)
proof (rule jr_okE)
  fix b
  assume b: "core_bitmap jr = Some b" "bitstr_wf b" "bs_bits b = sum_list (widths jr)" and pos: "\<forall>w \<in> set (widths jr). 0 < w"
  have l: "node_id < length (widths jr)" using assms by (simp add: length_widths)
  then have "0 < widths jr ! node_id" using pos by simp
  then show ?thesis
    using node_range_Some [OF assms] b first_core_end [OF l] by (simp add: node_cores_def abort_simps)
qed


section \<open>The position of a core\<close>

definition core_pos :: "job_resources \<Rightarrow> nat \<times> nat \<times> nat \<Rightarrow> nat" where
  "core_pos jr = (\<lambda>(i, s, c). first_core jr i + unat (snd (shape jr ! i)) * s + c)"

definition core_ids :: "job_resources \<Rightarrow> (nat \<times> nat \<times> nat) set" where
  "core_ids jr = (SIGMA i : {..<unat (nhosts jr)}. {..<unat (fst (shape jr ! i))} \<times> {..<unat (snd (shape jr ! i))})"

lemma core_in_node:
  assumes "jr_ok jr" and "(i, s, c) \<in> core_ids jr"
  shows "first_core jr i \<le> core_pos jr (i, s, c)" and "core_pos jr (i, s, c) < first_core jr i + widths jr ! i"
    and "i < length (widths jr)"
proof -
  have a: "i < unat (nhosts jr)" "s < unat (fst (shape jr ! i))" "c < unat (snd (shape jr ! i))"
    using assms(2) by (auto simp: core_ids_def)
  show l: "i < length (widths jr)" using a(1) assms(1) by (simp add: length_widths)
  show "first_core jr i \<le> core_pos jr (i, s, c)" by (simp add: core_pos_def)
  let ?c = "unat (snd (shape jr ! i))"
  have "?c * s + c < ?c * Suc s" using a(3) by simp
  also have "\<dots> \<le> ?c * unat (fst (shape jr ! i))" using a(2) by (intro mult_le_mono2) simp
  finally show "core_pos jr (i, s, c) < first_core jr i + widths jr ! i"
    using l by (simp add: core_pos_def widths_def width_def mult.commute)
qed

lemma core_pos_inj:
  assumes "jr_ok jr"
  shows "inj_on (core_pos jr) (core_ids jr)"
proof (rule inj_onI)
  fix x y
  assume xy: "x \<in> core_ids jr" "y \<in> core_ids jr" "core_pos jr x = core_pos jr y"
  obtain i s c i' s' c' where e: "x = (i, s, c)" "y = (i', s', c')" by (cases x, cases y) auto
  have lt: "core_pos jr (i, s, c) < core_pos jr (i', s', c')"
    if "(i, s, c) \<in> core_ids jr" "(i', s', c') \<in> core_ids jr" "i < i'" for i s c i' s' c'
    using core_in_node(2,3) [OF assms that(1)] core_in_node(1) [OF assms that(2)] first_core_mono [of "Suc i" i' jr] that(3)
    by (simp add: first_core_Suc)
  have i: "i = i'" using lt xy e by (metis less_irrefl nat_neq_iff)
  have c: "c < unat (snd (shape jr ! i))" "c' < unat (snd (shape jr ! i))" using xy e i by (auto simp: core_ids_def)
  have "unat (snd (shape jr ! i)) * s + c = unat (snd (shape jr ! i)) * s' + c'" using xy(3) e i by (simp add: core_pos_def)
  then have "(unat (snd (shape jr ! i)) * s + c) div unat (snd (shape jr ! i)) = (unat (snd (shape jr ! i)) * s' + c') div unat (snd (shape jr ! i))"
    "(unat (snd (shape jr ! i)) * s + c) mod unat (snd (shape jr ! i)) = (unat (snd (shape jr ! i)) * s' + c') mod unat (snd (shape jr ! i))"
    by simp_all
  then show "x = y" using c i e by simp
qed

lemma core_pos_bij:
  assumes "jr_ok jr"
  shows "bij_betw (core_pos jr) (core_ids jr) {..<sum_list (widths jr)}"
proof -
  have sub: "core_pos jr ` core_ids jr \<subseteq> {..<sum_list (widths jr)}"
    using core_in_node(2,3) [OF assms] first_core_end by (force simp: image_subset_iff)
  have "card (core_ids jr) = (\<Sum>i<unat (nhosts jr). unat (fst (shape jr ! i)) * unat (snd (shape jr ! i)))"
    by (simp add: core_ids_def)
  also have "\<dots> = sum_list (widths jr)"
    using length_widths [OF assms] by (simp add: sum_list_sum_nth widths_def width_def atLeast0LessThan)
  finally have "card (core_pos jr ` core_ids jr) = card {..<sum_list (widths jr)}"
    using card_image [OF core_pos_inj [OF assms]] by simp
  then have "core_pos jr ` core_ids jr = {..<sum_list (widths jr)}" using sub by (intro card_subset_eq) auto
  then show ?thesis using core_pos_inj [OF assms] by (simp add: bij_betw_def)
qed

lemma offset_Some:
  assumes "jr_ok jr" and "unat node_id < unat (nhosts jr)"
  shows "get_job_resources_offset jr node_id socket_id core_id =
    Some (if (unat node_id, unat socket_id, unat core_id) \<in> core_ids jr
          then int (core_pos jr (unat node_id, unat socket_id, unat core_id)) else -1)"
  using assms
proof (rule node_found)
  let ?i = "unat node_id"
  fix x j k ss cc
  assume f: "find_node jr [0..<unat (nhosts jr)] 0 ?i = Some (x, j, Some k)"
    "sockets_per_node jr = Some ss" "cores_per_socket jr = Some cc" "k < length ss" "k < length cc"
    "(ss ! k, cc ! k) = shape jr ! ?i" "x + unat (ss ! k) * unat (cc ! k) * j = first_core jr ?i"
  obtain b where b: "core_bitmap jr = Some b" "bitstr_wf b" "bs_bits b = sum_list (widths jr)"
    using assms(1) by (rule jr_okE)
  have mem: "(?i, unat socket_id, unat core_id) \<in> core_ids jr \<longleftrightarrow> socket_id < ss ! k \<and> core_id < cc ! k"
    using assms(2) by (simp add: core_ids_def word_less_nat_alt flip: f(6))
  show ?thesis
  proof (cases "socket_id < ss ! k \<and> core_id < cc ! k")
    case True
    then have c: "(?i, unat socket_id, unat core_id) \<in> core_ids jr" using mem by simp
    let ?p = "core_pos jr (?i, unat socket_id, unat core_id)"
    have p: "x + unat (ss ! k) * unat (cc ! k) * j + unat (cc ! k) * unat socket_id + unat core_id = ?p"
      using f(7) by (simp add: core_pos_def flip: f(6))
    have "?p < bs_bits b" using core_in_node(2,3) [OF assms(1) c] first_core_end b(3) by fastforce
    moreover from this have "int_ok ?p = Some ()" using b(2) by (simp add: int_ok_def bitstr_wf_def)
    ultimately show ?thesis
      using f(1-5) b(1,2) True c p by (simp add: get_job_resources_offset_def abort_simps Let_def not_le [symmetric])
  next
    case False
    then show ?thesis using f(1-5) mem by (auto simp: get_job_resources_offset_def not_less)
  qed
qed

lemma jr_ok_core_bitmap:
  assumes "jr_ok jr" and "core_bitmap jr = Some b" and "bitstr_wf b'" and "bs_bits b' = bs_bits b"
  shows "jr_ok (jr\<lparr>core_bitmap := Some b'\<rparr>)"
proof -
  have "shape (jr\<lparr>core_bitmap := Some b'\<rparr>) = shape jr" by (simp add: shape_def split: option.split)
  then show ?thesis using assms by (auto simp: jr_ok_def widths_def split: option.splits)
qed

lemma node_not_found:
  assumes jr: "sockets_per_node jr = Some ss" "cores_per_socket jr = Some cc" "sock_core_rep_count jr = Some rr"
    "length ss = length rr" "length cc = length rr" "m \<le> length rr"
    and "covers (drop k rr) n" and "sum_list (map unat (drop k rr)) = n" and "n \<le> node_id" and "k + n \<le> m"
    and "off + sum_list (map width (take n (expand (drop k (zip ss cc)) (drop k rr)))) < 2 ^ 31"
  shows "find_node jr [k..<m] off node_id =
    Some (off + sum_list (map width (take n (expand (drop k (zip ss cc)) (drop k rr)))), node_id - n, None)"
  using assms(7-)
proof (induction "m - k" arbitrary: k n off node_id)
  case 0
  then have "n = 0" "m \<le> k" by auto
  then show ?case by simp
next
  case (Suc d)
  have k: "k < m" "k < length rr" using Suc.hyps(2) jr(6) by auto
  let ?r = "unat (rr ! k)" and ?w = "unat (ss ! k) * unat (cc ! k)"
  let ?E' = "expand (drop (Suc k) (zip ss cc)) (drop (Suc k) rr)"
  have E: "expand (drop k (zip ss cc)) (drop k rr) = replicate ?r (ss ! k, cc ! k) @ ?E'"
    using k jr(4,5) by (subst expand_drop) auto
  have dr: "drop k rr = rr ! k # drop (Suc k) rr" using k(2) by (simp add: Cons_nth_drop_Suc)
  have r: "?r \<le> n" "sum_list (map unat (drop (Suc k) rr)) = n - ?r" using Suc.prems(2) unfolding dr by auto
  have c0: "covers l 0" for l by (cases l) auto
  have cov: "covers (drop (Suc k) rr) (n - ?r) \<and> Suc k + (n - ?r) \<le> m"
  proof (cases "n = 0")
    case True
    then show ?thesis using k(1) c0 by simp
  next
    case False
    then have "0 < ?r \<and> covers (drop (Suc k) rr) (n - ?r)" using Suc.prems(1) unfolding dr by (cases n) auto
    then show ?thesis using r(1) Suc.prems(4) by linarith
  qed
  have tk: "take n (replicate ?r (ss ! k, cc ! k) @ ?E') = replicate ?r (ss ! k, cc ! k) @ take (n - ?r) ?E'" using r(1) by simp
  have wd: "sum_list (map width (replicate ?r (ss ! k, cc ! k))) = ?w * ?r"
    by (simp add: width_def sum_list_replicate_nat)
  have fit: "off + ?w * ?r + sum_list (map width (take (n - ?r) ?E')) < 2 ^ 31"
    using Suc.prems(5) unfolding E tk map_append sum_list_append wd by (simp only: add.assoc)
  then have "int_ok (off + ?w * ?r) = Some ()" by (simp add: int_ok_def)
  then have step: "find_node jr [k..<m] off node_id = find_node jr [Suc k..<m] (off + ?w * ?r) (node_id - ?r)"
    unfolding upt_conv_Cons [OF k(1)] using r(1) Suc.prems(3) k jr(1-5) by simp
  have d: "d = m - Suc k" "n - ?r \<le> node_id - ?r" "node_id - ?r - (n - ?r) = node_id - n"
    using Suc.hyps(2) Suc.prems(3) r(1) by auto
  have sm: "off + sum_list (map width (take n (expand (drop k (zip ss cc)) (drop k rr)))) =
      off + ?w * ?r + sum_list (map width (take (n - ?r) ?E'))"
    unfolding E tk map_append sum_list_append wd by (rule add.assoc [symmetric])
  show ?case
    unfolding step sm d(3) [symmetric]
    by (rule Suc.hyps(1) [OF d(1) conjunct1 [OF cov] r(2) d(2) conjunct2 [OF cov] fit])
qed

lemma offset_bad_node:
  assumes "jr_ok jr" and "jr_tight jr" and "unat (nhosts jr) \<le> unat node_id"
  shows "get_job_resources_offset jr node_id socket_id core_id = Some (-1)"
  using assms(1)
proof (rule jr_okE)
  let ?n = "unat (nhosts jr)"
  fix ss cc rr b
  assume jr: "sockets_per_node jr = Some ss" "cores_per_socket jr = Some cc" "sock_core_rep_count jr = Some rr"
      "core_bitmap jr = Some b" "length ss = length rr" "length cc = length rr" "covers rr ?n"
    and b: "bitstr_wf b" "bs_bits b = sum_list (widths jr)"
  let ?E = "expand (zip ss cc) rr"
  have sz: "sum_list (map width (take ?n ?E)) = bs_bits b" using b(2) jr(1-3) by (simp add: widths_def shape_def)
  have "find_node jr [0..<?n] 0 (unat node_id) = Some (bs_bits b, unat node_id - ?n, None)"
    using node_not_found [OF jr(1-3,5,6), of ?n 0 ?n "unat node_id" 0] jr(3,7) assms(2,3) sz b(1)
    by (simp add: jr_tight_def bitstr_wf_def)
  then show ?thesis using jr(4) b(1) by (simp add: get_job_resources_offset_def abort_simps)
qed


definition sample_job :: job_resources where
  "sample_job = create_job_resources\<lparr>nhosts := 3, sockets_per_node := Some [2, 1, 0], cores_per_socket := Some [2, 3, 0],
     sock_core_rep_count := Some [2, 1, 0],
     core_bitmap := Some \<lparr>bs_magic = BITSTR_MAGIC, bs_bits = 11, bs_words = [0x31]\<rparr>,
     core_bitmap_used := Some \<lparr>bs_magic = BITSTR_MAGIC, bs_bits = 11, bs_words = [0x1]\<rparr>,
     node_bitmap := Some \<lparr>bs_magic = BITSTR_MAGIC, bs_bits = 5, bs_words = [0x16]\<rparr>,
     cpus := Some [2, 2, 3], cpus_used := Some [1, 0, 0], memory_allocated := Some [7, 8, 9], memory_used := Some [0, 0, 1]\<rparr>"

lemma sample_job_ok: "jr_ok sample_job"
  by (simp add: sample_job_def create_job_resources_def jr_ok_def shape_def widths_def width_def bitstr_wf_def BITSTR_MAGIC_def bitstr_words_def sum_list_replicate)

lemma sample_job_shape: "shape sample_job = [(2, 2), (2, 2), (1, 3)]"
  by code_simp


end
