(* ===== verification/Job_Resources_Nodes.thy ===== *)
theory Job_Resources_Nodes
  imports Job_Resources_Cores
begin

text \<open>
  The operations of src/common/job_resources.c on all cores of a node: each acts on the range of the
  core bitmap that belongs to the node and on nothing else.
\<close>

definition job_cores :: "job_resources \<Rightarrow> nat set" where
  "job_cores jr = (case core_bitmap jr of None \<Rightarrow> {} | Some b \<Rightarrow> bits_of b)"

definition node_cores_of :: "job_resources \<Rightarrow> nat \<Rightarrow> nat set" where
  "node_cores_of jr i = {first_core jr i..<first_core jr i + widths jr ! i}"

lemma node_cores_of_image: "(\<lambda>c. first_core jr i + c) ` {0..<widths jr ! i} = node_cores_of jr i"
  by (simp add: node_cores_of_def add.commute)

lemma node_cores_of_part:
  "(\<lambda>c. first_core jr i + c) ` {c \<in> {0..<widths jr ! i}. first_core jr i + c \<in> A} = A \<inter> node_cores_of jr i"
  unfolding node_cores_of_image [symmetric] by blast

lemma node_cores_disjoint:
  assumes "jr_ok jr" and "i < unat (nhosts jr)" and "j < unat (nhosts jr)" and "i \<noteq> j"
  shows "node_cores_of jr i \<inter> node_cores_of jr j = {}"
proof -
  have "first_core jr a + widths jr ! a \<le> first_core jr b" if "a < b" "a < unat (nhosts jr)" for a b
    using first_core_mono [of "Suc a" b jr] that length_widths [OF assms(1)] by (simp add: first_core_Suc)
  from this [of i j] this [of j i] show ?thesis
    using assms(2-4) by (cases i j rule: linorder_cases) (auto simp: node_cores_of_def)
qed

lemma node_cores_bound:
  assumes "jr_ok jr" and "core_bitmap jr = Some b" and "i < unat (nhosts jr)" and "c < widths jr ! i"
  shows "first_core jr i + c < bs_bits b"
proof -
  have "i < length (widths jr)" using assms(1,3) by (simp add: length_widths)
  from first_core_end [OF this] assms(1,2,4) show ?thesis by (auto elim!: jr_okE)
qed

lemma change_node:
  assumes "jr_ok jr" and "unat node_id < unat (nhosts jr)"
  shows "\<exists>b'. change_job_resources_node v jr node_id = Some (SLURM_SUCCESS, jr\<lparr>core_bitmap := Some b'\<rparr>) \<and>
    jr_ok (jr\<lparr>core_bitmap := Some b'\<rparr>) \<and>
    bits_of b' = (if v then job_cores jr \<union> node_cores_of jr (unat node_id) else job_cores jr - node_cores_of jr (unat node_id))"
proof -
  let ?i = "unat node_id"
  obtain b where b: "core_bitmap jr = Some b" "bitstr_wf b" using assms(1) by (rule jr_okE)
  obtain b' where b': "forM [0..<widths jr ! ?i] (\<lambda>i b. bit_put v b (int (first_core jr ?i + i))) b = Some b'"
      "bitstr_wf b'" "bs_bits b' = bs_bits b"
      "bits_of b' = (if v then bits_of b \<union> (\<lambda>c. first_core jr ?i + c) ` set [0..<widths jr ! ?i]
                     else bits_of b - (\<lambda>c. first_core jr ?i + c) ` set [0..<widths jr ! ?i])"
    using bm.fill_loop [OF b(2), of "[0..<widths jr ! ?i]" "\<lambda>c. first_core jr ?i + c" v]
      node_cores_bound [OF assms(1) b(1) assms(2)] by auto
  have "jr_ok (jr\<lparr>core_bitmap := Some b'\<rparr>)" by (rule jr_ok_core_bitmap [OF assms(1) b(1) b'(2,3)])
  moreover have "bits_of b' = (if v then job_cores jr \<union> node_cores_of jr ?i else job_cores jr - node_cores_of jr ?i)"
    using b'(4) b(1) node_cores_of_image [of jr ?i] by (simp only: set_upt) (simp add: job_cores_def)
  moreover have "change_job_resources_node v jr node_id = Some (SLURM_SUCCESS, jr\<lparr>core_bitmap := Some b'\<rparr>)"
    using node_cores_Some [OF assms] b(1) b'(1) by (simp add: change_job_resources_node_def)
  ultimately show ?thesis by blast
qed

lemma get_node:
  assumes "jr_ok jr" and "unat node_id < unat (nhosts jr)"
  shows "get_job_resources_node jr node_id = Some (if job_cores jr \<inter> node_cores_of jr (unat node_id) = {} then 0 else 1)"
proof -
  let ?i = "unat node_id"
  obtain b where b: "core_bitmap jr = Some b" "bitstr_wf b" using assms(1) by (rule jr_okE)
  have "existsM [0..<widths jr ! ?i] (\<lambda>c. bit_test b (int (first_core jr ?i + c))) =
      Some (\<exists>c \<in> {0..<widths jr ! ?i}. first_core jr ?i + c \<in> bits_of b)"
    using bm.exists_loop [OF b(2), of "[0..<widths jr ! ?i]" "\<lambda>c. first_core jr ?i + c"]
      node_cores_bound [OF assms(1) b(1) assms(2)] by simp
  moreover have "(\<exists>c \<in> {0..<widths jr ! ?i}. first_core jr ?i + c \<in> bits_of b) \<longleftrightarrow> job_cores jr \<inter> node_cores_of jr ?i \<noteq> {}"
    using b(1) node_cores_of_part [of jr ?i "bits_of b"] by (auto simp: job_cores_def simp del: image_add_atLeastLessThan)
  ultimately show ?thesis
    using node_cores_Some [OF assms] b(1) by (simp add: get_job_resources_node_def)
qed

lemma count_node:
  assumes "jr_ok jr" and "unat node_id < unat (nhosts jr)"
  shows "count_job_resources_node jr node_id = Some (card (job_cores jr \<inter> node_cores_of jr (unat node_id)))"
proof -
  let ?i = "unat node_id" and ?f = "\<lambda>c. first_core jr (unat node_id) + c"
  obtain b where b: "core_bitmap jr = Some b" "bitstr_wf b" using assms(1) by (rule jr_okE)
  let ?S = "{c \<in> {0..<widths jr ! ?i}. ?f c \<in> bits_of b}"
  have "forM [0..<widths jr ! ?i] (\<lambda>c n. do { t \<leftarrow> bit_test b (int (?f c)); Some (if t then Suc n else n) }) 0 =
      Some (length (filter (\<lambda>c. ?f c \<in> bits_of b) [0..<widths jr ! ?i]))"
    using bm.count_loop [OF b(2), of "[0..<widths jr ! ?i]" ?f 0] node_cores_bound [OF assms(1) b(1) assms(2)] by simp
  also have "length (filter (\<lambda>c. ?f c \<in> bits_of b) [0..<widths jr ! ?i]) = card ?S"
    by (subst distinct_length_filter) (auto intro: arg_cong [where f = card])
  also have "card ?S = card (?f ` ?S)" by (rule card_image [symmetric]) simp
  also have "?f ` ?S = job_cores jr \<inter> node_cores_of jr ?i"
    using b(1) node_cores_of_part [of jr ?i "bits_of b"] by (simp only: job_cores_def option.case)
  finally show ?thesis
    using node_cores_Some [OF assms] b(1) by (simp add: count_job_resources_node_def)
qed

lemma copy_node:
  assumes "jr_ok jr" and "unat node_id < unat (nhosts jr)"
  shows "\<exists>c. copy_job_resources_node jr node_id = Some (Some c) \<and> bitstr_wf c \<and> bs_bits c = widths jr ! unat node_id \<and>
    (\<lambda>j. first_core jr (unat node_id) + j) ` bits_of c = job_cores jr \<inter> node_cores_of jr (unat node_id)"
proof -
  let ?i = "unat node_id" and ?f = "\<lambda>c. first_core jr (unat node_id) + c"
  let ?w = "widths jr ! ?i"
  obtain b where b: "core_bitmap jr = Some b" "bitstr_wf b" "bs_bits b = sum_list (widths jr)" using assms(1) by (rule jr_okE)
  have "?i < length (widths jr)" using assms by (simp add: length_widths)
  then have "?w \<le> 0x40000000" using first_core_end [of ?i jr] b(2,3) by (simp add: bitstr_wf_def)
  then obtain e where e: "bit_alloc (int ?w) = Some e" "bitstr_wf e" "bs_bits e = ?w" "bits_of e = {}"
    by (rule bit_alloc_Some) blast
  obtain c where c: "forM [0..<?w] (\<lambda>j b'. do { t \<leftarrow> bit_test b (int (?f j)); if t then bit_set b' (int j) else Some b' }) e = Some c"
      "bitstr_wf c" "bs_bits c = ?w" "bits_of c = {j \<in> {0..<?w}. ?f j \<in> bits_of b}"
    using bit_copy_loop [OF b(2) e(2), of "[0..<?w]" ?f "\<lambda>j. j"] node_cores_bound [OF assms(1) b(1) assms(2)] e(3,4) by auto
  have "?f ` bits_of c = job_cores jr \<inter> node_cores_of jr ?i"
    using b(1) node_cores_of_part [of jr ?i "bits_of b"] unfolding c(4) by (simp only: job_cores_def option.case)
  moreover have "copy_job_resources_node jr node_id = Some (Some c)"
    using node_cores_Some [OF assms] b(1) e(1) c(1) by (simp add: copy_job_resources_node_def)
  ultimately show ?thesis using c(2,3) by blast
qed

text \<open>
  C27: Every operation on a node acts on the cores of this node and on no others: querying and
  counting see exactly the allocated cores of the node, setting and clearing change exactly its
  cores and keep the structure valid, and the copy of a node's bitmap holds exactly its cores. The
  ranges of different nodes do not overlap.
\<close>

theorem node_operations:
  assumes "jr_ok jr" and "unat node_id < unat (nhosts jr)"
  shows "get_job_resources_node jr node_id = Some (if job_cores jr \<inter> node_cores_of jr (unat node_id) = {} then 0 else 1) \<and>
    count_job_resources_node jr node_id = Some (card (job_cores jr \<inter> node_cores_of jr (unat node_id))) \<and>
    (\<exists>b. set_job_resources_node jr node_id = Some (SLURM_SUCCESS, jr\<lparr>core_bitmap := Some b\<rparr>) \<and>
       jr_ok (jr\<lparr>core_bitmap := Some b\<rparr>) \<and> bits_of b = job_cores jr \<union> node_cores_of jr (unat node_id)) \<and>
    (\<exists>b. clear_job_resources_node jr node_id = Some (SLURM_SUCCESS, jr\<lparr>core_bitmap := Some b\<rparr>) \<and>
       jr_ok (jr\<lparr>core_bitmap := Some b\<rparr>) \<and> bits_of b = job_cores jr - node_cores_of jr (unat node_id)) \<and>
    (\<exists>c. copy_job_resources_node jr node_id = Some (Some c) \<and> bs_bits c = widths jr ! unat node_id \<and>
       (\<lambda>j. first_core jr (unat node_id) + j) ` bits_of c = job_cores jr \<inter> node_cores_of jr (unat node_id)) \<and>
    (\<forall>j. j < unat (nhosts jr) \<and> j \<noteq> unat node_id \<longrightarrow> node_cores_of jr (unat node_id) \<inter> node_cores_of jr j = {})"
  using get_node [OF assms] count_node [OF assms] change_node [OF assms, of True] change_node [OF assms, of False]
    copy_node [OF assms] node_cores_disjoint [OF assms]
  unfolding set_job_resources_node_def clear_job_resources_node_def by simp blast

theorem node_operations_witness:
  "count_job_resources_node sample_job 1 = Some 2 \<and> node_cores_of sample_job 1 = {4..<8} \<and>
   (\<exists>b. clear_job_resources_node sample_job 1 = Some (SLURM_SUCCESS, sample_job\<lparr>core_bitmap := Some b\<rparr>) \<and>
      bits_of b = job_cores sample_job - {4..<8})"
proof -
  have n: "unat (1 :: u32) < unat (nhosts sample_job)" by (simp add: sample_job_def create_job_resources_def)
  have s: "node_cores_of sample_job 1 = {4..<8}"
    by (simp add: node_cores_of_def first_core_def widths_def sample_job_shape width_def)
  have "{4..<8 :: nat} = {4, 5, 6, 7}" by auto
  then have "job_cores sample_job \<inter> {4..<8} = {4, 5}"
    by (auto simp: job_cores_def sample_job_def create_job_resources_def bits_of_def wbit_def)
  then show ?thesis using node_operations [OF sample_job_ok n] s by auto
qed


section \<open>Copying the cores of a node between jobs\<close>

text \<open>Both bitmaps of the structure at once.\<close>

lemma move_loop:
  assumes "core_bitmap from_jr = Some fc" "core_bitmap_used from_jr = Some fu" "bitstr_wf fc" "bitstr_wf fu" "bs_bits fu = bs_bits fc"
    and "bitstr_wf c" "bitstr_wf u" "bs_bits u = bs_bits c"
    and "\<forall>j \<in> set js. f + j < bs_bits fc" "\<forall>j \<in> set js. g + j < bs_bits c"
  shows "\<exists>c' u'. forM js
      (\<lambda>i (core, used). do {
         fc \<leftarrow> core_bitmap from_jr;
         t \<leftarrow> bit_test fc (int (f + i));
         core \<leftarrow> (if t then do { c \<leftarrow> core; c \<leftarrow> bit_set c (int (g + i)); Some (Some c) } else Some core);
         fu \<leftarrow> core_bitmap_used from_jr;
         t \<leftarrow> bit_test fu (int (f + i));
         used \<leftarrow> (if t then do { u \<leftarrow> used; u \<leftarrow> bit_set u (int (g + i)); Some (Some u) } else Some used);
         Some (core, used) }) (Some c, Some u) = Some (Some c', Some u') \<and>
    bitstr_wf c' \<and> bs_bits c' = bs_bits c \<and> bits_of c' = bits_of c \<union> (\<lambda>j. g + j) ` {j \<in> set js. f + j \<in> bits_of fc} \<and>
    bitstr_wf u' \<and> bs_bits u' = bs_bits u \<and> bits_of u' = bits_of u \<union> (\<lambda>j. g + j) ` {j \<in> set js. f + j \<in> bits_of fu}"
  using assms(6-)
proof (induction js arbitrary: c u)
  case Nil
  then show ?case by simp
next
  case (Cons j js)
  have one: "\<exists>b'. (if s then do { b \<leftarrow> Some b; b \<leftarrow> bit_set b (int (g + j)); Some (Some b) } else Some (Some b)) = Some (Some b') \<and>
      bitstr_wf b' \<and> bs_bits b' = bs_bits b \<and> bits_of b' = (if s then insert (g + j) (bits_of b) else bits_of b)"
    if "bitstr_wf b" "bs_bits b = bs_bits c" for b s
    using that Cons.prems(5) bm.put_ok [of b "g + j" True, unfolded bit_put_eq] by (auto simp del: of_nat_add)
  have j: "f + j < bs_bits fc" "f + j < bs_bits fu" using Cons.prems(4) assms(5) by auto
  obtain c1 where c1: "(if f + j \<in> bits_of fc then do { b \<leftarrow> Some c; b \<leftarrow> bit_set b (int (g + j)); Some (Some b) } else Some (Some c)) = Some (Some c1)"
      "bitstr_wf c1" "bs_bits c1 = bs_bits c" "bits_of c1 = (if f + j \<in> bits_of fc then insert (g + j) (bits_of c) else bits_of c)"
    using one [OF Cons.prems(1) refl] by blast
  obtain u1 where u1: "(if f + j \<in> bits_of fu then do { b \<leftarrow> Some u; b \<leftarrow> bit_set b (int (g + j)); Some (Some b) } else Some (Some u)) = Some (Some u1)"
      "bitstr_wf u1" "bs_bits u1 = bs_bits u" "bits_of u1 = (if f + j \<in> bits_of fu then insert (g + j) (bits_of u) else bits_of u)"
    using one [OF Cons.prems(2,3)] by blast
  have sets: "(\<lambda>j. g + j) ` {i \<in> set (j # js). f + i \<in> A} =
      (if f + j \<in> A then {g + j} else {}) \<union> (\<lambda>j. g + j) ` {i \<in> set js. f + i \<in> A}" for A by auto
  obtain c' u' where IH: "forM js
      (\<lambda>i (core, used). do {
         fc \<leftarrow> core_bitmap from_jr;
         t \<leftarrow> bit_test fc (int (f + i));
         core \<leftarrow> (if t then do { c \<leftarrow> core; c \<leftarrow> bit_set c (int (g + i)); Some (Some c) } else Some core);
         fu \<leftarrow> core_bitmap_used from_jr;
         t \<leftarrow> bit_test fu (int (f + i));
         used \<leftarrow> (if t then do { u \<leftarrow> used; u \<leftarrow> bit_set u (int (g + i)); Some (Some u) } else Some used);
         Some (core, used) }) (Some c1, Some u1) = Some (Some c', Some u')"
    "bitstr_wf c'" "bs_bits c' = bs_bits c1" "bits_of c' = bits_of c1 \<union> (\<lambda>j. g + j) ` {j \<in> set js. f + j \<in> bits_of fc}"
    "bitstr_wf u'" "bs_bits u' = bs_bits u1" "bits_of u' = bits_of u1 \<union> (\<lambda>j. g + j) ` {j \<in> set js. f + j \<in> bits_of fu}"
    using Cons.IH [of c1 u1] c1(2,3) u1(2,3) Cons.prems(3-5) by (auto simp del: of_nat_add)
  show ?case
    unfolding sets
    using IH c1 u1 assms(1-4) j by (auto simp: bm.test_ok simp del: of_nat_add)
qed

text \<open>
  Copying the cores of a node from one job to another adds, in both core bitmaps, exactly the
  cores of the source's node at the same place within the destination's node, keeps the destination
  valid and reports an error if the nodes have different numbers of cores, in which case the common
  part is copied. A node number out of range is an error without effect.
\<close>

theorem bits_copy_moves_node:
  assumes "jr_ok new" and "jr_ok from_jr"
    and "core_bitmap_used new = Some u" and "bitstr_wf u" and "bs_bits u = bs_bits (the (core_bitmap new))"
    and "core_bitmap_used from_jr = Some fu" and "bitstr_wf fu" and "bs_bits fu = bs_bits (the (core_bitmap from_jr))"
  shows "if unat ni < unat (nhosts new) \<and> unat fi < unat (nhosts from_jr)
    then \<exists>c' u'. job_resources_bits_copy new ni from_jr fi =
        Some (if widths new ! unat ni = widths from_jr ! unat fi then SLURM_SUCCESS else SLURM_ERROR,
              new\<lparr>core_bitmap := Some c', core_bitmap_used := Some u'\<rparr>) \<and>
      jr_ok (new\<lparr>core_bitmap := Some c', core_bitmap_used := Some u'\<rparr>) \<and>
      bits_of c' = job_cores new \<union> (\<lambda>j. first_core new (unat ni) + j) `
        {j. j < min (widths new ! unat ni) (widths from_jr ! unat fi) \<and> first_core from_jr (unat fi) + j \<in> job_cores from_jr} \<and>
      bits_of u' = bits_of u \<union> (\<lambda>j. first_core new (unat ni) + j) `
        {j. j < min (widths new ! unat ni) (widths from_jr ! unat fi) \<and> first_core from_jr (unat fi) + j \<in> bits_of fu}
    else job_resources_bits_copy new ni from_jr fi = Some (SLURM_ERROR, new)"
proof (cases "unat ni < unat (nhosts new) \<and> unat fi < unat (nhosts from_jr)")
  case True
  let ?m = "min (widths new ! unat ni) (widths from_jr ! unat fi)" and ?f = "first_core from_jr (unat fi)" and ?g = "first_core new (unat ni)"
  obtain c where c: "core_bitmap new = Some c" "bitstr_wf c" using assms(1) by (rule jr_okE)
  obtain fc where fc: "core_bitmap from_jr = Some fc" "bitstr_wf fc" using assms(2) by (rule jr_okE)
  have b: "\<forall>j \<in> set [0..<?m]. ?f + j < bs_bits fc" "\<forall>j \<in> set [0..<?m]. ?g + j < bs_bits c"
    using node_cores_bound [OF assms(2) fc(1), of "unat fi"] node_cores_bound [OF assms(1) c(1), of "unat ni"] True by auto
  have sz: "bs_bits fu = bs_bits fc" "bs_bits u = bs_bits c" using assms(5,8) c(1) fc(1) by auto
  note loop = move_loop [OF fc(1) assms(6) fc(2) assms(7) sz(1) c(2) assms(4) sz(2) b]
  have set: "{j \<in> set [0..<?m]. P j} = {j. j < ?m \<and> P j}" for P by auto
  from loop obtain c' u' where m: "job_resources_bits_copy new ni from_jr fi =
        Some (if widths new ! unat ni = widths from_jr ! unat fi then SLURM_SUCCESS else SLURM_ERROR,
              new\<lparr>core_bitmap := Some c', core_bitmap_used := Some u'\<rparr>)"
      "bitstr_wf c'" "bs_bits c' = bs_bits c" "bits_of c' = bits_of c \<union> (\<lambda>j. ?g + j) ` {j. j < ?m \<and> ?f + j \<in> bits_of fc}"
      "bits_of u' = bits_of u \<union> (\<lambda>j. ?g + j) ` {j. j < ?m \<and> ?f + j \<in> bits_of fu}"
    using node_range_Some [OF assms(1), of "unat ni"] node_range_Some [OF assms(2), of "unat fi"] True c(1) assms(3)
    unfolding set by (auto simp: job_resources_bits_copy_def not_le [symmetric])
  have "jr_ok (new\<lparr>core_bitmap := Some c'\<rparr>)" by (rule jr_ok_core_bitmap [OF assms(1) c(1) m(2,3)])
  moreover have "shape (new\<lparr>core_bitmap := Some c', core_bitmap_used := Some u'\<rparr>) = shape (new\<lparr>core_bitmap := Some c'\<rparr>)"
    by (simp add: shape_def split: option.split)
  ultimately have "jr_ok (new\<lparr>core_bitmap := Some c', core_bitmap_used := Some u'\<rparr>)"
    by (simp add: jr_ok_def widths_def split: option.splits)
  then show ?thesis using m True c(1) fc(1) by (auto simp: job_cores_def)
next
  case False
  then show ?thesis
    using node_range_Some [OF assms(1), of "unat ni"] by (cases "unat ni < unat (nhosts new)") (auto simp: job_resources_bits_copy_def)
qed

theorem bits_copy_moves_node_witness:
  "\<exists>c' u'. job_resources_bits_copy sample_job 1 sample_job 0 =
     Some (SLURM_SUCCESS, sample_job\<lparr>core_bitmap := Some c', core_bitmap_used := Some u'\<rparr>) \<and>
   bits_of u' = bits_of (the (core_bitmap_used sample_job)) \<union> (\<lambda>j. 4 + j) ` {j. j < 4 \<and> j \<in> bits_of (the (core_bitmap_used sample_job))}"
proof -
  let ?u = "\<lparr>bs_magic = BITSTR_MAGIC, bs_bits = 11, bs_words = [0x1]\<rparr>"
  have u: "core_bitmap_used sample_job = Some ?u" "bitstr_wf ?u" "bs_bits ?u = bs_bits (the (core_bitmap sample_job))"
    by (simp_all add: sample_job_def create_job_resources_def bitstr_wf_def bitstr_words_def)
  have n: "unat (nhosts sample_job) = 3" by (simp add: sample_job_def create_job_resources_def)
  have w: "widths sample_job = [4, 4, 3]" "first_core sample_job 1 = 4" "first_core sample_job 0 = 0"
    by (simp_all add: first_core_def widths_def sample_job_shape width_def)
  show ?thesis
    using bits_copy_moves_node [OF sample_job_ok sample_job_ok u u, of 1 0] n w u(1) by auto
qed

end
