(* ===== verification/Job_Resources_Build.thy ===== *)
theory Job_Resources_Build
  imports Job_Resources_Nodes
begin

text \<open>
  Building the structure of src/common/job_resources.c: the run-length encodings of the node shapes
  and of the CPU counts are encoders in the sense of \<^verbatim>\<open>run_encoder\<close>, and what is built satisfies
  the invariant and the controller's own check.
\<close>

lemma u32_bound: "unat (w :: u32) < 2 ^ 32"
  using unsigned_less [of w] by simp

section \<open>CPU counts\<close>

definition cpu_ok :: "u16 option \<times> nat \<times> nat \<times> u16 list \<times> u32 list \<Rightarrow> bool" where
  "cpu_ok = (\<lambda>(last, cnt, cpu_count, vals, reps). last = (if cnt = 0 then None else Some (vals ! (cnt - 1))))"

interpretation ca: run_encoder "\<lambda>c. cpu_array_step [c] 0" cpu_ok "\<lambda>(last, cnt, cpu_count, vals, reps). cnt"
    "\<lambda>(last, cnt, cpu_count, vals, reps). vals" "\<lambda>(last, cnt, cpu_count, vals, reps). reps"
    "\<lambda>(last, cnt, cpu_count, vals, reps). cpu_count" unat
proof (unfold_locales, goal_cases)
  case (1 s x)
  then show ?case by (cases s) (auto simp: cpu_ok_def cpu_array_step_def int_ok_def readA_def)
next
  case (2 s x)
  then show ?case by (cases s) (auto simp: cpu_ok_def cpu_array_step_def int_ok_def readA_def)
qed

lemma cpu_array_step_nth: "i < length cp \<Longrightarrow> cpu_array_step cp i = cpu_array_step [cp ! i] 0"
  by (simp add: cpu_array_step_def fun_eq_iff readA_def)

lemma cpu_array_built:
  assumes "nhosts jr \<noteq> 0" and "cpus jr = Some cp" and "unat (nhosts jr) \<le> length cp"
    and "sum_list (map unat (take (unat (nhosts jr)) cp)) < 2 ^ 31"
  shows "\<exists>k vals reps. build_job_resources_cpu_array jr =
      Some (int (sum_list (map unat (take (unat (nhosts jr)) cp))),
            jr\<lparr>cpu_array_cnt := of_nat k, cpu_array_value := Some vals, cpu_array_reps := Some reps\<rparr>) \<and>
    length reps = unat (nhosts jr) \<and> encodes k vals reps (take (unat (nhosts jr)) cp)"
proof -
  let ?n = "unat (nhosts jr)"
  let ?s = "(None, 0, 0, replicate ?n 0, replicate ?n 0) :: u16 option \<times> nat \<times> nat \<times> u16 list \<times> u32 list"
  have t: "take ?n cp = map (\<lambda>i. cp ! i) [0..<?n]" using assms(3) by (intro nth_equalityI) auto
  have "forM [0..<?n] (cpu_array_step cp) ?s = forM (take ?n cp) (\<lambda>c. cpu_array_step [c] 0) ?s"
    unfolding t forM_map using assms(3) by (intro forM_cong fun_cong [OF cpu_array_step_nth]) simp
  moreover have "?n < 2 ^ 32" by (rule u32_bound)
  ultimately obtain last k vals reps where s: "forM [0..<?n] (cpu_array_step cp) ?s =
      Some (last, k, sum_list (map unat (take ?n cp)), vals, reps)" "length reps = ?n" "encodes k vals reps (take ?n cp)"
    using ca.encode [of ?s "[]" "take ?n cp"] assms by (auto simp: cpu_ok_def encodes_Nil)
  have "build_job_resources_cpu_array jr = Some (int (sum_list (map unat (take ?n cp))),
      jr\<lparr>cpu_array_cnt := of_nat k, cpu_array_value := Some vals, cpu_array_reps := Some reps\<rparr>)"
    using s(1) assms(1,2) by (simp add: build_job_resources_cpu_array_def Let_def)
  then show ?thesis using s(2,3) by blast
qed

text \<open>
  C28: \<^verbatim>\<open>build_job_resources_cpu_array\<close> computes the shortest run-length encoding of the CPU counts of
  the nodes: expanded, the first \<^verbatim>\<open>cpu_array_cnt\<close> runs are the counts of the nodes in order, no run
  is empty and neighbouring runs differ. It returns the total number of CPUs and changes nothing else.
\<close>

theorem cpu_array_encodes_counts:
  assumes "nhosts jr \<noteq> 0" and "cpus jr = Some cp" and "unat (nhosts jr) \<le> length cp"
    and "sum_list (map unat (take (unat (nhosts jr)) cp)) < 2 ^ 31"
  shows "\<exists>k vals reps. build_job_resources_cpu_array jr =
      Some (int (sum_list (map unat (take (unat (nhosts jr)) cp))),
            jr\<lparr>cpu_array_cnt := of_nat k, cpu_array_value := Some vals, cpu_array_reps := Some reps\<rparr>) \<and>
    k \<le> length reps \<and> expand (take k vals) (take k reps) = take (unat (nhosts jr)) cp \<and>
    (\<forall>i. i < k \<longrightarrow> 0 < unat (reps ! i)) \<and> (\<forall>i. Suc i < k \<longrightarrow> vals ! i \<noteq> vals ! Suc i)"
proof -
  obtain k vals reps where e: "build_job_resources_cpu_array jr =
      Some (int (sum_list (map unat (take (unat (nhosts jr)) cp))),
            jr\<lparr>cpu_array_cnt := of_nat k, cpu_array_value := Some vals, cpu_array_reps := Some reps\<rparr>)"
      "encodes k vals reps (take (unat (nhosts jr)) cp)"
    using cpu_array_built [OF assms] by blast
  have "0 < unat (reps ! i)" if "i < k" for i
  proof -
    have "reps ! i \<in> set (take k reps)" using that e(2) by (auto simp: encodes_def in_set_conv_nth intro!: exI [of _ i])
    then show ?thesis using e(2) by (simp add: encodes_def)
  qed
  then show ?thesis using e by (intro exI [of _ k] exI [of _ vals] exI [of _ reps]) (simp add: encodes_def)
qed

theorem cpu_array_encodes_counts_witness:
  "\<exists>k vals reps. build_job_resources_cpu_array sample_job =
      Some (7, sample_job\<lparr>cpu_array_cnt := of_nat k, cpu_array_value := Some vals, cpu_array_reps := Some reps\<rparr>) \<and>
    expand (take k vals) (take k reps) = [2, 2, 3]"
proof -
  have "nhosts sample_job \<noteq> 0" "cpus sample_job = Some [2, 2, 3]" "unat (nhosts sample_job) = 3"
    by (simp_all add: sample_job_def create_job_resources_def)
  then show ?thesis using cpu_array_encodes_counts [of sample_job "[2, 2, 3]"] by auto
qed

text \<open>Reading zeros and writing zeros.\<close>

lemma cpus_run_zeros:
  assumes "i < n" and "cpu_inx + r \<le> n"
  shows "cpus_run n i r (replicate n 0, cpu_inx, 0) = Some (Inl (replicate n 0, cpu_inx + r, 0))"
  using assms
proof (induction r arbitrary: cpu_inx)
  case (Suc r)
  have "(replicate n 0)[cpu_inx := 0 :: u16] = replicate n 0" by (metis list_update_id list_update_beyond nth_replicate length_replicate not_le)
  then show ?case using Suc by (simp add: int_ok_def)
qed simp

lemma cpus_runs_zeros:
  assumes "k \<le> length reps" and "k \<le> n" and "j \<le> k" and "cpu_inx + sum_list (map unat (drop j (take k reps))) \<le> n"
  shows "cpus_runs n reps [j..<k] (replicate n 0, cpu_inx, 0) =
    Some (Inl (replicate n 0, cpu_inx + sum_list (map unat (drop j (take k reps))), 0))"
  using assms(3,4)
proof (induction "k - j" arbitrary: j cpu_inx)
  case 0
  then show ?case by simp
next
  case (Suc d)
  then have j: "j < k" by simp
  have dr: "drop j (take k reps) = reps ! j # drop (Suc j) (take k reps)"
    using j assms(1) by (subst Cons_nth_drop_Suc [symmetric]) auto
  have "cpus_run n j (unat (reps ! j)) (replicate n 0, cpu_inx, 0) = Some (Inl (replicate n 0, cpu_inx + unat (reps ! j), 0))"
    using j assms(2) Suc.prems(2) unfolding dr by (intro cpus_run_zeros) auto
  moreover have "cpus_runs n reps [Suc j..<k] (replicate n 0, cpu_inx + unat (reps ! j), 0) =
      Some (Inl (replicate n 0, cpu_inx + unat (reps ! j) + sum_list (map unat (drop (Suc j) (take k reps))), 0))"
    using Suc.hyps(2) j Suc.prems(2) unfolding dr by (intro Suc.hyps(1)) auto
  ultimately show ?case
    unfolding upt_conv_Cons [OF j] dr using j assms(1) by (simp add: add.assoc)
qed

text \<open>
  \<^verbatim>\<open>build_job_resources_cpus_array\<close>, which is to rebuild the CPU counts from their encoding,
  loses them: after \<^verbatim>\<open>build_job_resources_cpu_array\<close> it sets every count to zero and returns zero,
  whatever the counts were, because it reads the array it is filling instead of \<^verbatim>\<open>cpu_array_value\<close>.
\<close>

theorem cpus_array_loses_counts:
  assumes "nhosts jr \<noteq> 0" and "cpus jr = Some cp" and "unat (nhosts jr) \<le> length cp"
    and "sum_list (map unat (take (unat (nhosts jr)) cp)) < 2 ^ 31"
  shows "\<exists>total jr'. build_job_resources_cpu_array jr = Some (total, jr') \<and>
    build_job_resources_cpus_array jr' = Some (0, jr'\<lparr>cpus := Some (replicate (unat (nhosts jr)) 0)\<rparr>)"
proof -
  let ?n = "unat (nhosts jr)"
  obtain k vals reps where e: "build_job_resources_cpu_array jr =
      Some (int (sum_list (map unat (take ?n cp))),
            jr\<lparr>cpu_array_cnt := of_nat k, cpu_array_value := Some vals, cpu_array_reps := Some reps\<rparr>)"
      "length reps = ?n" "encodes k vals reps (take ?n cp)"
    using cpu_array_built [OF assms] by blast
  have k: "k \<le> ?n" "sum_list (map unat (take k reps)) = ?n" using encodes_length [OF e(3)] assms(3) by auto
  then have "?n < 2 ^ 32" "0 < ?n" using u32_bound [of "nhosts jr"] assms(1) by (simp_all add: unat_gt_0)
  then have c: "unat (of_nat k :: u32) = k" "0 < k" using k by (auto simp: unat_of_nat take_bit_nat_eq_self intro: Nat.gr0I)
  then have "(of_nat k :: u32) \<noteq> 0" by (metis unat_0 less_irrefl)
  moreover have "cpus_runs ?n reps [0..<k] (replicate ?n 0, 0, 0) = Some (Inl (replicate ?n 0, ?n, 0))"
    using cpus_runs_zeros [of k reps ?n 0 0] k e(2) by simp
  ultimately show ?thesis
    using e(1) c assms(1) by (simp add: build_job_resources_cpus_array_def Let_def)
qed

theorem cpus_array_loses_counts_witness:
  "cpus sample_job = Some [2, 2, 3] \<and>
   (\<exists>total jr'. build_job_resources_cpu_array sample_job = Some (total, jr') \<and>
     build_job_resources_cpus_array jr' = Some (0, jr'\<lparr>cpus := Some [0, 0, 0]\<rparr>))"
proof -
  have "nhosts sample_job \<noteq> 0" "cpus sample_job = Some [2, 2, 3]" "unat (nhosts sample_job) = 3"
    by (simp_all add: sample_job_def create_job_resources_def)
  moreover have "replicate 3 0 = [0, 0, 0 :: u16]" by code_simp
  ultimately show ?thesis using cpus_array_loses_counts [of sample_job "[2, 2, 3]"] by auto
qed


section \<open>Node shapes\<close>

definition build_ok :: "job_resources \<Rightarrow> job_resources \<times> int \<times> nat \<Rightarrow> bool" where
  "build_ok base = (\<lambda>(jr, sock_inx, core_cnt). -1 \<le> sock_inx \<and>
     (\<exists>ss cc rr. jr = base\<lparr>sockets_per_node := Some ss, cores_per_socket := Some cc, sock_core_rep_count := Some rr\<rparr> \<and>
        length ss = length rr \<and> length cc = length rr))"

lemma build_okI:
  "-1 \<le> sock_inx \<Longrightarrow> length ss = length rr \<Longrightarrow> length cc = length rr \<Longrightarrow>
   build_ok base (base\<lparr>sockets_per_node := Some ss, cores_per_socket := Some cc, sock_core_rep_count := Some rr\<rparr>, sock_inx, core_cnt)"
  by (auto simp: build_ok_def)

definition shape_runs :: "job_resources \<Rightarrow> (u16 \<times> u16) list" where
  "shape_runs jr = zip (the (sockets_per_node jr)) (the (cores_per_socket jr))"

lemma new_shape_iff:
  assumes "sockets_per_node jr = Some ss" "cores_per_socket jr = Some cc" "length ss = length cc"
    and "-1 \<le> sock_inx" and "nat (sock_inx + 1) \<le> length ss"
  shows "new_shape jr sock_inx s c =
    Some (nat (sock_inx + 1) = 0 \<or> zip ss cc ! (nat (sock_inx + 1) - 1) \<noteq> (s, c))"
proof (cases "sock_inx < 0")
  case False
  then have "nat (sock_inx + 1) - 1 = nat sock_inx" "nat sock_inx < length ss" "0 < nat (sock_inx + 1)" using assms(5) by auto
  then show ?thesis using False assms(1-3) by (auto simp: new_shape_def)
qed (simp add: new_shape_def)

interpretation bn: run_encoder build_node "build_ok base" "\<lambda>(jr, sock_inx, core_cnt). nat (sock_inx + 1)"
    "\<lambda>(jr, sock_inx, core_cnt). shape_runs jr" "\<lambda>(jr, sock_inx, core_cnt). the (sock_core_rep_count jr)"
    "\<lambda>(jr, sock_inx, core_cnt). core_cnt" width for base
proof (unfold_locales, goal_cases)
  case (1 st x)
  obtain sock_inx core_cnt ss cc rr s c where st: "x = (s, c)"
    "st = (base\<lparr>sockets_per_node := Some ss, cores_per_socket := Some cc, sock_core_rep_count := Some rr\<rparr>, sock_inx, core_cnt)"
    "-1 \<le> sock_inx" "length ss = length rr" "length cc = length rr"
    using 1(1) by (cases x; cases st) (auto simp: build_ok_def)
  have k: "nat (sock_inx + 1) < length rr" using 1(2) st(2) by simp
  have "new_shape (fst st) sock_inx s c = Some True"
    using 1(6) st k by (subst new_shape_iff [where ss = ss and cc = cc]) (auto simp: shape_runs_def)
  moreover have "int_ok (core_cnt + unat c * unat s) = Some ()" using 1(5) st by (simp add: int_ok_def width_def mult.commute)
  moreover have "rr ! nat (sock_inx + 1) = 0" using 1(4) st(2) by simp
  moreover have "nat (sock_inx + 1 + 1) = Suc (nat (sock_inx + 1))" using st(3) by simp
  ultimately show ?case
    using st k by (auto simp: build_node_def build_okI shape_runs_def width_def zip_update mult.commute)
next
  case (2 st x)
  obtain sock_inx core_cnt ss cc rr s c where st: "x = (s, c)"
    "st = (base\<lparr>sockets_per_node := Some ss, cores_per_socket := Some cc, sock_core_rep_count := Some rr\<rparr>, sock_inx, core_cnt)"
    "-1 \<le> sock_inx" "length ss = length rr" "length cc = length rr"
    using 2(1) by (cases x; cases st) (auto simp: build_ok_def)
  have k: "nat (sock_inx + 1) \<le> length rr" "0 < nat (sock_inx + 1)" "nat (sock_inx + 1) - 1 = nat sock_inx" "nat sock_inx < length rr"
    using 2(2,3) st(2) by auto
  have "new_shape (fst st) sock_inx s c = Some False"
    using 2(6) st k by (subst new_shape_iff [where ss = ss and cc = cc]) (auto simp: shape_runs_def)
  moreover have "int_ok (core_cnt + unat c * unat s) = Some ()" using 2(5) st by (simp add: int_ok_def width_def mult.commute)
  ultimately show ?case
    using st k by (auto simp: build_node_def build_okI shape_runs_def width_def mult.commute)
qed


text \<open>The shapes of the nodes of a bitmap, in the order of the node table.\<close>

definition node_ids :: "bitstr \<Rightarrow> nat list" where
  "node_ids nb = sorted_list_of_set (bits_of nb)"

definition node_shapes :: "node_record list \<Rightarrow> bool \<Rightarrow> bitstr \<Rightarrow> (u16 \<times> u16) list" where
  "node_shapes node_table fast_schedule nb = map (\<lambda>i. node_shape fast_schedule (node_table ! i)) (node_ids nb)"

lemma bits_of_sub: "bits_of nb \<subseteq> {..<bs_bits nb}"
  by (auto dest: bits_of_bound)

lemma node_ids_filter: "filter (\<lambda>i. i \<in> bits_of nb) [0..<bs_bits nb] = node_ids nb"
  unfolding node_ids_def by (rule filter_upt_sorted [OF bits_of_sub])

lemma set_node_ids [simp]: "set (node_ids nb) = bits_of nb"
  using finite_subset [OF bits_of_sub] by (simp add: node_ids_def)

lemma length_node_ids: "length (node_ids nb) = card (bits_of nb)"
  by (simp add: node_ids_def)

lemma covers_runs: "\<forall>r \<in> set ps. 0 < unat r \<Longrightarrow> covers (ps @ zs) (sum_list (map unat ps))"
proof (induction ps)
  case Nil
  then show ?case by (cases zs) auto
qed simp

lemma encodes_covers:
  assumes "encodes k vs rs xs"
  shows "covers rs (length xs)" and "sum_list (map unat rs) = length xs"
proof -
  show "covers rs (length xs)"
    using covers_runs [of "take k rs" "drop k rs"] assms encodes_length(1) [OF assms] by (simp add: encodes_def)
  show "sum_list (map unat rs) = length xs"
    using length_expand [of vs rs] encodes_expand [OF assms] assms by (simp add: encodes_def)
qed

lemma build_runs:
  assumes "node_bitmap jr = Some nb" and "bitstr_wf nb" and "card (bits_of nb) = unat (nhosts jr)"
    and "\<forall>i \<in> bits_of nb. i < length node_table"
    and "sum_list (map width (node_shapes node_table fast nb)) \<le> 0x40000000"
  shows "\<exists>ss cc rr core used k. build_job_resources node_table fast jr = Some (SLURM_SUCCESS,
      jr\<lparr>sockets_per_node := Some ss, cores_per_socket := Some cc, sock_core_rep_count := Some rr,
         core_bitmap := Some core, core_bitmap_used := Some used\<rparr>) \<and>
    length ss = unat (nhosts jr) \<and> length cc = unat (nhosts jr) \<and> length rr = unat (nhosts jr) \<and>
    encodes k (zip ss cc) rr (node_shapes node_table fast nb) \<and>
    bitstr_wf core \<and> bs_bits core = sum_list (map width (node_shapes node_table fast nb)) \<and> bits_of core = {} \<and>
    bitstr_wf used \<and> bs_bits used = sum_list (map width (node_shapes node_table fast nb)) \<and> bits_of used = {}"
proof -
  let ?n = "unat (nhosts jr)" and ?L = "node_shapes node_table fast nb"
  let ?s = "(jr\<lparr>sockets_per_node := Some (replicate ?n 0), cores_per_socket := Some (replicate ?n 0),
                sock_core_rep_count := Some (replicate ?n 0)\<rparr>, -1, 0) :: job_resources \<times> int \<times> nat"
  have "forM [0..<bs_bits nb] (\<lambda>i st. do { t \<leftarrow> bit_test nb (int i);
      if t then do { nd \<leftarrow> readA node_table i; build_node (node_shape fast nd) st } else Some st }) ?s =
    forM (node_ids nb) (\<lambda>i st. do { nd \<leftarrow> readA node_table i; build_node (node_shape fast nd) st }) ?s"
    unfolding node_ids_filter [symmetric] using assms(2) by (intro forM_filter) (simp add: bm.test_ok)
  also have "\<dots> = forM ?L build_node ?s"
    unfolding node_shapes_def forM_map using assms(4) by (intro forM_cong) simp
  finally have loop: "forM [0..<bs_bits nb] (\<lambda>i st. do { t \<leftarrow> bit_test nb (int i);
      if t then do { nd \<leftarrow> readA node_table i; build_node (node_shape fast nd) st } else Some st }) ?s = forM ?L build_node ?s" .
  have len: "length ?L = ?n" using assms(3) by (simp add: node_shapes_def length_node_ids)
  have "build_ok jr ?s" by (intro build_okI) auto
  moreover have "encodes 0 (shape_runs (fst ?s)) (replicate ?n 0) []" by (intro encodes_Nil) (simp add: shape_runs_def)
  ultimately obtain ss cc rr i where s: "forM ?L build_node ?s =
      Some (jr\<lparr>sockets_per_node := Some ss, cores_per_socket := Some cc, sock_core_rep_count := Some rr\<rparr>, i, sum_list (map width ?L))"
      "length ss = length rr" "length cc = length rr" "length rr = ?n" "encodes (nat (i + 1)) (zip ss cc) rr ?L"
    using bn.encode [of jr ?s "[]" ?L] len u32_bound [of "nhosts jr"] assms(5) by (auto simp: build_ok_def shape_runs_def)
  obtain core where core: "bit_alloc (int (sum_list (map width ?L))) = Some core" "bitstr_wf core"
      "bs_bits core = sum_list (map width ?L)" "bits_of core = {}"
    using bit_alloc_Some [OF assms(5)] by blast
  have "build_job_resources node_table fast jr = Some (SLURM_SUCCESS,
      jr\<lparr>sockets_per_node := Some ss, cores_per_socket := Some cc, sock_core_rep_count := Some rr,
         core_bitmap := Some core, core_bitmap_used := Some core\<rparr>)"
    using assms(1,2) s(1) core(1) unfolding build_job_resources_def by (simp add: Let_def abort_simps loop)
  then show ?thesis using s(2-5) core(2-4) by metis
qed


text \<open>The check walks the runs; a run that is used up is left only when the next node is met.\<close>

lemma encodes_no_gap:
  assumes "encodes k vs rs xs" and "expand (drop i vs) (drop i rs) \<noteq> []"
  shows "i < length rs" and "0 < unat (rs ! i)"
proof -
  have l: "length vs = length rs" using assms(1) by (simp add: encodes_def)
  have "i < k"
  proof (rule ccontr)
    assume "\<not> i < k"
    then have "drop i rs = replicate (length rs - i) 0" using assms(1) by (intro nth_equalityI) (auto simp: encodes_def)
    then show False using assms(2) by (simp add: expand_zeros)
  qed
  moreover from this show "i < length rs" using assms(1) by (simp add: encodes_def)
  ultimately have "rs ! i \<in> set (take k rs)" using assms(1) by (auto simp: encodes_def in_set_conv_nth intro!: exI [of _ i])
  then show "0 < unat (rs ! i)" using assms(1) by (simp add: encodes_def)
qed

lemma valid_nodes_ok:
  assumes jr: "sockets_per_node jr = Some ss" "cores_per_socket jr = Some cc" "sock_core_rep_count jr = Some rr"
      "length ss = length rr" "length cc = length rr" "encodes k (zip ss cc) rr xs"
    and nb: "bitstr_wf nb" and "\<forall>i \<in> set js. i < bs_bits nb" and "\<forall>i \<in> bits_of nb. i < length node_table"
    and "\<forall>i \<in> bits_of nb. width (node_shape fast (node_table ! i)) < 2 ^ 31"
    and "filter (\<lambda>i. i \<in> bits_of nb) js \<noteq> [] \<longrightarrow> sock_inx < length rr \<and>
      map (\<lambda>i. node_shape fast (node_table ! i)) (filter (\<lambda>i. i \<in> bits_of nb) js) =
        replicate (unat (rr ! sock_inx) - sock_cnt) (ss ! sock_inx, cc ! sock_inx) @ expand (drop (Suc sock_inx) (zip ss cc)) (drop (Suc sock_inx) rr)"
  shows "valid_nodes node_table fast nb jr js sock_inx sock_cnt = Some SLURM_SUCCESS"
  using assms(8,11)
proof (induction js arbitrary: sock_inx sock_cnt)
  case Nil
  then show ?case by simp
next
  case (Cons j js)
  let ?R = "\<lambda>js. map (\<lambda>i. node_shape fast (node_table ! i)) (filter (\<lambda>i. i \<in> bits_of nb) js)"
  let ?E = "\<lambda>i. expand (drop i (zip ss cc)) (drop i rr)"
  have t: "bit_test nb (int j) = Some (j \<in> bits_of nb)" using Cons.prems(1) nb by (simp add: bm.test_ok)
  show ?case
  proof (cases "j \<in> bits_of nb")
    case False
    then show ?thesis using Cons t by simp
  next
    case True
    have a: "sock_inx < length rr" "node_shape fast (node_table ! j) # ?R js =
        replicate (unat (rr ! sock_inx) - sock_cnt) (ss ! sock_inx, cc ! sock_inx) @ ?E (Suc sock_inx)"
      using Cons.prems(2) True by auto
    define p where "p = (if sock_cnt \<ge> unat (rr ! sock_inx) then (Suc sock_inx, 0) else (sock_inx, sock_cnt))"
    obtain i c where p: "p = (i, c)" by (cases p)
    have step: "i < length rr \<and> c < unat (rr ! i) \<and>
        node_shape fast (node_table ! j) # ?R js = replicate (unat (rr ! i) - c) (ss ! i, cc ! i) @ ?E (Suc i)"
    proof (cases "sock_cnt \<ge> unat (rr ! sock_inx)")
      case True
      then have E: "node_shape fast (node_table ! j) # ?R js = ?E (Suc sock_inx)" using a(2) by simp
      then have ne: "?E (Suc sock_inx) \<noteq> []" by (metis list.discI)
      note g = encodes_no_gap [OF jr(6) ne]
      have "?E (Suc sock_inx) = replicate (unat (rr ! Suc sock_inx)) (ss ! Suc sock_inx, cc ! Suc sock_inx) @ ?E (Suc (Suc sock_inx))"
        using g(1) jr(4,5) by (subst expand_drop) auto
      then show ?thesis using E g True p by (simp add: p_def)
    next
      case False
      then show ?thesis using a p by (auto simp: p_def)
    qed
    then obtain d where d: "unat (rr ! i) - c = Suc d" by (metis Suc_diff_Suc)
    then have x: "node_shape fast (node_table ! j) = (ss ! i, cc ! i)" "?R js = replicate d (ss ! i, cc ! i) @ ?E (Suc i)"
      using step by auto
    have w: "width (ss ! i, cc ! i) < 2 ^ 31" using assms(10) True x(1) by metis
    have "valid_nodes node_table fast nb jr js i (Suc c) = Some SLURM_SUCCESS"
      using Cons.IH [of i "Suc c"] Cons.prems(1) x(2) step d by (simp add: diff_Suc split: nat.splits)
    then show ?thesis
      using t True assms(9) x(1) a(1) jr(1-5) step w p
      by (auto simp: int_ok_def width_def p_def Let_def split: if_splits)
  qed
qed

text \<open>
  C9: \<^verbatim>\<open>build_job_resources\<close> establishes the invariant of the structure: for a job whose node count
  is that of its node bitmap and whose nodes all have cores, the run-length encoded shapes expand to
  the sockets and cores of the job's nodes in the order of the node table, the core bitmaps have one
  clear bit per core, and nothing else changes. The structure passes \<^verbatim>\<open>valid_job_resources\<close>.
\<close>

theorem build_job_resources_ok:
  assumes "node_bitmap jr = Some nb" and "bitstr_wf nb" and "card (bits_of nb) = unat (nhosts jr)"
    and "\<forall>i \<in> bits_of nb. i < length node_table"
    and "sum_list (map width (node_shapes node_table fast nb)) \<le> 0x40000000"
    and "\<forall>x \<in> set (node_shapes node_table fast nb). 0 < width x"
  shows "\<exists>ss cc rr core used jr'. build_job_resources node_table fast jr = Some (SLURM_SUCCESS, jr') \<and>
    jr' = jr\<lparr>sockets_per_node := ss, cores_per_socket := cc, sock_core_rep_count := rr,
             core_bitmap := Some core, core_bitmap_used := Some used\<rparr> \<and>
    jr_ok jr' \<and> jr_tight jr' \<and> shape jr' = node_shapes node_table fast nb \<and>
    bits_of core = {} \<and> bitstr_wf used \<and> bs_bits used = bs_bits core \<and> bits_of used = {} \<and>
    valid_job_resources node_table fast jr' = Some SLURM_SUCCESS"
proof -
  let ?n = "unat (nhosts jr)" and ?L = "node_shapes node_table fast nb"
  obtain ss cc rr core used k where e: "build_job_resources node_table fast jr = Some (SLURM_SUCCESS,
      jr\<lparr>sockets_per_node := Some ss, cores_per_socket := Some cc, sock_core_rep_count := Some rr,
         core_bitmap := Some core, core_bitmap_used := Some used\<rparr>)"
    "length ss = ?n" "length cc = ?n" "length rr = ?n" "encodes k (zip ss cc) rr ?L"
    "bitstr_wf core" "bs_bits core = sum_list (map width ?L)" "bits_of core = {}"
    "bitstr_wf used" "bs_bits used = sum_list (map width ?L)" "bits_of used = {}"
    using build_runs [OF assms(1-5)] by blast
  let ?jr = "jr\<lparr>sockets_per_node := Some ss, cores_per_socket := Some cc, sock_core_rep_count := Some rr,
         core_bitmap := Some core, core_bitmap_used := Some used\<rparr>"
  have len: "length ?L = ?n" using assms(3) by (simp add: node_shapes_def length_node_ids)
  have shape: "shape ?jr = ?L" using encodes_expand [OF e(5)] len by (simp add: shape_def)
  have "jr_ok ?jr" "jr_tight ?jr"
    using e(2-4,6,7) shape encodes_covers [OF e(5)] len assms(6) by (simp_all add: jr_ok_def jr_tight_def widths_def)
  moreover have "valid_nodes node_table fast nb ?jr [0..<bs_bits nb] 0 0 = Some SLURM_SUCCESS"
  proof (rule valid_nodes_ok [of _ ss cc rr k ?L])
    show "\<forall>i \<in> bits_of nb. width (node_shape fast (node_table ! i)) < 2 ^ 31"
      using assms(5) member_le_sum_list [of _ "map width ?L"] by (force simp: node_shapes_def)
    show "filter (\<lambda>i. i \<in> bits_of nb) [0..<bs_bits nb] \<noteq> [] \<longrightarrow> 0 < length rr \<and>
      map (\<lambda>i. node_shape fast (node_table ! i)) (filter (\<lambda>i. i \<in> bits_of nb) [0..<bs_bits nb]) =
        replicate (unat (rr ! 0) - 0) (ss ! 0, cc ! 0) @ expand (drop (Suc 0) (zip ss cc)) (drop (Suc 0) rr)"
    proof
      assume "filter (\<lambda>i. i \<in> bits_of nb) [0..<bs_bits nb] \<noteq> []"
      then have "0 < length rr" using len e(4) unfolding node_ids_filter by (metis length_greater_0_conv length_map node_shapes_def)
      then show "0 < length rr \<and>
        map (\<lambda>i. node_shape fast (node_table ! i)) (filter (\<lambda>i. i \<in> bits_of nb) [0..<bs_bits nb]) =
          replicate (unat (rr ! 0) - 0) (ss ! 0, cc ! 0) @ expand (drop (Suc 0) (zip ss cc)) (drop (Suc 0) rr)"
        using expand_drop [of 0 "zip ss cc" rr] encodes_expand [OF e(5)] e(2-4)
        unfolding node_ids_filter by (simp add: node_shapes_def)
    qed
  qed (use e(2-5) assms(2,4) in simp_all)
  ultimately show ?thesis
    using e shape assms(1,2)
    by (intro exI [of _ "Some ss"] exI [of _ "Some cc"] exI [of _ "Some rr"] exI [of _ core] exI [of _ used] exI [of _ ?jr])
      (simp add: valid_job_resources_def abort_simps)
qed


definition sample_nodes :: "node_record list" where
  "sample_nodes = [\<lparr>sockets = 1, cores = 1, config_sockets = 1, config_cores = 1\<rparr>,
     \<lparr>sockets = 2, cores = 2, config_sockets = 2, config_cores = 2\<rparr>, \<lparr>sockets = 2, cores = 2, config_sockets = 2, config_cores = 2\<rparr>,
     \<lparr>sockets = 1, cores = 1, config_sockets = 1, config_cores = 1\<rparr>, \<lparr>sockets = 1, cores = 3, config_sockets = 1, config_cores = 3\<rparr>]"

lemma sample_node_bitmap:
  "node_bitmap sample_job = Some \<lparr>bs_magic = BITSTR_MAGIC, bs_bits = 5, bs_words = [0x16]\<rparr>"
  "bitstr_wf \<lparr>bs_magic = BITSTR_MAGIC, bs_bits = 5, bs_words = [0x16]\<rparr>"
  "bits_of \<lparr>bs_magic = BITSTR_MAGIC, bs_bits = 5, bs_words = [0x16]\<rparr> = {1, 2, 4}"
proof -
  have "i = 0 \<or> i = 1 \<or> i = 2 \<or> i = 3 \<or> i = 4" if "i < 5" for i :: nat using that by auto
  then show "bits_of \<lparr>bs_magic = BITSTR_MAGIC, bs_bits = 5, bs_words = [0x16]\<rparr> = {1, 2, 4}"
    by (fastforce simp: bits_of_def wbit_def)
qed (simp_all add: sample_job_def create_job_resources_def bitstr_wf_def bitstr_words_def)

theorem build_job_resources_ok_witness:
  "\<exists>jr'. build_job_resources sample_nodes True sample_job = Some (SLURM_SUCCESS, jr') \<and>
    jr_ok jr' \<and> shape jr' = [(2, 2), (2, 2), (1, 3)] \<and> valid_job_resources sample_nodes True jr' = Some SLURM_SUCCESS"
proof -
  let ?nb = "\<lparr>bs_magic = BITSTR_MAGIC, bs_bits = 5, bs_words = [0x16]\<rparr>"
  have sh: "node_shapes sample_nodes True ?nb = [(2, 2), (2, 2), (1, 3)]"
    unfolding node_shapes_def node_ids_def sample_node_bitmap(3) by (simp add: sample_nodes_def node_shape_def)
  have n: "card (bits_of ?nb) = unat (nhosts sample_job)" "\<forall>i \<in> bits_of ?nb. i < length sample_nodes"
    unfolding sample_node_bitmap(3) by (simp_all add: sample_job_def create_job_resources_def sample_nodes_def)
  show ?thesis
    using build_job_resources_ok [OF sample_node_bitmap(1,2) n, of True] unfolding sh by (auto simp: width_def)
qed

end
