(* ===== verification/Job_Resources_Cluster.thy ===== *)
theory Job_Resources_Cluster
  imports Job_Resources_Build
begin

text \<open>
  Jobs in the bitmap of all cores of the cluster (src/common/job_resources.c with the offsets of
  src/common/node_conf.c): the cores of a job form a set of positions of this bitmap, and the code
  tests it for overlap, adds it and takes it away.
\<close>

section \<open>Offsets of the nodes\<close>

lemma length_cr_offsets: "length (cr_offsets off cs) = Suc (length cs)"
  by (induction cs arbitrary: off) auto

lemma cr_offsets_nth:
  assumes "unat off + sum_list (map unat cs) < 2 ^ 32" and "i \<le> length cs"
  shows "unat (cr_offsets off cs ! i) = unat off + sum_list (map unat (take i cs))"
  using assms
proof (induction cs arbitrary: off i)
  case (Cons c cs)
  have "unat (off + ucast c) = unat off + unat c"
    using Cons.prems(1) by (simp add: unat_word_ariths unsigned_ucast_eq take_bit_nat_eq_self)
  then show ?case using Cons by (cases i) auto
qed simp


section \<open>Marking and testing\<close>

text \<open>Positions of the cores of a job on a node, with the numbers of the first core in the job's bitmap and in the cluster's.\<close>

definition node_marks :: "job_resources \<Rightarrow> nat \<Rightarrow> nat \<Rightarrow> nat \<Rightarrow> nat set" where
  "node_marks jr off job_bit n = (\<lambda>c. off + c) ` {c. c < n \<and> (whole_node jr = 1 \<or> job_bit + c \<in> job_cores jr)}"

fun all_marks :: "job_resources \<Rightarrow> u32 list \<Rightarrow> u16 list \<Rightarrow> nat \<Rightarrow> nat list \<Rightarrow> nat set" where
  "all_marks jr offs bpn job_bit [] = {}"
| "all_marks jr offs bpn job_bit (i # is) =
     node_marks jr (unat (offs ! i)) job_bit (unat (bpn ! i)) \<union> all_marks jr offs bpn (job_bit + unat (bpn ! i)) is"

text \<open>What the loops need to stay inside the arrays and bitmaps.\<close>

definition marks_ok :: "job_resources \<Rightarrow> u32 list \<Rightarrow> u16 list \<Rightarrow> bitstr \<Rightarrow> nat \<Rightarrow> nat list \<Rightarrow> bool" where
  "marks_ok jr offs bpn full job_bit is \<longleftrightarrow> bitstr_wf full \<and>
     (\<forall>i \<in> set is. i < length offs \<and> i < length bpn \<and> unat (offs ! i) + unat (bpn ! i) \<le> bs_bits full) \<and>
     (whole_node jr = 1 \<or> (\<exists>b. core_bitmap jr = Some b \<and> bitstr_wf b \<and> job_bit + sum_list (map (\<lambda>i. unat (bpn ! i)) is) \<le> bs_bits b))"

lemma marks_ok_tl: "marks_ok jr offs bpn full job_bit (i # is) \<Longrightarrow> marks_ok jr offs bpn full (job_bit + unat (bpn ! i)) is"
  by (auto simp: marks_ok_def add.assoc)

lemma job_core_test:
  assumes "marks_ok jr offs bpn full job_bit (i # is)" and "c < unat (bpn ! i)" and "whole_node jr \<noteq> 1"
  shows "do { b \<leftarrow> core_bitmap jr; bit_test b (int (job_bit + c)) } = Some (job_bit + c \<in> job_cores jr)"
proof -
  obtain b where "core_bitmap jr = Some b" "bitstr_wf b" "job_bit + c < bs_bits b" using assms by (auto simp: marks_ok_def)
  then show ?thesis by (simp add: bm.test_ok job_cores_def del: of_nat_add)
qed

lemma mark_node_Some:
  assumes "marks_ok jr offs bpn full job_bit (i # is)"
  shows "\<exists>full'. mark_node v jr (unat (offs ! i)) job_bit (unat (bpn ! i)) full = Some full' \<and>
    bitstr_wf full' \<and> bs_bits full' = bs_bits full \<and>
    bits_of full' = (if v then bits_of full \<union> node_marks jr (unat (offs ! i)) job_bit (unat (bpn ! i))
                     else bits_of full - node_marks jr (unat (offs ! i)) job_bit (unat (bpn ! i)))"
proof -
  let ?P = "\<lambda>c. whole_node jr = 1 \<or> job_bit + c \<in> job_cores jr" and ?n = "unat (bpn ! i)" and ?o = "unat (offs ! i)"
  have "mark_node v jr ?o job_bit ?n full = forM (filter ?P [0..<?n]) (\<lambda>c full. bit_put v full (int (?o + c))) full"
    unfolding mark_node_def by (rule forM_filter) (use job_core_test [OF assms] in \<open>simp del: of_nat_add\<close>)
  moreover have full: "bitstr_wf full" "?o + c < bs_bits full" if "c \<in> set (filter ?P [0..<?n])" for c
    using assms that by (auto simp: marks_ok_def)
  moreover have s: "(\<lambda>c. ?o + c) ` set (filter ?P [0..<?n]) = node_marks jr ?o job_bit ?n" by (auto simp: node_marks_def)
  moreover have "bitstr_wf full" using assms by (simp add: marks_ok_def)
  ultimately show ?thesis
    using bm.fill_loop [of full "filter ?P [0..<?n]" "\<lambda>c. ?o + c" v, unfolded s] by (simp only:)
qed

lemma core_conflict_Some:
  assumes "marks_ok jr offs bpn full job_bit (i # is)"
  shows "core_conflict jr full (unat (offs ! i)) job_bit (unat (bpn ! i)) =
    Some (bits_of full \<inter> node_marks jr (unat (offs ! i)) job_bit (unat (bpn ! i)) \<noteq> {})"
proof -
  let ?n = "unat (bpn ! i)" and ?o = "unat (offs ! i)"
  have "core_conflict jr full ?o job_bit ?n =
      Some (\<exists>c \<in> set [0..<?n]. ?o + c \<in> bits_of full \<and> (whole_node jr = 1 \<or> job_bit + c \<in> job_cores jr))"
    unfolding core_conflict_def
  proof (rule existsM_Bex)
    fix c
    assume c: "c \<in> set [0..<?n]"
    then have "bit_test full (int (?o + c)) = Some (?o + c \<in> bits_of full)"
      using assms by (intro bm.test_ok) (auto simp: marks_ok_def)
    then show "do { t \<leftarrow> bit_test full (int (?o + c));
        if \<not> t then Some False else if whole_node jr = 1 then Some True else do { b \<leftarrow> core_bitmap jr; bit_test b (int (job_bit + c)) } } =
      Some (?o + c \<in> bits_of full \<and> (whole_node jr = 1 \<or> job_bit + c \<in> job_cores jr))"
      using job_core_test [OF assms, of c] c by (simp del: of_nat_add)
  qed
  moreover have "(\<exists>c \<in> set [0..<?n]. ?o + c \<in> bits_of full \<and> (whole_node jr = 1 \<or> job_bit + c \<in> job_cores jr)) \<longleftrightarrow>
      bits_of full \<inter> node_marks jr ?o job_bit ?n \<noteq> {}" by (auto simp: node_marks_def)
  ultimately show ?thesis by simp
qed

text \<open>The nodes still to come at a position of the node bitmap.\<close>

definition ids_from :: "bitstr \<Rightarrow> nat \<Rightarrow> nat list" where
  "ids_from nb i = filter (\<lambda>i. i \<in> bits_of nb) [i..<bs_bits nb]"

lemma ids_from_cases:
  assumes "bitstr_wf nb" and "ids_from nb i \<noteq> []"
  shows "i < bs_bits nb" and "bit_test nb (int i) = Some (i \<in> bits_of nb)"
    and "ids_from nb i = (if i \<in> bits_of nb then i # ids_from nb (i + 1) else ids_from nb (i + 1))"
proof -
  show i: "i < bs_bits nb" using assms(2) by (cases "i < bs_bits nb") (auto simp: ids_from_def)
  show "bit_test nb (int i) = Some (i \<in> bits_of nb)" by (rule bm.test_ok [OF assms(1) i])
  show "ids_from nb i = (if i \<in> bits_of nb then i # ids_from nb (i + 1) else ids_from nb (i + 1))"
    unfolding ids_from_def upt_conv_Cons [OF i] by simp
qed

lemma mark_nodes_Some:
  assumes "bitstr_wf nb" and "cnt = length (ids_from nb i)" and "marks_ok jr offs bpn full job_bit (ids_from nb i)"
  shows "\<exists>full'. mark_nodes v jr offs bpn nb i job_bit cnt full = Some full' \<and> bitstr_wf full' \<and> bs_bits full' = bs_bits full \<and>
    bits_of full' = (if v then bits_of full \<union> all_marks jr offs bpn job_bit (ids_from nb i)
                     else bits_of full - all_marks jr offs bpn job_bit (ids_from nb i))"
  using assms(2,3)
proof (induction "bs_bits nb - i" arbitrary: i job_bit cnt full rule: less_induct)
  case less
  show ?case
  proof (cases "ids_from nb i = []")
    case True
    then show ?thesis using less.prems by (simp add: mark_nodes.simps marks_ok_def)
  next
    case False
    note c = ids_from_cases [OF assms(1) False]
    have dec: "bs_bits nb - (i + 1) < bs_bits nb - i" using c(1) by simp
    show ?thesis
    proof (cases "i \<in> bits_of nb")
      case True
      then have ids: "ids_from nb i = i # ids_from nb (i + 1)" using c(3) by simp
      note ok = less.prems(2) [unfolded ids]
      obtain f1 where f1: "mark_node v jr (unat (offs ! i)) job_bit (unat (bpn ! i)) full = Some f1" "bitstr_wf f1" "bs_bits f1 = bs_bits full"
          "bits_of f1 = (if v then bits_of full \<union> node_marks jr (unat (offs ! i)) job_bit (unat (bpn ! i))
                         else bits_of full - node_marks jr (unat (offs ! i)) job_bit (unat (bpn ! i)))"
        using mark_node_Some [OF ok] by blast
      have "marks_ok jr offs bpn f1 (job_bit + unat (bpn ! i)) (ids_from nb (i + 1))"
        using marks_ok_tl [OF ok] f1(2,3) by (simp add: marks_ok_def)
      from less.hyps [OF dec refl this] obtain f' where f': "mark_nodes v jr offs bpn nb (i + 1) (job_bit + unat (bpn ! i)) (length (ids_from nb (i + 1))) f1 = Some f'"
          "bitstr_wf f'" "bs_bits f' = bs_bits f1"
          "bits_of f' = (if v then bits_of f1 \<union> all_marks jr offs bpn (job_bit + unat (bpn ! i)) (ids_from nb (i + 1))
                     else bits_of f1 - all_marks jr offs bpn (job_bit + unat (bpn ! i)) (ids_from nb (i + 1)))" by blast
      have "mark_nodes v jr offs bpn nb i job_bit cnt full = Some f'"
        using f1(1) f'(1) c(2) True ok less.prems(1) ids by (subst mark_nodes.simps) (simp add: marks_ok_def)
      then show ?thesis unfolding ids using f1(3,4) f'(2-4) by (auto split: if_splits)
    next
      case False
      then have ids: "ids_from nb i = ids_from nb (i + 1)" using c(3) by simp
      have "mark_nodes v jr offs bpn nb i job_bit cnt full = mark_nodes v jr offs bpn nb (i + 1) job_bit cnt full"
        using c(2) False less.prems(1) \<open>ids_from nb i \<noteq> []\<close> by (subst mark_nodes.simps) simp
      then show ?thesis using less.hyps [OF dec, of cnt full job_bit] less.prems unfolding ids by simp
    qed
  qed
qed

lemma fits_nodes_Some:
  assumes "bitstr_wf nb" and "cnt = length (ids_from nb i)" and "marks_ok jr offs bpn full job_bit (ids_from nb i)"
  shows "fits_nodes jr full offs bpn nb i job_bit cnt =
    Some (if bits_of full \<inter> all_marks jr offs bpn job_bit (ids_from nb i) = {} then 1 else 0)"
  using assms(2,3)
proof (induction "bs_bits nb - i" arbitrary: i job_bit cnt rule: less_induct)
  case less
  show ?case
  proof (cases "ids_from nb i = []")
    case True
    then show ?thesis using less.prems by (simp add: fits_nodes.simps)
  next
    case False
    note c = ids_from_cases [OF assms(1) False]
    have dec: "bs_bits nb - (i + 1) < bs_bits nb - i" using c(1) by simp
    show ?thesis
    proof (cases "i \<in> bits_of nb")
      case True
      then have ids: "ids_from nb i = i # ids_from nb (i + 1)" using c(3) by simp
      note ok = less.prems(2) [unfolded ids]
      have "fits_nodes jr full offs bpn nb i job_bit cnt =
          (if bits_of full \<inter> node_marks jr (unat (offs ! i)) job_bit (unat (bpn ! i)) \<noteq> {} then Some 0
           else fits_nodes jr full offs bpn nb (i + 1) (job_bit + unat (bpn ! i)) (length (ids_from nb (i + 1))))"
        using core_conflict_Some [OF ok] c(2) True ok less.prems(1) ids by (subst fits_nodes.simps) (simp add: marks_ok_def)
      then show ?thesis unfolding ids using less.hyps [OF dec refl marks_ok_tl [OF ok]] by (simp add: Int_Un_distrib)
    next
      case False
      then have ids: "ids_from nb i = ids_from nb (i + 1)" using c(3) by simp
      have "fits_nodes jr full offs bpn nb i job_bit cnt = fits_nodes jr full offs bpn nb (i + 1) job_bit cnt"
        using c(2) False less.prems(1) \<open>ids_from nb i \<noteq> []\<close> by (subst fits_nodes.simps) simp
      then show ?thesis using less.hyps [OF dec, of cnt job_bit] less.prems unfolding ids by simp
    qed
  qed
qed


section \<open>The cores of a job in the cluster\<close>

text \<open>
  The positions of the job's cores: core \<open>c\<close> of the \<open>j\<close>-th node of the job is core \<open>c\<close> of that node
  of the cluster. A job that owns whole nodes occupies all their cores.
\<close>

definition cluster_cores :: "job_resources \<Rightarrow> u16 list \<Rightarrow> nat list \<Rightarrow> nat set" where
  "cluster_cores jr bpn ids = {sum_list (map unat (take (ids ! j) bpn)) + c |j c.
     j < length ids \<and> c < unat (bpn ! (ids ! j)) \<and> (whole_node jr = 1 \<or> first_core jr j + c \<in> job_cores jr)}"

lemma all_marks_Union:
  "all_marks jr offs bpn job_bit ids = (\<Union>j<length ids.
     node_marks jr (unat (offs ! (ids ! j))) (job_bit + sum_list (map (\<lambda>i. unat (bpn ! i)) (take j ids))) (unat (bpn ! (ids ! j))))"
proof (induction ids arbitrary: job_bit)
  case (Cons i ids)
  have u: "(\<Union>j<Suc n. f j) = f 0 \<union> (\<Union>j<n. f (Suc j))" for n and f :: "nat \<Rightarrow> nat set"
    by (auto simp: lessThan_Suc_eq_insert_0)
  show ?case unfolding length_Cons u by (simp add: Cons.IH add.assoc)
qed simp

text \<open>The job and the tables of the cluster agree on the number of cores of the job's nodes.\<close>

definition job_in_cluster :: "node_record list \<Rightarrow> u16 list \<Rightarrow> u32 list \<Rightarrow> job_resources \<Rightarrow> bitstr \<Rightarrow> bool" where
  "job_in_cluster node_table bpn offs jr nb \<longleftrightarrow>
     (\<exists>fast. cr_init_global_core_data node_table fast = Some (bpn, offs)) \<and> sum_list (map unat bpn) \<le> 0x40000000 \<and>
     jr_ok jr \<and> node_bitmap jr = Some nb \<and> bitstr_wf nb \<and> (\<forall>i \<in> bits_of nb. i < length node_table) \<and>
     widths jr = map (\<lambda>i. unat (bpn ! i)) (node_ids nb)"

lemma ids_from_first:
  assumes "bitstr_wf nb"
  shows "\<exists>r. bit_ffs nb = Some r \<and> ids_from nb (nat r) = node_ids nb"
proof -
  obtain r where r: "bit_ffs nb = Some r" "first_bit True nb r" using bit_ffs_Some [OF assms] by blast
  have "\<forall>j < nat r. j \<notin> bits_of nb" "nat r \<le> bs_bits nb"
    using r(2) by (auto simp: first_bit_def nat_less_iff intro: less_imp_le [OF bits_of_bound] split: if_splits)
  then have "filter (\<lambda>i. i \<in> bits_of nb) ([0..<nat r] @ [nat r..<bs_bits nb]) = ids_from nb (nat r)"
    by (simp add: ids_from_def)
  moreover have "[0..<nat r] @ [nat r..<bs_bits nb] = [0..<bs_bits nb]"
    using \<open>nat r \<le> bs_bits nb\<close> by (metis le_add_diff_inverse upt_add_eq_append zero_le)
  ultimately show ?thesis using r(1) node_ids_filter [of nb] by auto
qed

lemma job_marks:
  assumes "job_in_cluster node_table bpn offs jr nb" and "bitstr_wf full" and "bs_bits full = sum_list (map unat bpn)"
  shows "marks_ok jr offs bpn full 0 (node_ids nb)" and "all_marks jr offs bpn 0 (node_ids nb) = cluster_cores jr bpn (node_ids nb)"
proof -
  have a: "offs = cr_offsets 0 bpn" "length bpn = length node_table" "sum_list (map unat bpn) < 2 ^ 32"
    "\<forall>i \<in> bits_of nb. i < length node_table" "jr_ok jr" "widths jr = map (\<lambda>i. unat (bpn ! i)) (node_ids nb)"
    using assms(1) by (auto simp: job_in_cluster_def cr_init_global_core_data_def assertC_def Let_def split: if_splits)
  have off: "unat (offs ! i) = sum_list (map unat (take i bpn))" if "i \<in> bits_of nb" for i
    using cr_offsets_nth [of 0 bpn i] a that by auto
  have "unat (offs ! i) + unat (bpn ! i) \<le> bs_bits full" if "i \<in> bits_of nb" for i
  proof -
    have i: "i < length bpn" using that a(2,4) by simp
    have "sum_list (map unat bpn) = sum_list (map unat (take (Suc i) bpn)) + sum_list (map unat (drop (Suc i) bpn))"
      by (metis append_take_drop_id map_append sum_list_append)
    then show ?thesis using off [OF that] i assms(3) by (simp add: take_Suc_conv_app_nth)
  qed
  moreover obtain b where "core_bitmap jr = Some b" "bitstr_wf b" "bs_bits b = sum_list (widths jr)" using a(5) by (rule jr_okE)
  ultimately show "marks_ok jr offs bpn full 0 (node_ids nb)"
    using a assms(2) by (auto simp: marks_ok_def length_cr_offsets)
  have "first_core jr j = sum_list (map (\<lambda>i. unat (bpn ! i)) (take j (node_ids nb)))" for j
    using a(6) by (simp add: first_core_def take_map)
  moreover have "unat (offs ! (node_ids nb ! j)) = sum_list (map unat (take (node_ids nb ! j) bpn))" if "j < length (node_ids nb)" for j
    using off [of "node_ids nb ! j"] nth_mem [OF that] by simp
  ultimately show "all_marks jr offs bpn 0 (node_ids nb) = cluster_cores jr bpn (node_ids nb)"
    unfolding all_marks_Union cluster_cores_def by (auto simp: node_marks_def)
qed

lemma mark_job_Some:
  assumes "job_in_cluster node_table bpn offs jr nb" and "bitstr_wf full" and "bs_bits full = sum_list (map unat bpn)"
  shows "\<exists>full'. mark_job v n offs jr (Some full) bpn = Some (Some full') \<and> bitstr_wf full' \<and> bs_bits full' = bs_bits full \<and>
    bits_of full' = (if v then bits_of full \<union> cluster_cores jr bpn (node_ids nb) else bits_of full - cluster_cores jr bpn (node_ids nb))"
proof -
  have j: "bitstr_wf nb" "node_bitmap jr = Some nb" "core_bitmap jr \<noteq> None" using assms(1) by (auto simp: job_in_cluster_def elim: jr_okE)
  obtain r where r: "bit_ffs nb = Some r" "ids_from nb (nat r) = node_ids nb" using ids_from_first [OF j(1)] by blast
  note m = job_marks [OF assms]
  have "length (node_ids nb) = length (ids_from nb (nat r))" using r(2) by simp
  from mark_nodes_Some [OF j(1) this, of jr offs bpn full 0 v] m show ?thesis
    unfolding r(2) using j r(1) by (auto simp: mark_job_def abort_simps length_node_ids)
qed

lemma fits_Some:
  assumes "job_in_cluster node_table bpn offs jr nb" and "bitstr_wf full" and "bs_bits full = sum_list (map unat bpn)"
  shows "job_fits_into_cores offs jr (Some full) bpn = Some (if bits_of full \<inter> cluster_cores jr bpn (node_ids nb) = {} then 1 else 0)"
proof -
  have j: "bitstr_wf nb" "node_bitmap jr = Some nb" using assms(1) by (auto simp: job_in_cluster_def)
  obtain r where r: "bit_ffs nb = Some r" "ids_from nb (nat r) = node_ids nb" using ids_from_first [OF j(1)] by blast
  note m = job_marks [OF assms]
  have "length (node_ids nb) = length (ids_from nb (nat r))" using r(2) by simp
  from fits_nodes_Some [OF j(1) this, of jr offs bpn full 0] m show ?thesis
    unfolding r(2) using j r(1) by (simp add: job_fits_into_cores_def abort_simps length_node_ids)
qed

text \<open>
  C11: In the bitmap of all cores of the cluster a job occupies a set of positions given by its nodes
  and cores. \<^verbatim>\<open>job_fits_into_cores\<close> says whether these positions are free, \<^verbatim>\<open>add_job_to_cores\<close> adds them
  and \<^verbatim>\<open>remove_job_from_cores\<close> takes them away. For a job that fits, removing it after adding it
  restores the bitmap.
\<close>

theorem job_cores_in_cluster:
  assumes "job_in_cluster node_table bpn offs jr nb" and "bitstr_wf full" and "bs_bits full = sum_list (map unat bpn)"
  shows "job_fits_into_cores offs jr (Some full) bpn =
      Some (if bits_of full \<inter> cluster_cores jr bpn (node_ids nb) = {} then 1 else 0) \<and>
    (\<exists>b1. add_job_to_cores n offs jr (Some full) bpn = Some (Some b1) \<and> bitstr_wf b1 \<and> bs_bits b1 = bs_bits full \<and>
       bits_of b1 = bits_of full \<union> cluster_cores jr bpn (node_ids nb) \<and>
       (\<exists>b2. remove_job_from_cores n offs jr (Some b1) bpn = Some (Some b2) \<and> bitstr_wf b2 \<and> bs_bits b2 = bs_bits full \<and>
          bits_of b2 = bits_of full - cluster_cores jr bpn (node_ids nb) \<and>
          (job_fits_into_cores offs jr (Some full) bpn = Some 1 \<longrightarrow> bits_of b2 = bits_of full)))"
proof -
  let ?C = "cluster_cores jr bpn (node_ids nb)"
  obtain b1 where b1: "mark_job True n offs jr (Some full) bpn = Some (Some b1)" "bitstr_wf b1" "bs_bits b1 = bs_bits full"
      "bits_of b1 = bits_of full \<union> ?C"
    using mark_job_Some [OF assms, of True n] by auto
  obtain b2 where b2: "mark_job False n offs jr (Some b1) bpn = Some (Some b2)" "bitstr_wf b2" "bs_bits b2 = bs_bits b1"
      "bits_of b2 = bits_of b1 - ?C"
    using mark_job_Some [OF assms(1) b1(2), of False n] b1(3) assms(3) by auto
  have "bits_of b2 = bits_of full - ?C" using b1(4) b2(4) by auto
  moreover have "bits_of full - ?C = bits_of full" if "job_fits_into_cores offs jr (Some full) bpn = Some 1"
    using that fits_Some [OF assms] by (auto split: if_splits)
  ultimately show ?thesis
    using fits_Some [OF assms] b1 b2 unfolding add_job_to_cores_def remove_job_from_cores_def by auto
qed


definition sample_cluster :: bitstr where
  "sample_cluster = \<lparr>bs_magic = BITSTR_MAGIC, bs_bits = 13, bs_words = [1]\<rparr>"

lemma sample_in_cluster:
  "job_in_cluster sample_nodes [1, 4, 4, 1, 3] [0, 1, 5, 9, 10, 13] sample_job
     \<lparr>bs_magic = BITSTR_MAGIC, bs_bits = 5, bs_words = [0x16]\<rparr>"
proof -
  have "cr_init_global_core_data sample_nodes True = Some ([1, 4, 4, 1, 3], [0, 1, 5, 9, 10, 13])" by code_simp
  moreover have "widths sample_job = [4, 4, 3]" by (simp add: widths_def sample_job_shape width_def)
  moreover have "node_ids \<lparr>bs_magic = BITSTR_MAGIC, bs_bits = 5, bs_words = [0x16]\<rparr> = [1, 2, 4]"
    unfolding node_ids_def sample_node_bitmap(3) by simp
  ultimately show ?thesis
    unfolding job_in_cluster_def sample_node_bitmap(3) using sample_job_ok sample_node_bitmap(1,2)
    by (auto simp: sample_nodes_def)
qed

theorem job_cores_in_cluster_witness:
  "\<exists>b1 b2. add_job_to_cores 5 [0, 1, 5, 9, 10, 13] sample_job (Some sample_cluster) [1, 4, 4, 1, 3] = Some (Some b1) \<and>
     remove_job_from_cores 5 [0, 1, 5, 9, 10, 13] sample_job (Some b1) [1, 4, 4, 1, 3] = Some (Some b2) \<and>
     bits_of b2 = bits_of sample_cluster"
proof -
  have "bitstr_wf sample_cluster" "bs_bits sample_cluster = sum_list (map unat [1, 4, 4, 1, 3 :: u16])"
    by (simp_all add: sample_cluster_def bitstr_wf_def bitstr_words_def)
  moreover have "job_fits_into_cores [0, 1, 5, 9, 10, 13] sample_job (Some sample_cluster) [1, 4, 4, 1, 3] = Some 1" by code_simp
  ultimately show ?thesis
    using job_cores_in_cluster [OF sample_in_cluster, of sample_cluster 5] by blast
qed

end
