(* ===== verification/Job_Resources_Extract.thy ===== *)
theory Job_Resources_Extract
  imports Job_Resources_Build
begin

text \<open>
  Removing a node from the resources of a job (\<^verbatim>\<open>extract_job_resources_node\<close> in
  src/common/job_resources.c): the runs, the core bitmaps, the node bitmap and the arrays indexed by
  node all lose exactly this node.
\<close>

section \<open>The runs\<close>

lemma drop_list_update_eq: "i < k \<Longrightarrow> drop k (xs[i := x]) = drop k xs"
  by simp

lemma drop_same_take:
  assumes "take (Suc i) ys = take (Suc i) xs" and "i < length xs" and "length ys = length xs"
  shows "drop i ys = xs ! i # drop (Suc i) ys"
proof -
  have "ys ! i = xs ! i" by (metis assms(1) lessI nth_take)
  then show ?thesis using assms(2,3) by (simp add: Cons_nth_drop_Suc [symmetric])
qed

lemma shift_runs_Some:
  assumes "length ss = length rr" "length cc = length rr" "i < length rr" and "covers (drop (Suc i) rr) h"
  shows "\<exists>ss' cc' rr'. shift_runs (ss, cc, rr) i (int h) = Some (ss', cc', rr') \<and>
    length ss' = length rr \<and> length cc' = length rr \<and> length rr' = length rr \<and>
    take i ss' = take i ss \<and> take i cc' = take i cc \<and> take i rr' = take i rr \<and>
    covers (drop i rr') h \<and>
    take h (expand (drop i (zip ss' cc')) (drop i rr')) = take h (expand (drop (Suc i) (zip ss cc)) (drop (Suc i) rr))"
  using assms
proof (induction "length rr - i" arbitrary: ss cc rr i h rule: less_induct)
  case less
  show ?case
  proof (cases "h = 0")
    case True
    have "covers l 0" for l by (cases l) auto
    then show ?thesis using True less.prems by (auto simp: shift_runs.simps)
  next
    case False
    let ?r = "rr ! Suc i"
    have len: "Suc i < length rr" using less.prems(4) False by (cases "Suc i < length rr") auto
    have dr: "drop (Suc i) rr = ?r # drop (Suc (Suc i)) rr" using len by (simp add: Cons_nth_drop_Suc)
    have cov: "0 < unat ?r" "unat ?r \<le> h" "covers (drop (Suc (Suc i)) rr) (h - unat ?r)"
      using less.prems(4) False unfolding dr by auto
    let ?ss = "ss[i := ss ! Suc i]" and ?cc = "cc[i := cc ! Suc i]" and ?rr = "rr[i := ?r]"
    have step: "shift_runs (ss, cc, rr) i (int h) = shift_runs (?ss, ?cc, ?rr) (Suc i) (int (h - unat ?r))"
      using False len less.prems(1,2) cov(2) by (subst shift_runs.simps) (simp add: of_nat_diff)
    have dec: "length rr - Suc i < length rr - i" using len by simp
    obtain ss' cc' rr' where IH: "shift_runs (?ss, ?cc, ?rr) (Suc i) (int (h - unat ?r)) = Some (ss', cc', rr')"
      "length ss' = length rr" "length cc' = length rr" "length rr' = length rr"
      "take (Suc i) ss' = take (Suc i) ?ss" "take (Suc i) cc' = take (Suc i) ?cc" "take (Suc i) rr' = take (Suc i) ?rr"
      "covers (drop (Suc i) rr') (h - unat ?r)"
      "take (h - unat ?r) (expand (drop (Suc i) (zip ss' cc')) (drop (Suc i) rr')) =
        take (h - unat ?r) (expand (drop (Suc (Suc i)) (zip ss cc)) (drop (Suc (Suc i)) rr))"
      using less.hyps [of ?rr "Suc i" ?ss ?cc "h - unat ?r"] less.prems(1-3) len cov(3) dec by (auto simp: drop_zip)
    have d: "drop i rr' = ?r # drop (Suc i) rr'" "drop i ss' = ss ! Suc i # drop (Suc i) ss'" "drop i cc' = cc ! Suc i # drop (Suc i) cc'"
      using drop_same_take [OF IH(7)] drop_same_take [OF IH(5)] drop_same_take [OF IH(6)] IH(2-4) less.prems(1-3) by simp_all
    have z: "drop i (zip ss' cc') = (ss ! Suc i, cc ! Suc i) # drop (Suc i) (zip ss' cc')" using d(2,3) by (simp add: drop_zip)
    have z0: "drop (Suc i) (zip ss cc) = (ss ! Suc i, cc ! Suc i) # drop (Suc (Suc i)) (zip ss cc)"
      using len less.prems(1,2) by (simp add: Cons_nth_drop_Suc [symmetric])
    have "take i ss' = take i ss" "take i cc' = take i cc" "take i rr' = take i rr"
      using IH(5-7) by (metis (no_types) min_def le_SucI order_refl take_take take_update_cancel)+
    moreover have "covers (drop i rr') h" unfolding d(1) using cov(1,2) IH(8) by simp
    moreover have "take h (expand (drop i (zip ss' cc')) (drop i rr')) = take h (expand (drop (Suc i) (zip ss cc)) (drop (Suc i) rr))"
      unfolding d(1) z z0 dr using cov(2) IH(9) by simp
    ultimately show ?thesis using step IH(1-4) by metis
  qed
qed


text \<open>The node is in run \<open>k\<close>, which gets shorter or disappears.\<close>

lemma take_from_run:
  assumes len: "length ss = length rr" "length cc = length rr" "k < length rr"
    and "covers (drop k rr) n" and j: "j < unat (rr ! k)" "j < n"
  shows "\<exists>ss' cc' rr'.
    (if rr ! k - 1 = 0 then shift_runs (ss, cc, rr[k := rr ! k - 1]) k (int (n - unat (rr ! k)))
     else Some (ss, cc, rr[k := rr ! k - 1])) = Some (ss', cc', rr') \<and>
    length ss' = length rr \<and> length cc' = length rr \<and> length rr' = length rr \<and>
    take k ss' = take k ss \<and> take k cc' = take k cc \<and> take k rr' = take k rr \<and> covers (drop k rr') (n - 1) \<and>
    take (n - 1) (expand (drop k (zip ss' cc')) (drop k rr')) = remove_nth j (take n (expand (drop k (zip ss cc)) (drop k rr)))"
proof -
  let ?r = "unat (rr ! k)" and ?v = "(ss ! k, cc ! k)"
  let ?E' = "expand (drop (Suc k) (zip ss cc)) (drop (Suc k) rr)"
  have z: "drop k (zip ss cc) = ?v # drop (Suc k) (zip ss cc)" using len by (simp add: Cons_nth_drop_Suc [symmetric])
  have dr: "drop k rr = rr ! k # drop (Suc k) rr" using len by (simp add: Cons_nth_drop_Suc)
  have r: "0 < ?r" "?r \<le> n" "covers (drop (Suc k) rr) (n - ?r)" using assms(4) j(2) unfolding dr by auto
  have un: "unat (rr ! k - 1) = ?r - 1" using r(1) by (simp add: unat_minus_one unat_gt_0)
  have "j + (?r - Suc j) = ?r - 1" using j by simp
  then have "replicate j ?v @ replicate (?r - Suc j) ?v = replicate (?r - 1) ?v" by (metis replicate_add)
  then have rn: "remove_nth j (take n (expand (drop k (zip ss cc)) (drop k rr))) = replicate (?r - 1) ?v @ take (n - ?r) ?E'"
    unfolding z dr using j r(2) by (simp add: remove_nth_def min_def)
  show ?thesis
  proof (cases "?r = 1")
    case True
    then have 1: "rr ! k - 1 = 0" using un by (simp add: unat_eq_0 [symmetric])
    show ?thesis
      unfolding rn using shift_runs_Some [of ss "rr[k := 0]" cc k "n - 1"] len r(3) True 1 by auto
  next
    case False
    then have 1: "rr ! k - 1 \<noteq> 0" using un r(1) by (simp add: unat_eq_0 [symmetric])
    have d: "drop k (rr[k := rr ! k - 1]) = (rr ! k - 1) # drop (Suc k) rr" using len by (simp add: drop_update_swap dr)
    have m1: "?r - 1 \<le> n - 1" "n - 1 - (?r - 1) = n - ?r" "0 < ?r - 1" using r(1,2) False by auto
    have "covers (drop k (rr[k := rr ! k - 1])) (n - 1)" unfolding d using m1 un r(3) by simp
    moreover have "take (n - 1) (expand (drop k (zip ss cc)) (drop k (rr[k := rr ! k - 1]))) = replicate (?r - 1) ?v @ take (n - ?r) ?E'"
      unfolding d z using m1 un by simp
    ultimately show ?thesis unfolding rn using 1 len by simp
  qed
qed

lemma extract_runs_Some:
  assumes len: "length ss = length rr" "length cc = length rr"
    and "covers (drop k rr) n" and "j < n" and "k + n \<le> m"
    and "off + sum_list (map width (take n (expand (drop k (zip ss cc)) (drop k rr)))) < 2 ^ 31"
  shows "\<exists>ss' cc' rr'. extract_runs (ss, cc, rr) [k..<m] (int n) j off =
      Some ((ss', cc', rr'), off + sum_list (map width (take j (expand (drop k (zip ss cc)) (drop k rr)))),
            width (expand (drop k (zip ss cc)) (drop k rr) ! j)) \<and>
    length ss' = length rr \<and> length cc' = length rr \<and> length rr' = length rr \<and>
    take k ss' = take k ss \<and> take k cc' = take k cc \<and> take k rr' = take k rr \<and> covers (drop k rr') (n - 1) \<and>
    take (n - 1) (expand (drop k (zip ss' cc')) (drop k rr')) = remove_nth j (take n (expand (drop k (zip ss cc)) (drop k rr)))"
  using assms(3-)
proof (induction "m - k" arbitrary: k n off j)
  case 0
  then show ?case by simp
next
  case (Suc d)
  have k: "k < m" "k < length rr" "k < length ss" "k < length cc" using Suc.hyps(2) Suc.prems(2) len covers_length [OF Suc.prems(1)] by auto
  let ?r = "unat (rr ! k)" and ?v = "(ss ! k, cc ! k)" and ?w = "unat (ss ! k) * unat (cc ! k)"
  let ?E' = "expand (drop (Suc k) (zip ss cc)) (drop (Suc k) rr)"
  have w: "width ?v = ?w" by (simp add: width_def)
  have E: "expand (drop k (zip ss cc)) (drop k rr) = replicate ?r ?v @ ?E'"
    using k len by (subst expand_drop) auto
  have dr: "drop k rr = rr ! k # drop (Suc k) rr" using k(2) by (simp add: Cons_nth_drop_Suc)
  have r: "0 < ?r" "?r \<le> n" "covers (drop (Suc k) rr) (n - ?r)" using Suc.prems(1,2) unfolding dr by auto
  have tk: "take n (replicate ?r ?v @ ?E') = replicate ?r ?v @ take (n - ?r) ?E'" using r(2) by simp
  have wd: "sum_list (map width (replicate q ?v)) = ?w * q" for q by (simp add: w sum_list_replicate_nat)
  have fit: "off + ?w * ?r + sum_list (map width (take (n - ?r) ?E')) < 2 ^ 31"
    using Suc.prems(4) unfolding E tk map_append sum_list_append wd by (simp only: add.assoc)
  have hc: "int n - int ?r = int (n - ?r)" using r(2) by simp
  show ?case
  proof (cases "?r \<le> j")
    case True
    have "int_ok (off + ?w * ?r) = Some ()" using fit by (simp add: int_ok_def)
    then have step: "extract_runs (ss, cc, rr) [k..<m] (int n) j off =
        extract_runs (ss, cc, rr) [Suc k..<m] (int (n - ?r)) (j - ?r) (off + ?w * ?r)"
      unfolding upt_conv_Cons [OF k(1)] hc [symmetric] using True k by (simp add: Let_def)
    have p: "d = m - Suc k" "j - ?r < n - ?r" "Suc k + (n - ?r) \<le> m" using Suc.hyps(2) Suc.prems(2,3) True r(1) by auto
    obtain ss' cc' rr' where IH: "extract_runs (ss, cc, rr) [Suc k..<m] (int (n - ?r)) (j - ?r) (off + ?w * ?r) =
          Some ((ss', cc', rr'), off + ?w * ?r + sum_list (map width (take (j - ?r) ?E')), width (?E' ! (j - ?r)))"
        "length ss' = length rr" "length cc' = length rr" "length rr' = length rr"
        "take (Suc k) ss' = take (Suc k) ss" "take (Suc k) cc' = take (Suc k) cc" "take (Suc k) rr' = take (Suc k) rr"
        "covers (drop (Suc k) rr') (n - ?r - 1)"
        "take (n - ?r - 1) (expand (drop (Suc k) (zip ss' cc')) (drop (Suc k) rr')) = remove_nth (j - ?r) (take (n - ?r) ?E')"
      using Suc.hyps(1) [OF p(1) r(3) p(2,3) fit] by blast
    have d: "drop k rr' = rr ! k # drop (Suc k) rr'" "drop k ss' = ss ! k # drop (Suc k) ss'" "drop k cc' = cc ! k # drop (Suc k) cc'"
      using drop_same_take [OF IH(7)] drop_same_take [OF IH(5)] drop_same_take [OF IH(6)] IH(2-4) k len by simp_all
    have z: "drop k (zip ss' cc') = ?v # drop (Suc k) (zip ss' cc')" using d(2,3) by (simp add: drop_zip)
    have tks: "take k ss' = take k ss" "take k cc' = take k cc" "take k rr' = take k rr"
      using IH(5-7) by (metis (no_types) min_def le_SucI order_refl take_take)+
    have tj: "take j (replicate ?r ?v @ ?E') = replicate ?r ?v @ take (j - ?r) ?E'" using True by simp
    have rn: "remove_nth j (replicate ?r ?v @ take (n - ?r) ?E') = replicate ?r ?v @ remove_nth (j - ?r) (take (n - ?r) ?E')"
      using True by (simp add: remove_nth_def Suc_diff_le)
    have m1: "?r \<le> n - 1" "n - 1 - ?r = n - ?r - 1" using True Suc.prems(2) by auto
    have nth: "(replicate ?r ?v @ ?E') ! j = ?E' ! (j - ?r)" using True by (simp add: nth_append)
    have "covers (drop k rr') (n - 1)" unfolding d(1) using r(1) m1 IH(8) by simp
    moreover have "take (n - 1) (expand (drop k (zip ss' cc')) (drop k rr')) = replicate ?r ?v @ remove_nth (j - ?r) (take (n - ?r) ?E')"
      unfolding d(1) z using m1 IH(9) by simp
    moreover have "off + sum_list (map width (replicate ?r ?v @ take (j - ?r) ?E')) = off + ?w * ?r + sum_list (map width (take (j - ?r) ?E'))"
      unfolding map_append sum_list_append wd by simp
    ultimately show ?thesis
      unfolding step E tk tj rn nth using IH(1-4) tks by metis
  next
    case False
    then have j: "j < ?r" by simp
    have "?w * Suc j \<le> ?w * ?r" using j by (intro mult_le_mono2) simp
    then have ok: "int_ok (off + ?w * j + ?w) = Some ()" using fit by (simp add: int_ok_def)
    obtain ss' cc' rr' where x: "(if rr ! k - 1 = 0 then shift_runs (ss, cc, rr[k := rr ! k - 1]) k (int (n - ?r))
          else Some (ss, cc, rr[k := rr ! k - 1])) = Some (ss', cc', rr')"
        "length ss' = length rr" "length cc' = length rr" "length rr' = length rr"
        "take k ss' = take k ss" "take k cc' = take k cc" "take k rr' = take k rr" "covers (drop k rr') (n - 1)"
        "take (n - 1) (expand (drop k (zip ss' cc')) (drop k rr')) = remove_nth j (take n (expand (drop k (zip ss cc)) (drop k rr)))"
      using take_from_run [OF len(1,2) k(2) Suc.prems(1) j Suc.prems(2)] by blast
    have "take j (replicate ?r ?v @ ?E') = replicate j ?v" "(replicate ?r ?v @ ?E') ! j = ?v"
      using j by (simp_all add: nth_append min_def)
    then have e: "off + ?w * j = off + sum_list (map width (take j (expand (drop k (zip ss cc)) (drop k rr))))"
        "?w = width (expand (drop k (zip ss cc)) (drop k rr) ! j)"
      unfolding E by (simp_all add: wd [symmetric] w del: map_replicate)
    have "extract_runs (ss, cc, rr) [k..<m] (int n) j off = Some ((ss', cc', rr'), off + ?w * j, ?w)"
      unfolding upt_conv_Cons [OF k(1)] using False k x(1) ok unfolding hc [symmetric]
      by (cases "rr ! k = 1") (simp_all add: Let_def del: of_nat_diff)
    then show ?thesis using x(2-) e by metis
  qed
qed


section \<open>The bitmaps and arrays\<close>

lemma shift_bits_Some:
  assumes "bitstr_wf b" and "e + w \<le> bs_bits b" and "0 < w"
  shows "\<exists>b'. forM [a..<e] (\<lambda>i b. do { t \<leftarrow> bit_test b (int (i + w)); bit_put t b (int i) }) b = Some b' \<and> bitstr_wf b' \<and>
    bs_bits b' = bs_bits b \<and> bits_of b' = {p. if a \<le> p \<and> p < e then p + w \<in> bits_of b else p \<in> bits_of b}"
  using assms
proof (induction "e - a" arbitrary: a b)
  case 0
  then have "{p. if a \<le> p \<and> p < e then p + w \<in> bits_of b else p \<in> bits_of b} = bits_of b" by auto
  then show ?case using 0 by simp
next
  case (Suc d)
  have a: "a < e" "d = e - Suc a" using Suc.hyps(2) by simp_all
  have "a + w < bs_bits b" using a(1) Suc.prems(2) by simp
  then have t: "bit_test b (int (a + w)) = Some (a + w \<in> bits_of b)" by (rule bm.test_ok [OF Suc.prems(1)])
  have "a < bs_bits b" using a(1) Suc.prems(2) by simp
  from bm.put_ok [OF Suc.prems(1) this, of "a + w \<in> bits_of b"] obtain b1 where b1:
      "bit_put (a + w \<in> bits_of b) b (int a) = Some b1" "bitstr_wf b1" "bs_bits b1 = bs_bits b"
      "bits_of b1 = (if a + w \<in> bits_of b then insert a (bits_of b) else bits_of b - {a})" by blast
  obtain b' where b': "forM [Suc a..<e] (\<lambda>i b. do { t \<leftarrow> bit_test b (int (i + w)); bit_put t b (int i) }) b1 = Some b'"
      "bitstr_wf b'" "bs_bits b' = bs_bits b1"
      "bits_of b' = {p. if Suc a \<le> p \<and> p < e then p + w \<in> bits_of b1 else p \<in> bits_of b1}"
    using Suc.hyps(1) [OF a(2) b1(2) _ Suc.prems(3)] Suc.prems(2) b1(3) by auto
  have "forM [a..<e] (\<lambda>i b. do { t \<leftarrow> bit_test b (int (i + w)); bit_put t b (int i) }) b = Some b'"
    unfolding upt_conv_Cons [OF a(1)] using t b1(1) b'(1) by (simp del: of_nat_add)
  moreover have "bits_of b' = {p. if a \<le> p \<and> p < e then p + w \<in> bits_of b else p \<in> bits_of b}"
  proof (rule set_eqI)
    fix p
    have m: "q \<in> bits_of b1 \<longleftrightarrow> (if q = a then a + w \<in> bits_of b else q \<in> bits_of b)" for q unfolding b1(4) by simp
    show "p \<in> bits_of b' \<longleftrightarrow> p \<in> {p. if a \<le> p \<and> p < e then p + w \<in> bits_of b else p \<in> bits_of b}"
      unfolding b'(4) mem_Collect_eq m using a(1) by (cases "p = a") auto
  qed
  ultimately show ?case using b'(2,3) b1(3) by auto
qed

lemma cut_cores_Some:
  assumes "bitstr_wf b" and "a + w \<le> bs_bits b" and "0 < w"
  shows "\<exists>b'. cut_cores a w (bs_bits b) b = Some b' \<and> bitstr_wf b' \<and> bs_bits b' = bs_bits b - w \<and>
    bits_of b' = {p. if p < a then p \<in> bits_of b else p + w \<in> bits_of b}"
proof -
  let ?e = "bs_bits b - w"
  obtain b1 where b1: "shift_bits a w (bs_bits b) b = Some b1" "bitstr_wf b1" "bs_bits b1 = bs_bits b"
      "bits_of b1 = {p. if a \<le> p \<and> p < ?e then p + w \<in> bits_of b else p \<in> bits_of b}"
    using shift_bits_Some [OF assms(1) _ assms(3), of ?e a] assms(2) unfolding shift_bits_def by auto
  have e: "int (bs_bits b) - int w = int ?e" using assms(2) by simp
  have "?e \<le> bs_bits b1" using b1(3) by simp
  from bit_realloc_shrink [OF b1(2) this] obtain b' where b': "bit_realloc b1 (int ?e) = Some b'" "bitstr_wf b'" "bs_bits b' = ?e"
      "bits_of b' = {i \<in> bits_of b1. i < ?e}" by blast
  have "bits_of b' = {p. if p < a then p \<in> bits_of b else p + w \<in> bits_of b}"
  proof (rule set_eqI)
    fix p
    show "p \<in> bits_of b' \<longleftrightarrow> p \<in> {p. if p < a then p \<in> bits_of b else p + w \<in> bits_of b}"
      unfolding b'(4) b1(4) mem_Collect_eq using assms(2) bits_of_bound [of "p + w" b] by (cases "p < a") auto
  qed
  moreover have "cut_cores a w (bs_bits b) b = Some b'" unfolding cut_cores_def e b1(1) using b'(1) by simp
  ultimately show ?thesis using b'(2,3) by blast
qed

lemma clear_nth_node_Some:
  assumes "bitstr_wf nb" and "\<forall>i \<in> set js. i < bs_bits nb" and "n \<le> k" and "k - n < length (filter (\<lambda>i. i \<in> bits_of nb) js)"
  shows "clear_nth_node js k n nb = (case bit_clear nb (int (filter (\<lambda>i. i \<in> bits_of nb) js ! (k - n))) of
    None \<Rightarrow> None | Some nb' \<Rightarrow> Some (int k, nb'))"
  using assms(2-)
proof (induction js arbitrary: n)
  case (Cons i js)
  have t: "bit_test nb (int i) = Some (i \<in> bits_of nb)" using Cons.prems(1) assms(1) by (simp add: bm.test_ok)
  consider "i \<notin> bits_of nb" | "i \<in> bits_of nb" "n = k" | "i \<in> bits_of nb" "n < k" using Cons.prems(2) by linarith
  then show ?case
  proof cases
    case 1
    then show ?thesis using t Cons by simp
  next
    case 2
    then show ?thesis using t by (simp split: option.splits)
  next
    case 3
    then obtain d where "k - n = Suc d" "k - Suc n = d" by (metis Suc_diff_Suc)
    then show ?thesis using t Cons.IH [of "Suc n"] Cons.prems 3 by simp
  qed
qed simp

lemma shift_array_Some:
  assumes "k \<le> n" and "n < length xs"
  shows "\<exists>ys. shift_array k n (Some xs) = Some (Some ys) \<and> length ys = length xs \<and> take n ys = remove_nth k (take (Suc n) xs)"
  using assms unfolding shift_array_def
proof (induction "n - k" arbitrary: k xs)
  case 0
  then show ?case by (simp add: remove_nth_def)
next
  case (Suc d)
  have k: "k < n" "d = n - Suc k" using Suc.hyps(2) by simp_all
  let ?xs = "xs[k := xs ! Suc k]"
  obtain ys where ys: "forM [Suc k..<n] (\<lambda>i p. do { v \<leftarrow> deref p (i + 1); store p i v }) (Some ?xs) = Some (Some ys)"
      "length ys = length xs" "take n ys = remove_nth (Suc k) (take (Suc n) ?xs)"
    using Suc.hyps(1) [of "Suc k" ?xs] k Suc.prems(2) by auto
  have l: "min (length xs) (Suc n) = Suc n" using Suc.prems(2) by simp
  have "remove_nth (Suc k) (take (Suc n) ?xs) = remove_nth k (take (Suc n) xs)"
  proof (rule nth_equalityI)
    show "length (remove_nth (Suc k) (take (Suc n) ?xs)) = length (remove_nth k (take (Suc n) xs))"
      using k(1) Suc.prems(2) l by (simp add: remove_nth_def)
    fix i
    assume "i < length (remove_nth (Suc k) (take (Suc n) ?xs))"
    then show "remove_nth (Suc k) (take (Suc n) ?xs) ! i = remove_nth k (take (Suc n) xs) ! i"
      using k(1) Suc.prems(2) by (cases "i < k"; cases "i = k") (auto simp: remove_nth_def nth_append l)
  qed
  then show ?case
    unfolding upt_conv_Cons [OF k(1)] using ys k(1) Suc.prems(2) by simp
qed


section \<open>The whole operation\<close>

lemma jr_ok_cong:
  assumes "sockets_per_node a = sockets_per_node b" "cores_per_socket a = cores_per_socket b"
    "sock_core_rep_count a = sock_core_rep_count b" "nhosts a = nhosts b"
  shows "shape a = shape b" and "core_bitmap a = core_bitmap b \<Longrightarrow> jr_ok a = jr_ok b"
proof -
  show "shape a = shape b" using assms by (simp add: shape_def split: option.split)
  then show "core_bitmap a = core_bitmap b \<Longrightarrow> jr_ok a = jr_ok b" using assms by (simp add: jr_ok_def widths_def split: option.split)
qed

lemma ids_between:
  assumes "bitstr_wf nb" and "bits_of nb \<noteq> {}"
  shows "\<exists>r l. bit_ffs nb = Some r \<and> 0 \<le> r \<and> bit_fls nb = Some l \<and> (\<forall>i \<in> set [nat r..<nat (l + 1)]. i < bs_bits nb) \<and>
    filter (\<lambda>i. i \<in> bits_of nb) [nat r..<nat (l + 1)] = node_ids nb"
proof -
  obtain r where r: "bit_ffs nb = Some (int r)" "\<forall>j < r. j \<notin> bits_of nb"
    using bit_ffs_Some [OF assms(1)] assms(2) bits_of_bound by (force simp: first_bit_def split: if_splits)
  obtain l where l: "bit_fls nb = Some (int l)" "l \<in> bits_of nb" "\<forall>j \<in> bits_of nb. j \<le> l"
    using bit_fls_Some [OF assms(1)] assms(2) by (auto simp: last_bit_def)
  let ?f = "filter (\<lambda>i. i \<in> bits_of nb) [r..<Suc l]"
  have "set ?f = bits_of nb" using r(2) l(3) by (auto simp: not_less [symmetric] less_Suc_eq_le)
  moreover have "sorted ?f" by (intro sorted_wrt_filter sorted_upt)
  moreover have "distinct ?f" by (intro distinct_filter distinct_upt)
  ultimately have "?f = node_ids nb" unfolding node_ids_def by (metis sorted_list_of_set.idem_if_sorted_distinct)
  moreover have "nat (int l + 1) = Suc l" by simp
  ultimately show ?thesis using r(1) l(1) bits_of_bound [OF l(2)] by (intro exI [of _ "int r"] exI [of _ "int l"]) (auto simp: less_Suc_eq_le)
qed

lemma clear_node_Some:
  assumes "bitstr_wf nb" and "k < card (bits_of nb)"
  shows "\<exists>r l nb'. bit_ffs nb = Some r \<and> 0 \<le> r \<and> bit_fls nb = Some l \<and>
    clear_nth_node [nat r..<nat (l + 1)] k 0 nb = Some (int k, nb') \<and> bitstr_wf nb' \<and> bits_of nb' = bits_of nb - {node_ids nb ! k}"
proof -
  have "bits_of nb \<noteq> {}" using assms(2) by auto
  from ids_between [OF assms(1) this] obtain r l where rl: "bit_ffs nb = Some r" "0 \<le> r" "bit_fls nb = Some l"
    "\<forall>i \<in> set [nat r..<nat (l + 1)]. i < bs_bits nb" "filter (\<lambda>i. i \<in> bits_of nb) [nat r..<nat (l + 1)] = node_ids nb" by blast
  have k: "k < length (node_ids nb)" using assms(2) by (simp add: length_node_ids)
  then have "node_ids nb ! k < bs_bits nb" using bits_of_bound nth_mem [OF k] by auto
  from bm.put_ok [OF assms(1) this, of False, unfolded bit_put_eq] obtain nb' where
    nb': "bit_clear nb (int (node_ids nb ! k)) = Some nb'" "bitstr_wf nb'" "bits_of nb' = bits_of nb - {node_ids nb ! k}" by auto
  have "clear_nth_node [nat r..<nat (l + 1)] k 0 nb = Some (int k, nb')"
    using clear_nth_node_Some [OF assms(1) rl(4), of 0 k] k nb'(1) unfolding rl(5) by simp
  then show ?thesis using rl(1-3) nb'(2,3) by blast
qed

lemma extract_runs_job:
  assumes "jr_ok jr" and "i < unat (nhosts jr)"
    and "sockets_per_node jr = Some ss" "cores_per_socket jr = Some cc" "sock_core_rep_count jr = Some rr"
  shows "\<exists>ss' cc' rr'. extract_runs (ss, cc, rr) [0..<unat (nhosts jr)] (int (unat (nhosts jr))) i 0 =
      Some ((ss', cc', rr'), first_core jr i, widths jr ! i) \<and>
    length ss' = length rr' \<and> length cc' = length rr' \<and>
    covers rr' (unat (nhosts jr) - 1) \<and> take (unat (nhosts jr) - 1) (expand (zip ss' cc') rr') = remove_nth i (shape jr)"
  using assms(1)
proof (rule jr_okE)
  let ?n = "unat (nhosts jr)" and ?E = "expand (zip ss cc) rr"
  fix ss2 cc2 rr2 b
  assume "sockets_per_node jr = Some ss2" "cores_per_socket jr = Some cc2" "sock_core_rep_count jr = Some rr2"
    and jr: "length ss2 = length rr2" "length cc2 = length rr2" "covers rr2 ?n"
    and b: "bitstr_wf b" "bs_bits b = sum_list (widths jr)"
  then have e: "ss2 = ss" "cc2 = cc" "rr2 = rr" using assms(3-5) by auto
  note jr = jr [unfolded e]
  have sh: "shape jr = take ?n ?E" using assms(3-5) by (simp add: shape_def)
  have "0 + sum_list (map width (take ?n (expand (drop 0 (zip ss cc)) (drop 0 rr)))) < 2 ^ 31"
    using b sh by (simp add: widths_def bitstr_wf_def)
  from extract_runs_Some [where m = ?n, OF jr(1,2) _ assms(2) _ this] jr(3) obtain ss' cc' rr' where x:
    "extract_runs (ss, cc, rr) [0..<?n] (int ?n) i 0 = Some ((ss', cc', rr'), sum_list (map width (take i ?E)), width (?E ! i))"
    "length ss' = length rr" "length cc' = length rr" "length rr' = length rr" "covers rr' (?n - 1)"
    "take (?n - 1) (expand (zip ss' cc') rr') = remove_nth i (take ?n ?E)" by auto
  have "?n \<le> length ?E" using jr by (intro covers_expand) simp_all
  then have "first_core jr i = sum_list (map width (take i ?E))" "widths jr ! i = width (?E ! i)"
    using assms(2) by (simp_all add: first_core_def widths_def sh take_map min_def)
  then show ?thesis using x sh by auto
qed


lemma shift_array_job:
  assumes "length xs = n" and "i < n"
  shows "\<exists>ys. shift_array i (n - 1) (Some xs) = Some (Some ys) \<and> length ys = n \<and> take (n - 1) ys = remove_nth i xs"
proof -
  have "i \<le> n - 1" "n - 1 < length xs" "Suc (n - 1) = n" using assms by auto
  then show ?thesis using shift_array_Some [of i "n - 1" xs] assms(1) by simp
qed

text \<open>The CPU total over the nodes, of which there may be none.\<close>

lemma cpu_array_total:
  assumes "cpus jr = Some cp" and "unat (nhosts jr) \<le> length cp" and "sum_list (map unat (take (unat (nhosts jr)) cp)) < 2 ^ 31"
  shows "\<exists>k v r. build_job_resources_cpu_array jr = Some (int (sum_list (map unat (take (unat (nhosts jr)) cp))),
    jr\<lparr>cpu_array_cnt := k, cpu_array_value := v, cpu_array_reps := r\<rparr>)"
proof (cases "nhosts jr = 0")
  case True
  then have "build_job_resources_cpu_array jr = Some (int (sum_list (map unat (take (unat (nhosts jr)) cp))),
      jr\<lparr>cpu_array_cnt := cpu_array_cnt jr, cpu_array_value := cpu_array_value jr, cpu_array_reps := cpu_array_reps jr\<rparr>)"
    by (simp add: build_job_resources_cpu_array_def)
  then show ?thesis by blast
next
  case False
  from cpu_array_built [OF this assms] show ?thesis by blast
qed

lemma extract_cuts_cores:
  assumes "jr_ok jr" and "i < unat (nhosts jr)" and "bitstr_wf b" and "bs_bits b = sum_list (widths jr)"
  shows "\<exists>b'. cut_cores (first_core jr i) (widths jr ! i) (bs_bits b) b = Some b' \<and> bitstr_wf b' \<and>
    bs_bits b' = sum_list (remove_nth i (widths jr)) \<and>
    bits_of b' = {p. if p < first_core jr i then p \<in> bits_of b else p + widths jr ! i \<in> bits_of b}"
proof -
  have l: "i < length (widths jr)" using assms(1,2) by (simp add: length_widths)
  have "\<forall>w \<in> set (widths jr). 0 < w" using assms(1) by (rule jr_okE)
  then have "0 < widths jr ! i" using l by simp
  moreover have "sum_list (widths jr) - widths jr ! i = sum_list (remove_nth i (widths jr))" using remove_nth_sum [OF l] by simp
  ultimately show ?thesis using cut_cores_Some [OF assms(3), of "first_core jr i" "widths jr ! i"] first_core_end [OF l] assms(4) by simp
qed




end
