(* ===== verification/Job_Resources_Copy.thy ===== *)
theory Job_Resources_Copy
  imports Job_Resources_Build
begin

text \<open>
  Copying the resources of a job (\<^verbatim>\<open>copy_job_resources\<close> in src/common/job_resources.c). Only the runs
  of the job's nodes are copied, so the copy has none left over.
\<close>

lemma copy_runs_Some:
  assumes "covers (drop i rr) (n - s)" and "i \<le> s" and "s < n"
  shows "copy_runs (Some rr) n i s = Some (i + run_cnt (drop i rr) (n - s))"
  using assms
proof (induction "n - i" arbitrary: i s rule: less_induct)
  case less
  let ?r = "unat (rr ! i)"
  have l: "i < length rr" using covers_length [OF less.prems(1)] less.prems(3) by simp
  have dr: "drop i rr = rr ! i # drop (Suc i) rr" using l by (simp add: Cons_nth_drop_Suc)
  have r: "0 < ?r" "?r \<le> n - s" "covers (drop (Suc i) rr) (n - s - ?r)" using less.prems(1,3) unfolding dr by auto
  have ne: "rr ! i \<noteq> 0" using r(1) by auto
  show ?case
  proof (cases "n \<le> s + ?r")
    case True
    then show ?thesis using less.prems(2,3) l ne r(2) by (simp add: copy_runs.simps [of _ n i] dr)
  next
    case False
    have "copy_runs (Some rr) n (i + 1) (s + ?r) = Some (i + 1 + run_cnt (drop (i + 1) rr) (n - (s + ?r)))"
      by (rule less.hyps) (use less.prems(2,3) r False in auto)
    then show ?thesis using less.prems(2,3) l ne False by (simp add: copy_runs.simps [of _ n i] dr)
  qed
qed

lemma copy_prefix_Some: "k \<le> length xs \<Longrightarrow> k \<le> n \<Longrightarrow> copy_prefix (Some xs) k n = Some (Some (take k xs @ replicate (n - k) 0))"
  by (simp add: copy_prefix_def)

lemma copy_array_Some: "n \<le> length xs \<Longrightarrow> copy_array (Some xs) n = Some (Some (take n xs))"
  by (simp add: copy_array_def copy_prefix_Some)

lemma copy_bitmap_Some: "bitstr_wf b \<Longrightarrow> copy_bitmap (Some b) = Some (Some (b\<lparr>bs_magic := BITSTR_MAGIC\<rparr>))"
  by (simp add: copy_bitmap_def abort_simps)

lemma magic_update [simp]:
  "bitstr_wf b \<Longrightarrow> bitstr_wf (b\<lparr>bs_magic := BITSTR_MAGIC\<rparr>)" "bits_of (b\<lparr>bs_magic := BITSTR_MAGIC\<rparr>) = bits_of b"
  by (simp_all add: bitstr_wf_def bits_of_def)

text \<open>
  The copy of a valid structure is valid, describes the same nodes with the same shapes and has
  the same cores, CPU counts and memory. It has no runs left over from nodes that were removed. The
  node names are not copied.
\<close>

theorem copy_job_resources_ok:
  assumes "jr_ok jr" and "cpu_array_value jr = Some cv" and "cpu_array_reps jr = Some cr"
    and "unat (cpu_array_cnt jr) \<le> length cv" and "unat (cpu_array_cnt jr) \<le> length cr"
    and "core_bitmap_used jr = Some u" and "bitstr_wf u" and "node_bitmap jr = Some nb" and "bitstr_wf nb"
    and "cpus jr = Some cp" and "cpus_used jr = Some cu" and "memory_allocated jr = Some ma" and "memory_used jr = Some mu"
    and "unat (nhosts jr) \<le> length cp" "unat (nhosts jr) \<le> length cu" "unat (nhosts jr) \<le> length ma" "unat (nhosts jr) \<le> length mu"
  shows "\<exists>jr' u' nb'. copy_job_resources jr = Some jr' \<and> jr_ok jr' \<and> jr_tight jr' \<and> shape jr' = shape jr \<and> job_cores jr' = job_cores jr \<and>
    core_bitmap_used jr' = Some u' \<and> bits_of u' = bits_of u \<and> node_bitmap jr' = Some nb' \<and> bits_of nb' = bits_of nb \<and>
    cpus jr' = Some (take (unat (nhosts jr)) cp) \<and> cpus_used jr' = Some (take (unat (nhosts jr)) cu) \<and>
    memory_allocated jr' = Some (take (unat (nhosts jr)) ma) \<and> memory_used jr' = Some (take (unat (nhosts jr)) mu) \<and>
    cpu_array_cnt jr' = cpu_array_cnt jr \<and>
    (cpu_array_cnt jr \<noteq> 0 \<longrightarrow> cpu_array_value jr' = Some (take (unat (cpu_array_cnt jr)) cv) \<and>
       cpu_array_reps jr' = Some (take (unat (cpu_array_cnt jr)) cr)) \<and>
    nhosts jr' = nhosts jr \<and> ncpus jr' = ncpus jr \<and> node_req jr' = node_req jr \<and> whole_node jr' = whole_node jr \<and> nodes jr' = None"
  using assms(1)
proof (rule jr_okE)
  let ?n = "unat (nhosts jr)"
  fix ss cc rr b
  assume jr: "sockets_per_node jr = Some ss" "cores_per_socket jr = Some cc" "sock_core_rep_count jr = Some rr"
      "core_bitmap jr = Some b" "length ss = length rr" "length cc = length rr" "covers rr ?n"
      "\<forall>w \<in> set (widths jr). 0 < w" "bitstr_wf b" "bs_bits b = sum_list (widths jr)"
  have z: "length (zip ss cc) = length rr" using jr(5,6) by simp
  define m where "m = run_cnt rr ?n"
  have m: "copy_runs (Some rr) ?n 0 0 = Some m" "m \<le> ?n \<and> m \<le> length rr" "\<forall>r \<in> set (take m rr). 0 < unat r"
      "sum_list (map unat (take m rr)) = ?n" "expand (take m (zip ss cc)) (take m rr) = shape jr"
    using copy_runs_Some [of 0 rr ?n 0] run_cnt_le [of rr ?n] run_cnt_take [OF jr(7) z] jr(1-3,7)
    by (cases "?n = 0"; simp add: m_def shape_def copy_runs.simps)+
  let ?ss = "take m ss @ replicate (?n - m) 0" and ?cc = "take m cc @ replicate (?n - m) 0" and ?rr = "take m rr @ replicate (?n - m) (0 :: u32)"
  let ?jr = "create_job_resources\<lparr>nhosts := nhosts jr, ncpus := ncpus jr, node_req := node_req jr,
       whole_node := whole_node jr, core_bitmap := Some (b\<lparr>bs_magic := BITSTR_MAGIC\<rparr>), core_bitmap_used := Some (u\<lparr>bs_magic := BITSTR_MAGIC\<rparr>),
       node_bitmap := Some (nb\<lparr>bs_magic := BITSTR_MAGIC\<rparr>), cpu_array_cnt := cpu_array_cnt jr,
       cpu_array_reps := if cpu_array_cnt jr = 0 then None else Some (take (unat (cpu_array_cnt jr)) cr),
       cpu_array_value := if cpu_array_cnt jr = 0 then None else Some (take (unat (cpu_array_cnt jr)) cv), cpus := Some (take ?n cp),
       cpus_used := Some (take ?n cu), memory_allocated := Some (take ?n ma), memory_used := Some (take ?n mu), sockets_per_node := Some ?ss,
       cores_per_socket := Some ?cc, sock_core_rep_count := Some ?rr\<rparr>"
  have "copy_job_resources jr = Some ?jr"
    using assms(2-) jr(1-6,9) m(1,2)
    by (simp add: copy_job_resources_def copy_bitmap_Some copy_array_Some copy_prefix_Some Let_def unat_eq_0 min_def)
  moreover have sh: "shape ?jr = shape jr"
  proof -
    have "zip ?ss ?cc = take m (zip ss cc) @ zip (replicate (?n - m) 0) (replicate (?n - m) 0)"
      using jr(5,6) by (subst zip_append) (simp_all add: take_zip)
    moreover have "length (take m (zip ss cc)) = length (take m rr)" using z by simp
    ultimately have "expand (zip ?ss ?cc) ?rr = shape jr" using m(5) by (simp add: expand_append expand_zeros)
    then show ?thesis using length_shape [OF assms(1)] by (simp add: shape_def)
  qed
  moreover have "jr_ok ?jr" "jr_tight ?jr"
    using sh jr(5,6,8-10) m(2-4) covers_runs [OF m(3), of "replicate (?n - m) 0"]
    by (simp_all add: jr_ok_def jr_tight_def widths_def sum_list_replicate create_job_resources_def)
  ultimately show ?thesis
    using jr(4) by (intro exI [of _ ?jr]) (simp add: job_cores_def create_job_resources_def)
qed


theorem copy_job_resources_ok_witness:
  "\<exists>jr'. copy_job_resources (sample_job\<lparr>cpu_array_cnt := 2, cpu_array_value := Some [2, 3, 0], cpu_array_reps := Some [2, 1, 0]\<rparr>) = Some jr' \<and>
     shape jr' = [(2, 2), (2, 2), (1, 3)] \<and> cpu_array_value jr' = Some [2, 3] \<and> nodes jr' = None"
proof -
  let ?jr = "sample_job\<lparr>cpu_array_cnt := 2, cpu_array_value := Some [2, 3, 0], cpu_array_reps := Some [2, 1, 0]\<rparr>"
  have "jr_ok ?jr = jr_ok sample_job" "shape ?jr = shape sample_job"
    by (simp_all add: jr_ok_def widths_def shape_def split: option.split)
  then have ok: "jr_ok ?jr" "shape ?jr = [(2, 2), (2, 2), (1, 3)]" using sample_job_ok sample_job_shape by simp_all
  let ?u = "\<lparr>bs_magic = BITSTR_MAGIC, bs_bits = 11, bs_words = [0x1]\<rparr>"
  have a: "cpu_array_value ?jr = Some [2, 3, 0]" "cpu_array_reps ?jr = Some [2, 1, 0]" "unat (cpu_array_cnt ?jr) \<le> length [2, 3, 0 :: u16]"
      "unat (cpu_array_cnt ?jr) \<le> length [2, 1, 0 :: u32]" "core_bitmap_used ?jr = Some ?u" "bitstr_wf ?u"
      "node_bitmap ?jr = Some \<lparr>bs_magic = BITSTR_MAGIC, bs_bits = 5, bs_words = [0x16]\<rparr>" "cpus ?jr = Some [2, 2, 3]" "cpus_used ?jr = Some [1, 0, 0]"
      "memory_allocated ?jr = Some [7, 8, 9]" "memory_used ?jr = Some [0, 0, 1]"
    by (simp_all add: sample_job_def create_job_resources_def bitstr_wf_def bitstr_words_def)
  have n: "unat (nhosts ?jr) = 3" "unat (cpu_array_cnt ?jr) = 2" "cpu_array_cnt ?jr \<noteq> 0" by (simp_all add: sample_job_def create_job_resources_def)
  show ?thesis
    using copy_job_resources_ok [OF ok(1) a(1-7) sample_node_bitmap(2) a(8-11)] ok(2) n by auto
qed

end
