(* ===== verification/Job_Resources_Codec.thy ===== *)
theory Job_Resources_Codec
  imports Job_Resources_Copy Pack_Codec Bitstring_Fmt
begin

text \<open>
  The resources of a job in messages and in the saved state of the controller:
  \<^verbatim>\<open>pack_job_resources\<close> and \<^verbatim>\<open>unpack_job_resources\<close> of src/common/job_resources.c, and the macros
  for bitmaps of src/common/pack.h.
\<close>

section \<open>Bitmaps as hexadecimal masks\<close>

definition pack_bit_str_hex :: "bitstr option \<Rightarrow> slurm_buf \<Rightarrow> slurm_buf option" where
  "pack_bit_str_hex p b = do {
     assertC (buf_magic b = BUF_MAGIC);
     (case p of
        Some bm \<Rightarrow> do {
          str \<leftarrow> bit_fmt_hexmask bm;
          n \<leftarrow> bit_size bm;
          b \<leftarrow> pack32 (word_of_int n) b;
          packmem (str @ [0]) (of_nat (length str + 1)) b }
      | None \<Rightarrow> pack32 NO_VAL b) }"

text \<open>The macro goes to \<open>err\<close>, the label \<^verbatim>\<open>unpack_error\<close> of its user, or on to \<open>k\<close>.\<close>

definition unpack_bit_str_hex :: "bool \<Rightarrow> slurm_buf \<Rightarrow> (slurm_buf \<Rightarrow> 'r option) \<Rightarrow>
    (bitstr option \<Rightarrow> slurm_buf \<Rightarrow> 'r option) \<Rightarrow> 'r option" where
  "unpack_bit_str_hex slurmdbd_conf b err k =
     safe_unpack unpack32 b err (\<lambda>n b.
       if n \<noteq> NO_VAL
       then safe_unpack (unpackstr_xmalloc_chooser slurmdbd_conf) b err (\<lambda>r b. do {
         bm \<leftarrow> bit_alloc (uint n);
         str \<leftarrow> str_field r;
         (rc, bm) \<leftarrow> bit_unfmt_hexmask bm str;
         k (Some bm) b })
       else k None b)"


section \<open>Packing the resources of a job\<close>

text \<open>An array that may be NULL, which is packed as an empty one.\<close>

definition pack_opt :: "('v list \<Rightarrow> u32 \<Rightarrow> slurm_buf \<Rightarrow> slurm_buf option) \<Rightarrow> 'v list option \<Rightarrow> u32 \<Rightarrow>
    slurm_buf \<Rightarrow> slurm_buf option" where
  "pack_opt pk p n b = (case p of Some xs \<Rightarrow> pk xs n b | None \<Rightarrow> pk [] 0 b)"

text \<open>
  The loop that finds the last run of the job's nodes. The number of cores it adds up is not used;
  only the product of two 16-bit numbers in it can overflow.
\<close>

function last_run :: "job_resources \<Rightarrow> nat \<Rightarrow> u32 \<Rightarrow> nat option" where
  "last_run jr i sock_recs =
     (if i < unat (nhosts jr)
      then do {
        s \<leftarrow> deref (sockets_per_node jr) i;
        c \<leftarrow> deref (cores_per_socket jr) i;
        int_ok (unat s * unat c);
        r \<leftarrow> deref (sock_core_rep_count jr) i;
        if sock_recs + r \<ge> nhosts jr then Some i
        else last_run jr (i + 1) (sock_recs + r) }
      else Some i)"
  by pat_completeness auto
termination by (relation "measure (\<lambda>(jr, i, sock_recs). unat (nhosts jr) - i)") auto

declare last_run.simps [simp del]

definition pack_job_cores :: "job_resources \<Rightarrow> slurm_buf \<Rightarrow> slurm_buf option" where
  "pack_job_cores jr b = do {
     cc \<leftarrow> cores_per_socket jr;
     rr \<leftarrow> sock_core_rep_count jr;
     ss \<leftarrow> sockets_per_node jr;
     i \<leftarrow> last_run jr 0 0;
     b \<leftarrow> pack16_array ss (of_nat (i + 1)) b;
     b \<leftarrow> pack16_array cc (of_nat (i + 1)) b;
     b \<leftarrow> pack32_array rr (of_nat (i + 1)) b;
     assertC (core_bitmap jr \<noteq> None);
     assertC (core_bitmap_used jr \<noteq> None);
     b \<leftarrow> pack_bit_str_hex (core_bitmap jr) b;
     pack_bit_str_hex (core_bitmap_used jr) b }"

text \<open>
  The two supported forms of the message differ only in the width of the memory sizes, that is, in
  \<open>pack_mem\<close>.
\<close>

definition pack_job_fields :: "(u64 list \<Rightarrow> u32 \<Rightarrow> slurm_buf \<Rightarrow> slurm_buf option) \<Rightarrow> u32 \<Rightarrow> job_resources \<Rightarrow>
    slurm_buf \<Rightarrow> slurm_buf option" where
  "pack_job_fields pack_mem cluster_flags jr b = do {
     b \<leftarrow> pack32 (nhosts jr) b;
     b \<leftarrow> pack32 (ncpus jr) b;
     b \<leftarrow> pack32 (node_req jr) b;
     b \<leftarrow> packstr (nodes jr) b;
     b \<leftarrow> pack8 (whole_node jr) b;
     b \<leftarrow> pack_opt pack32_array (cpu_array_reps jr) (cpu_array_cnt jr) b;
     b \<leftarrow> pack_opt pack16_array (cpu_array_value jr) (cpu_array_cnt jr) b;
     b \<leftarrow> pack_opt pack16_array (cpus jr) (nhosts jr) b;
     b \<leftarrow> pack_opt pack16_array (cpus_used jr) (nhosts jr) b;
     b \<leftarrow> pack_opt pack_mem (memory_allocated jr) (nhosts jr) b;
     b \<leftarrow> pack_opt pack_mem (memory_used jr) (nhosts jr) b;
     (if cluster_flags AND CLUSTER_FLAG_BG = 0 then pack_job_cores jr b else Some b) }"

definition pack_job_resources :: "u32 \<Rightarrow> job_resources option \<Rightarrow> slurm_buf \<Rightarrow> u16 \<Rightarrow> slurm_buf option" where
  "pack_job_resources cluster_flags p b protocol_version =
     (if protocol_version \<ge> SLURM_17_02_PROTOCOL_VERSION
      then case p of None \<Rightarrow> pack32 NO_VAL b | Some jr \<Rightarrow> pack_job_fields pack64_array cluster_flags jr b
      else if protocol_version \<ge> SLURM_MIN_PROTOCOL_VERSION
      then case p of None \<Rightarrow> pack32 NO_VAL b | Some jr \<Rightarrow> pack_job_fields pack64_array_as_32 cluster_flags jr b
      else Some b)"


section \<open>Unpacking the resources of a job\<close>

text \<open>
  The result as for layouts: \<^term>\<open>None\<close> inside is \<^verbatim>\<open>SLURM_ERROR\<close> with the caller's pointer set to
  NULL, \<^term>\<open>Some None\<close> success with no structure in the message.
\<close>

type_synonym job_result = "(job_resources option option \<times> slurm_buf) option"

definition job_unpack_error :: "job_resources \<Rightarrow> slurm_buf \<Rightarrow> job_result" where
  "job_unpack_error jr b = do {
     free_job_resources (Some jr);
     Some (None, b) }"

text \<open>An array read with length zero is freed, and its pointer NULL.\<close>

definition nonempty :: "'v list \<Rightarrow> 'v list option" where
  "nonempty xs = (if xs = [] then None else Some xs)"

definition unpack_job_cores :: "bool \<Rightarrow> job_resources \<Rightarrow> slurm_buf \<Rightarrow> job_result" where
  "unpack_job_cores slurmdbd_conf jr b =
     safe_unpack unpack16_array b (job_unpack_error jr) (\<lambda>xs b.
     let jr = jr\<lparr>sockets_per_node := nonempty xs\<rparr> in
     safe_unpack unpack16_array b (job_unpack_error jr) (\<lambda>xs b.
     let jr = jr\<lparr>cores_per_socket := nonempty xs\<rparr> in
     safe_unpack unpack32_array b (job_unpack_error jr) (\<lambda>xs b.
     let jr = jr\<lparr>sock_core_rep_count := nonempty xs\<rparr> in
     unpack_bit_str_hex slurmdbd_conf b (job_unpack_error jr) (\<lambda>bm b.
     let jr = jr\<lparr>core_bitmap := bm\<rparr> in
     unpack_bit_str_hex slurmdbd_conf b (job_unpack_error jr) (\<lambda>bm b.
     Some (Some (Some (jr\<lparr>core_bitmap_used := bm\<rparr>)), b))))))"

definition unpack_job_arrays :: "(slurm_buf \<Rightarrow> (u64 list option \<times> slurm_buf) option) \<Rightarrow> u32 \<Rightarrow> bool \<Rightarrow>
    job_resources \<Rightarrow> slurm_buf \<Rightarrow> job_result" where
  "unpack_job_arrays unpack_mem cluster_flags slurmdbd_conf jr b =
     safe_unpack unpack32_array b (job_unpack_error jr) (\<lambda>xs b.
     let jr = jr\<lparr>cpu_array_reps := nonempty xs, cpu_array_cnt := of_nat (length xs)\<rparr> in
     safe_unpack unpack16_array b (job_unpack_error jr) (\<lambda>xs b.
     let jr = jr\<lparr>cpu_array_value := nonempty xs\<rparr> in
     if of_nat (length xs) \<noteq> cpu_array_cnt jr then job_unpack_error jr b
     else safe_unpack unpack16_array b (job_unpack_error jr) (\<lambda>xs b.
     let jr = jr\<lparr>cpus := nonempty xs\<rparr> in
     if of_nat (length xs) \<noteq> nhosts jr then job_unpack_error jr b
     else safe_unpack unpack16_array b (job_unpack_error jr) (\<lambda>xs b.
     let jr = jr\<lparr>cpus_used := nonempty xs\<rparr> in
     safe_unpack unpack_mem b (job_unpack_error jr) (\<lambda>xs b.
     let jr = jr\<lparr>memory_allocated := nonempty xs\<rparr> in
     safe_unpack unpack_mem b (job_unpack_error jr) (\<lambda>xs b.
     let jr = jr\<lparr>memory_used := nonempty xs\<rparr> in
     if cluster_flags AND CLUSTER_FLAG_BG = 0 then unpack_job_cores slurmdbd_conf jr b
     else Some (Some (Some jr), b)))))))"

text \<open>
  Before the structure is allocated the pointer that the label \<^verbatim>\<open>unpack_error\<close> frees has no value;
  going there is undefined.
\<close>

definition unpack_job_fields :: "(slurm_buf \<Rightarrow> (u64 list option \<times> slurm_buf) option) \<Rightarrow> u32 \<Rightarrow> bool \<Rightarrow>
    slurm_buf \<Rightarrow> job_result" where
  "unpack_job_fields unpack_mem cluster_flags slurmdbd_conf b =
     safe_unpack unpack32 b (\<lambda>b. None) (\<lambda>v b.
     if v = NO_VAL then Some (Some None, b)
     else let jr = create_job_resources\<lparr>nhosts := v\<rparr> in
     safe_unpack unpack32 b (job_unpack_error jr) (\<lambda>v b.
     let jr = jr\<lparr>ncpus := v\<rparr> in
     safe_unpack unpack32 b (job_unpack_error jr) (\<lambda>v b.
     let jr = jr\<lparr>node_req := v\<rparr> in
     safe_unpack (unpackstr_xmalloc_chooser slurmdbd_conf) b (job_unpack_error jr) (\<lambda>r b.
     let jr = jr\<lparr>nodes := str_field r\<rparr> in
     safe_unpack unpack8 b (job_unpack_error jr) (\<lambda>v.
     unpack_job_arrays unpack_mem cluster_flags slurmdbd_conf (jr\<lparr>whole_node := v\<rparr>))))))"

definition unpack_job_resources :: "u32 \<Rightarrow> bool \<Rightarrow> slurm_buf \<Rightarrow> u16 \<Rightarrow> job_result" where
  "unpack_job_resources cluster_flags slurmdbd_conf b protocol_version =
     (if protocol_version \<ge> SLURM_17_02_PROTOCOL_VERSION
      then unpack_job_fields unpack64_array cluster_flags slurmdbd_conf b
      else if protocol_version \<ge> SLURM_MIN_PROTOCOL_VERSION
      then unpack_job_fields unpack64_array_from_32 cluster_flags slurmdbd_conf b
      else None)"


section \<open>Masks on the wire\<close>

lemma hex_digits_chars:
  "hex_digits b n i = Some ds \<Longrightarrow> 0 \<notin> set ds \<and> length ds = (n - i + 3) div 4"
proof (induction b n i arbitrary: ds rule: hex_digits.induct)
  case (1 b n i)
  show ?case
  proof (cases "i < n")
    case True
    obtain b0 b1 b2 b3 rest where b: "bit_test b (int i) = Some b0" "test_below b n (i + 1) = Some b1"
        "test_below b n (i + 2) = Some b2" "test_below b n (i + 3) = Some b3" "hex_digits b n (i + 4) = Some rest"
        "ds = rest @ [hex_char ((if b0 then 1 else 0) OR (if b1 then 2 else 0) OR (if b2 then 4 else 0) OR (if b3 then 8 else 0))]"
      using "1.prems" True by (subst (asm) hex_digits.simps) (auto split: bind_splits)
    have "hex_char ((if b0 then 1 else 0) OR (if b1 then 2 else 0) OR (if b2 then 4 else 0) OR (if b3 then 8 else 0)) \<noteq> 0"
      by (cases b0; cases b1; cases b2; cases b3) (simp_all add: hex_char_def)
    moreover have "(n - (i + 4) + 3) div 4 + 1 = (n - i + 3) div 4"
    proof -
      have "n - (i + 4) + 3 + 4 = n - i + 3 \<or> n - (i + 4) = 0 \<and> 4 \<le> n - i + 3 \<and> n - i + 3 < 8" using True by auto
      then show ?thesis by (auto simp: div_nat_eqI)
    qed
    ultimately show ?thesis using "1.IH" [OF True b(1-5)] b(6) by simp
  next
    case False
    then show ?thesis using "1.prems" by (subst (asm) hex_digits.simps) simp
  qed
qed

lemma hexmask_ok:
  assumes "bitstr_wf b"
  obtains str where "bit_fmt_hexmask b = Some str" "c_string_ok (Some str)" "length str = 2 + (bs_bits b + 3) div 4"
    "\<And>b'. bitstr_wf b' \<Longrightarrow> bs_bits b' = bs_bits b \<Longrightarrow> 0 < bs_bits b \<Longrightarrow>
      \<exists>b2. bit_unfmt_hexmask b' str = Some (0, b2) \<and> bitstr_wf b2 \<and> bs_bits b2 = bs_bits b \<and> bits_of b2 = bits_of b"
  using assms
proof (rule hexmask_back)
  fix str
  assume s: "bit_fmt_hexmask b = Some str"
    and rd: "\<And>b'. bitstr_wf b' \<Longrightarrow> bs_bits b' = bs_bits b \<Longrightarrow> 0 < bs_bits b \<Longrightarrow>
      \<exists>b2. bit_unfmt_hexmask b' str = Some (0, b2) \<and> bitstr_wf b2 \<and> bs_bits b2 = bs_bits b \<and> bits_of b2 = bits_of b"
  obtain ds where ds: "hex_digits b (bs_bits b) 0 = Some ds" "str = [48, 120] @ ds"
    using s assms by (auto simp: bit_fmt_hexmask_def abort_simps split: bind_splits)
  have "bs_bits b \<le> 0x40000000" using assms by (simp add: bitstr_wf_def)
  then have "(bs_bits b + 3) div 4 \<le> 0x10000000" by linarith
  then have "c_string_ok (Some str)" "length str = 2 + (bs_bits b + 3) div 4"
    using hex_digits_chars [OF ds(1)] by (simp_all add: c_string_ok_def ds(2))
  then show thesis using that s rd by blast
qed

text \<open>A bitmap as it is sent, as it arrives, and when the two are the same set.\<close>

definition bits_enc :: "bitstr option \<Rightarrow> u8 list" where
  "bits_enc p = (case p of None \<Rightarrow> be_bytes 4 NO_VAL
     | Some bm \<Rightarrow> be_bytes 4 (of_nat (bs_bits bm) :: u32) @ str_enc (bit_fmt_hexmask bm))"

definition bits_cost :: "bitstr option \<Rightarrow> nat" where
  "bits_cost p = (case p of None \<Rightarrow> 4 | Some bm \<Rightarrow> 4 + mem_cost (str_mem (bit_fmt_hexmask bm)))"

definition bits_ok :: "bitstr option \<Rightarrow> bool" where
  "bits_ok p \<longleftrightarrow> (case p of None \<Rightarrow> True | Some bm \<Rightarrow> bitstr_wf bm \<and> 0 < bs_bits bm)"

definition reread :: "bitstr option \<Rightarrow> bitstr option" where
  "reread p = do {
     bm \<leftarrow> p;
     str \<leftarrow> bit_fmt_hexmask bm;
     new \<leftarrow> bit_alloc (int (bs_bits bm));
     (rc, new) \<leftarrow> bit_unfmt_hexmask new str;
     Some new }"

lemma bits_cost_Some: "bitstr_wf bm \<Longrightarrow> bits_cost (Some bm) = 14 + 2 * ((bs_bits bm + 3) div 4)"
  by (rule hexmask_ok [of bm]) (simp_all add: bits_cost_def mem_cost_def str_mem_def mem_bytes_def)

interpretation pbits: packer pack_bit_str_hex bits_enc bits_cost bits_ok
proof
  fix p b
  assume ok: "bits_ok p"
  show "length (bits_enc p) \<le> bits_cost p" by (cases p) (simp_all add: bits_enc_def bits_cost_def mem_enc_def mem_cost_def)
  show "\<exists>b'. pack_bit_str_hex p b = Some b' \<and> wrote b (bits_enc p) b'" if b: "buf_ok b" "fits b (bits_cost p)"
  proof (cases p)
    case None
    then show ?thesis using c32.pk_wrote [OF b(1), of NO_VAL] b by (simp add: pack_bit_str_hex_def bits_enc_def bits_cost_def buf_ok_def)
  next
    case (Some bm)
    then have wf: "bitstr_wf bm" using ok by (simp add: bits_ok_def)
    then obtain str where s: "bit_fmt_hexmask bm = Some str" "c_string_ok (Some str)" by (rule hexmask_ok)
    have "packer (\<lambda>v b. do { b \<leftarrow> pack32 v b; pack_block (str_mem (Some str)) b }) (\<lambda>v. be_bytes 4 v @ str_enc (Some str))
        (\<lambda>v. 4 + mem_cost (str_mem (Some str))) (\<lambda>v. True \<and> mem_ok (str_mem (Some str)))"
      by (rule c32.then_packer [where f = "\<lambda>v. v", OF packer.intro]) (auto simp: cmem.enc_cost cmem.pk_wrote)
    from packer.pk_wrote [OF this b(1), of "of_nat (bs_bits bm)"] show ?thesis
      using b s wf Some c_string_mem_ok [OF s(2)]
      by (simp add: pack_bit_str_hex_def abort_simps bits_enc_def bits_cost_def buf_ok_def pack_block_def str_mem_def mem_bytes_def)
  qed
qed

lemma reread_Some:
  assumes "bitstr_wf bm" and "0 < bs_bits bm"
  obtains str new bm' where "bit_fmt_hexmask bm = Some str" "c_string_ok (Some str)" "bit_alloc (int (bs_bits bm)) = Some new"
    "bit_unfmt_hexmask new str = Some (0, bm')" "reread (Some bm) = Some bm'"
    "bitstr_wf bm'" "bs_bits bm' = bs_bits bm" "bits_of bm' = bits_of bm"
proof -
  obtain str where str: "bit_fmt_hexmask bm = Some str" "c_string_ok (Some str)" "length str = 2 + (bs_bits bm + 3) div 4"
      "\<And>b'. bitstr_wf b' \<Longrightarrow> bs_bits b' = bs_bits bm \<Longrightarrow> 0 < bs_bits bm \<Longrightarrow>
        \<exists>b2. bit_unfmt_hexmask b' str = Some (0, b2) \<and> bitstr_wf b2 \<and> bs_bits b2 = bs_bits bm \<and> bits_of b2 = bits_of bm"
    by (rule hexmask_ok [OF assms(1)]) (rule that; assumption)
  obtain new where new: "bit_alloc (int (bs_bits bm)) = Some new" "bitstr_wf new" "bs_bits new = bs_bits bm"
    using bit_alloc_Some [of "bs_bits bm"] assms(1) by (auto simp: bitstr_wf_def)
  obtain bm' where "bit_unfmt_hexmask new str = Some (0, bm')" "bitstr_wf bm'" "bs_bits bm' = bs_bits bm" "bits_of bm' = bits_of bm"
    using str(4) [OF new(2,3) assms(2)] by blast
  then show thesis using that str(1,2) new(1) by (simp add: reread_def)
qed

lemma unpack_bits_holds:
  assumes "buf_ok b" and "bits_ok p" and "holds b (bits_enc p @ rest)"
  shows "unpack_bit_str_hex False b err k = k (reread p) (skip_bytes b (length (bits_enc p)))"
    and "buf_ok (skip_bytes b (length (bits_enc p)))" and "holds (skip_bytes b (length (bits_enc p))) rest"
proof -
  have "unpack_bit_str_hex False b err k = k (reread p) (skip_bytes b (length (bits_enc p))) \<and>
    buf_ok (skip_bytes b (length (bits_enc p))) \<and> holds (skip_bytes b (length (bits_enc p))) rest"
  proof (cases p)
    case None
    have "holds b (be_bytes 4 NO_VAL @ rest)" using assms(3) None by (simp add: bits_enc_def)
    note s = c32.safe_unpack_holds [OF assms(1) TrueI this]
    show ?thesis using None s(2,3) by (simp add: unpack_bit_str_hex_def bits_enc_def reread_def s(1))
  next
    case (Some bm)
    have wf: "bitstr_wf bm" "0 < bs_bits bm" using assms(2) Some by (simp_all add: bits_ok_def)
    obtain str new bm' where r: "bit_fmt_hexmask bm = Some str" "c_string_ok (Some str)" "bit_alloc (int (bs_bits bm)) = Some new"
      "bit_unfmt_hexmask new str = Some (0, bm')" "reread (Some bm) = Some bm'"
      by (rule reread_Some [OF wf])
    let ?n = "of_nat (bs_bits bm) :: u32"
    have small: "bs_bits bm \<le> 0x40000000" using wf(1) by (simp add: bitstr_wf_def)
    then have un: "unat ?n = bs_bits bm" by (simp add: unsigned_of_nat take_bit_nat_eq_self)
    have n: "uint ?n = int (bs_bits bm)" unfolding uint_nat un ..
    have nv: "?n \<noteq> NO_VAL" using un small by (auto simp: NO_VAL_def)
    have "holds b (be_bytes 4 ?n @ str_enc (Some str) @ rest)" using assms(3) Some r(1) by (simp add: bits_enc_def)
    note s1 = c32.safe_unpack_holds [OF assms(1) TrueI this]
    note s2 = unpackstr_holds [OF s1(2) r(2) s1(3)]
    show ?thesis
      using Some s2(2,3) n nv r
      by (simp add: unpack_bit_str_hex_def bits_enc_def str_field_mem skip_skip s1(1) s2(1) [simplified])
  qed
  then show "unpack_bit_str_hex False b err k = k (reread p) (skip_bytes b (length (bits_enc p)))"
    "buf_ok (skip_bytes b (length (bits_enc p)))" "holds (skip_bytes b (length (bits_enc p))) rest" by blast+
qed


section \<open>Arrays that may be NULL\<close>

definition opt_list :: "'v list option \<Rightarrow> u32 \<Rightarrow> 'v list" where
  "opt_list p n = (case p of None \<Rightarrow> [] | Some xs \<Rightarrow> take (unat n) xs)"

definition opt_ok :: "'v list option \<Rightarrow> u32 \<Rightarrow> bool" where
  "opt_ok p n \<longleftrightarrow> (case p of None \<Rightarrow> True | Some xs \<Rightarrow> unat n \<le> length xs)"

lemma length_opt_list: "length (opt_list p n) < 2 ^ 32"
  using unsigned_less [of n] by (auto simp: opt_list_def min_def split: option.split)

lemma opt_list_length: "p \<noteq> None \<Longrightarrow> opt_ok p n \<Longrightarrow> length (opt_list p n) = unat n"
  by (auto simp: opt_list_def opt_ok_def)

lemma pack_array_take:
  "unat n \<le> length xs \<Longrightarrow> pack_array pk xs n b = pack_array pk (take (unat n) xs) n b"
  unfolding pack_array_def pack_loop_def by (auto simp: min_def intro!: bind_option_cong forM_cong)

lemma pack_opt_list:
  "opt_ok p n \<Longrightarrow> pack_opt (pack_array pk) p n b = pack_array pk (opt_list p n) (of_nat (length (opt_list p n))) b"
  by (cases p) (auto simp: pack_opt_def opt_ok_def opt_list_def min_def dest: pack_array_take)

context codec
begin

lemma opt_packer:
  "packer (\<lambda>v. pack_opt (pack_array pk) (f v) (n v)) (\<lambda>v. arr_enc enc (opt_list (f v) (n v)))
     (\<lambda>v. arr_cost cost (opt_list (f v) (n v))) (\<lambda>v. opt_ok (f v) (n v) \<and> (\<forall>x \<in> set (opt_list (f v) (n v)). ok x))"
proof (rule packer.intro)
  note a = codec.axioms(1) [OF array_codec]
  fix v b
  assume v: "opt_ok (f v) (n v) \<and> (\<forall>x \<in> set (opt_list (f v) (n v)). ok x)"
  then have ok: "arr_ok ok (opt_list (f v) (n v))" using length_opt_list by (simp add: arr_ok_def)
  show "length (arr_enc enc (opt_list (f v) (n v))) \<le> arr_cost cost (opt_list (f v) (n v))"
    using packer.enc_cost [OF a ok] .
  show "\<exists>b'. pack_opt (pack_array pk) (f v) (n v) b = Some b' \<and> wrote b (arr_enc enc (opt_list (f v) (n v))) b'"
    if "buf_ok b" "fits b (arr_cost cost (opt_list (f v) (n v)))"
    using packer.pk_wrote [OF a that(1) ok that(2)] v pack_opt_list [of "f v" "n v" pk] by auto
qed

lemma opt_then:
  assumes "packer pk2 enc2 cost2 ok2"
  shows "packer (\<lambda>v b. do { b \<leftarrow> pack_opt (pack_array pk) (f v) (n v) b; pk2 v b })
     (\<lambda>v. arr_enc enc (opt_list (f v) (n v)) @ enc2 v) (\<lambda>v. arr_cost cost (opt_list (f v) (n v)) + cost2 v)
     (\<lambda>v. (opt_ok (f v) (n v) \<and> (\<forall>x \<in> set (opt_list (f v) (n v)). ok x)) \<and> ok2 v)"
  by (rule packer.then_packer [OF opt_packer assms])

lemma opt_holds:
  assumes "buf_ok b" and "\<forall>x \<in> set (opt_list p n). ok x" and "holds b (arr_enc enc (opt_list p n) @ rest)"
  shows "safe_unpack (unpack_array upk) b err k = k (opt_list p n) (skip_bytes b (length (arr_enc enc (opt_list p n))))"
    and "buf_ok (skip_bytes b (length (arr_enc enc (opt_list p n))))"
    and "holds (skip_bytes b (length (arr_enc enc (opt_list p n)))) rest"
proof -
  have ok: "arr_ok ok (opt_list p n)" using assms(2) length_opt_list by (simp add: arr_ok_def)
  note codec.safe_unpack_holds [OF array_codec assms(1) ok assms(3)]
  then show "safe_unpack (unpack_array upk) b err k = k (opt_list p n) (skip_bytes b (length (arr_enc enc (opt_list p n))))"
    "buf_ok (skip_bytes b (length (arr_enc enc (opt_list p n))))"
    "holds (skip_bytes b (length (arr_enc enc (opt_list p n)))) rest" by blast+
qed

end

lemma packer_cong:
  assumes "packer pk enc cost ok" and "\<And>v b. ok' v \<Longrightarrow> pk' v b = pk v b" and "\<And>v. ok' v \<Longrightarrow> ok v"
    and "\<And>v. ok' v \<Longrightarrow> enc' v = enc v" and "\<And>v. ok' v \<Longrightarrow> cost' v = cost v"
  shows "packer pk' enc' cost' ok'"
  using assms(2-) packer.enc_cost [OF assms(1)] packer.pk_wrote [OF assms(1)] by (intro packer.intro) auto


section \<open>The runs\<close>

definition runs :: "job_resources \<Rightarrow> u32" where
  "runs jr = of_nat (run_cnt (the (sock_core_rep_count jr)) (unat (nhosts jr)))"

lemma last_run_Some:
  assumes jr: "sockets_per_node jr = Some ss" "cores_per_socket jr = Some cc" "sock_core_rep_count jr = Some rr"
    "length ss = length rr" "length cc = length rr"
    and "covers (drop i rr) (unat (nhosts jr) - s)" and "i \<le> s" and "s < unat (nhosts jr)"
    and "\<forall>x \<in> set (take (unat (nhosts jr) - s) (expand (drop i (zip ss cc)) (drop i rr))). width x < 2 ^ 31"
  shows "last_run jr i (of_nat s) = Some (i + run_cnt (drop i rr) (unat (nhosts jr) - s) - 1)"
  using assms(6-)
proof (induction "unat (nhosts jr) - i" arbitrary: i s rule: less_induct)
  case less
  let ?n = "unat (nhosts jr)" and ?r = "unat (rr ! i)"
  let ?E = "expand (drop (Suc i) (zip ss cc)) (drop (Suc i) rr)"
  have l: "i < length rr" using covers_length [OF less.prems(1)] less.prems(3) by simp
  have dr: "drop i rr = rr ! i # drop (Suc i) rr" using l by (simp add: Cons_nth_drop_Suc)
  have r: "0 < ?r" "?r \<le> ?n - s" "covers (drop (Suc i) rr) (?n - s - ?r)" using less.prems(1,3) unfolding dr by auto
  have E: "expand (drop i (zip ss cc)) (drop i rr) = replicate ?r (ss ! i, cc ! i) @ ?E"
    using l jr(4,5) by (subst expand_drop) auto
  have tk: "take (?n - s) (replicate ?r (ss ! i, cc ! i) @ ?E) = replicate ?r (ss ! i, cc ! i) @ take (?n - s - ?r) ?E"
    using r(2) by simp
  have w: "int_ok (unat (ss ! i) * unat (cc ! i)) = Some ()"
    using less.prems(4) r(1) unfolding E tk by (auto simp: width_def int_ok_def)
  have sum: "of_nat s + rr ! i = (of_nat (s + ?r) :: u32)" by simp
  have u: "unat (of_nat (s + ?r) :: u32) = s + ?r"
    using r(2) less.prems(3) u32_bound [of "nhosts jr"] by (simp add: unsigned_of_nat take_bit_nat_eq_self del: of_nat_add)
  have step: "last_run jr i (of_nat s) = (if ?n \<le> s + ?r then Some i else last_run jr (i + 1) (of_nat (s + ?r)))"
    using less.prems(2,3) l jr w unfolding last_run.simps [of jr i] sum [symmetric]
    by (simp add: word_le_nat_alt u [simplified])
  show ?case
  proof (cases "?n \<le> s + ?r")
    case True
    then show ?thesis using step r(2) less.prems(3) by (simp add: dr)
  next
    case False
    have "last_run jr (i + 1) (of_nat (s + ?r)) = Some (i + 1 + run_cnt (drop (i + 1) rr) (?n - (s + ?r)) - 1)"
      by (rule less.hyps) (use less.prems(2-4) r False E tk in auto)
    then show ?thesis using step False less.prems(3) by (simp add: dr)
  qed
qed

lemma last_run_job:
  assumes "jr_ok jr" and "0 < nhosts jr"
  shows "last_run jr 0 0 = Some (run_cnt (the (sock_core_rep_count jr)) (unat (nhosts jr)) - 1)"
    and "unat (runs jr) = run_cnt (the (sock_core_rep_count jr)) (unat (nhosts jr))" and "0 < unat (runs jr)"
proof -
  obtain ss cc rr b where jr: "sockets_per_node jr = Some ss" "cores_per_socket jr = Some cc" "sock_core_rep_count jr = Some rr"
    "core_bitmap jr = Some b" "length ss = length rr" "length cc = length rr" "covers rr (unat (nhosts jr))"
    "bitstr_wf b" "bs_bits b = sum_list (widths jr)"
    using assms(1) by (rule jr_okE)
  have n: "0 < unat (nhosts jr)" using assms(2) by (simp add: word_less_nat_alt)
  have "width x < 2 ^ 31" if "x \<in> set (shape jr)" for x
  proof -
    have "width x \<le> sum_list (widths jr)" using that by (simp add: widths_def member_le_sum_list)
    then show ?thesis using jr(8,9) by (simp add: bitstr_wf_def)
  qed
  then show "last_run jr 0 0 = Some (run_cnt (the (sock_core_rep_count jr)) (unat (nhosts jr)) - 1)"
    using last_run_Some [OF jr(1-3,5,6), of 0 0] jr(1-3,7) n by (simp add: shape_def)
  have "run_cnt rr (unat (nhosts jr)) < 2 ^ 32" using run_cnt_le(2) [OF jr(7)] u32_bound [of "nhosts jr"] by simp
  then show u: "unat (runs jr) = run_cnt (the (sock_core_rep_count jr)) (unat (nhosts jr))"
    using jr(3) by (simp add: runs_def unsigned_of_nat take_bit_nat_eq_self)
  show "0 < unat (runs jr)" unfolding u using jr(3,7) n by (cases rr) auto
qed


section \<open>The structure as a message\<close>

definition cores_enc :: "job_resources \<Rightarrow> u8 list" where
  "cores_enc jr = arr_enc (be_bytes 2) (opt_list (sockets_per_node jr) (runs jr)) @
     arr_enc (be_bytes 2) (opt_list (cores_per_socket jr) (runs jr)) @
     arr_enc (be_bytes 4) (opt_list (sock_core_rep_count jr) (runs jr)) @ bits_enc (core_bitmap jr) @ bits_enc (core_bitmap_used jr)"

definition cores_cost :: "job_resources \<Rightarrow> nat" where
  "cores_cost jr = arr_cost (\<lambda>v. 2) (opt_list (sockets_per_node jr) (runs jr)) +
     (arr_cost (\<lambda>v. 2) (opt_list (cores_per_socket jr) (runs jr)) +
     (arr_cost (\<lambda>v. 4) (opt_list (sock_core_rep_count jr) (runs jr)) + (bits_cost (core_bitmap jr) + bits_cost (core_bitmap_used jr))))"

text \<open>
  What a structure must satisfy to be sent: it is valid and has nodes, and every array given is long
  enough. The receiver insists on the CPU counts of all nodes and on both or none of the arrays of
  the run-length encoded counts.
\<close>

definition cores_ok :: "job_resources \<Rightarrow> bool" where
  "cores_ok jr \<longleftrightarrow> jr_ok jr \<and> 0 < nhosts jr \<and> core_bitmap_used jr \<noteq> None \<and> bits_ok (core_bitmap_used jr)"

definition job_wire_ok :: "job_resources \<Rightarrow> bool" where
  "job_wire_ok jr \<longleftrightarrow> cores_ok jr \<and> c_string_ok (nodes jr) \<and> cpus jr \<noteq> None \<and>
     (cpu_array_reps jr = None \<longleftrightarrow> cpu_array_value jr = None) \<and>
     opt_ok (cpu_array_reps jr) (cpu_array_cnt jr) \<and> opt_ok (cpu_array_value jr) (cpu_array_cnt jr) \<and>
     opt_ok (cpus jr) (nhosts jr) \<and> opt_ok (cpus_used jr) (nhosts jr) \<and>
     opt_ok (memory_allocated jr) (nhosts jr) \<and> opt_ok (memory_used jr) (nhosts jr)"

lemma length_le_sum: "\<forall>w \<in> set ws. 0 < w \<Longrightarrow> length ws \<le> sum_list (ws :: nat list)"
  by (induction ws) auto

lemma sent_bitmap:
  assumes "cores_ok jr"
  shows "bits_ok (core_bitmap jr)" and "nhosts jr \<noteq> NO_VAL"
proof -
  have jr: "jr_ok jr" "0 < unat (nhosts jr)" using assms by (simp_all add: cores_ok_def word_less_nat_alt)
  obtain c where c: "core_bitmap jr = Some c" "\<forall>w \<in> set (widths jr). 0 < w" "bitstr_wf c" "bs_bits c = sum_list (widths jr)"
    using jr(1) by (rule jr_okE)
  have n: "unat (nhosts jr) \<le> bs_bits c" using length_le_sum [OF c(2)] length_widths [OF jr(1)] c(4) by simp
  then show "bits_ok (core_bitmap jr)" using jr(2) c(1,3) by (simp add: bits_ok_def)
  show "nhosts jr \<noteq> NO_VAL" using n c(3) by (auto simp: bitstr_wf_def NO_VAL_def)
qed

lemma cores_packer: "packer pack_job_cores cores_enc cores_cost cores_ok"
proof -
  have "packer (\<lambda>jr b. do {
        b \<leftarrow> pack_opt (pack_array pack16) (sockets_per_node jr) (runs jr) b;
        b \<leftarrow> pack_opt (pack_array pack16) (cores_per_socket jr) (runs jr) b;
        b \<leftarrow> pack_opt (pack_array pack32) (sock_core_rep_count jr) (runs jr) b;
        b \<leftarrow> pack_bit_str_hex (core_bitmap jr) b;
        pack_bit_str_hex (core_bitmap_used jr) b })
      cores_enc cores_cost (\<lambda>jr. (opt_ok (sockets_per_node jr) (runs jr) \<and> (\<forall>x \<in> set (opt_list (sockets_per_node jr) (runs jr)). True)) \<and>
        (opt_ok (cores_per_socket jr) (runs jr) \<and> (\<forall>x \<in> set (opt_list (cores_per_socket jr) (runs jr)). True)) \<and>
        (opt_ok (sock_core_rep_count jr) (runs jr) \<and> (\<forall>x \<in> set (opt_list (sock_core_rep_count jr) (runs jr)). True)) \<and>
        bits_ok (core_bitmap jr) \<and> bits_ok (core_bitmap_used jr))"
    unfolding cores_enc_def [abs_def] cores_cost_def [abs_def]
    by (intro c16.opt_then c32.opt_then pbits.then_packer packer.intro pbits.enc_cost pbits.pk_wrote)
  then show ?thesis
  proof (rule packer_cong)
    fix jr b
    assume ok: "cores_ok jr"
    then have jr: "jr_ok jr" "0 < nhosts jr" "core_bitmap_used jr \<noteq> None" by (simp_all add: cores_ok_def)
    obtain ss cc rr c where f: "sockets_per_node jr = Some ss" "cores_per_socket jr = Some cc" "sock_core_rep_count jr = Some rr"
      "core_bitmap jr = Some c" "length ss = length rr" "length cc = length rr"
      using jr(1) by (rule jr_okE)
    have len: "unat (runs jr) \<le> length rr" using last_run_job(2) [OF jr(1,2)] run_cnt_le(1) f(3) by simp
    have "of_nat (run_cnt rr (unat (nhosts jr)) - 1 + 1) = runs jr"
      using last_run_job(2,3) [OF jr(1,2)] f(3) by (simp add: runs_def)
    then show "pack_job_cores jr b = do {
        b \<leftarrow> pack_opt (pack_array pack16) (sockets_per_node jr) (runs jr) b;
        b \<leftarrow> pack_opt (pack_array pack16) (cores_per_socket jr) (runs jr) b;
        b \<leftarrow> pack_opt (pack_array pack32) (sock_core_rep_count jr) (runs jr) b;
        b \<leftarrow> pack_bit_str_hex (core_bitmap jr) b;
        pack_bit_str_hex (core_bitmap_used jr) b }"
      using last_run_job(1) [OF jr(1,2)] f(1-4) jr(3)
      by (simp add: pack_job_cores_def pack_opt_def pack16_array_def pack32_array_def)
    show "(opt_ok (sockets_per_node jr) (runs jr) \<and> (\<forall>x \<in> set (opt_list (sockets_per_node jr) (runs jr)). True)) \<and>
        (opt_ok (cores_per_socket jr) (runs jr) \<and> (\<forall>x \<in> set (opt_list (cores_per_socket jr) (runs jr)). True)) \<and>
        (opt_ok (sock_core_rep_count jr) (runs jr) \<and> (\<forall>x \<in> set (opt_list (sock_core_rep_count jr) (runs jr)). True)) \<and>
        bits_ok (core_bitmap jr) \<and> bits_ok (core_bitmap_used jr)"
      using ok f len sent_bitmap(1) [OF ok] by (simp add: cores_ok_def opt_ok_def)
  qed simp_all
qed

definition job_enc :: "(u64 \<Rightarrow> u8 list) \<Rightarrow> job_resources \<Rightarrow> u8 list" where
  "job_enc enc jr = be_bytes 4 (nhosts jr) @ be_bytes 4 (ncpus jr) @ be_bytes 4 (node_req jr) @ str_enc (nodes jr) @
     be_bytes 1 (whole_node jr) @ arr_enc (be_bytes 4) (opt_list (cpu_array_reps jr) (cpu_array_cnt jr)) @
     arr_enc (be_bytes 2) (opt_list (cpu_array_value jr) (cpu_array_cnt jr)) @
     arr_enc (be_bytes 2) (opt_list (cpus jr) (nhosts jr)) @ arr_enc (be_bytes 2) (opt_list (cpus_used jr) (nhosts jr)) @
     arr_enc enc (opt_list (memory_allocated jr) (nhosts jr)) @ arr_enc enc (opt_list (memory_used jr) (nhosts jr)) @ cores_enc jr"

definition job_cost :: "nat \<Rightarrow> job_resources \<Rightarrow> nat" where
  "job_cost c jr = 4 + (4 + (4 + (mem_cost (str_mem (nodes jr)) + (1 +
     (arr_cost (\<lambda>v. 4) (opt_list (cpu_array_reps jr) (cpu_array_cnt jr)) +
     (arr_cost (\<lambda>v. 2) (opt_list (cpu_array_value jr) (cpu_array_cnt jr)) +
     (arr_cost (\<lambda>v. 2) (opt_list (cpus jr) (nhosts jr)) + (arr_cost (\<lambda>v. 2) (opt_list (cpus_used jr) (nhosts jr)) +
     (arr_cost (\<lambda>v. c) (opt_list (memory_allocated jr) (nhosts jr)) +
     (arr_cost (\<lambda>v. c) (opt_list (memory_used jr) (nhosts jr)) + cores_cost jr))))))))))"

text \<open>The memory sizes of a structure, each satisfying \<open>ok\<close>.\<close>

definition memory_all :: "(u64 \<Rightarrow> bool) \<Rightarrow> job_resources \<Rightarrow> bool" where
  "memory_all ok jr \<longleftrightarrow> (\<forall>x \<in> set (opt_list (memory_allocated jr) (nhosts jr)) \<union> set (opt_list (memory_used jr) (nhosts jr)). ok x)"

lemma arr_cost_const: "arr_cost (\<lambda>v. c) xs = 4 + c * length xs"
  by (simp add: arr_cost_def sum_list_triv)

lemma job_cost_mono: "c \<le> d \<Longrightarrow> job_cost c jr \<le> job_cost d jr"
  unfolding job_cost_def arr_cost_const by (intro add_mono mult_le_mono1 order_refl) simp_all

lemma job_packer:
  assumes "codec pk enc (\<lambda>v. c) ok upk" and "cluster_flags AND CLUSTER_FLAG_BG = 0"
    and "buf_ok b" and "job_wire_ok jr" and "memory_all ok jr" and "fits b (job_cost c jr)"
  shows "\<exists>b'. pack_job_fields (pack_array pk) cluster_flags jr b = Some b' \<and> wrote b (job_enc enc jr) b'"
proof -
  note fields = c32.then_packer pstr.then_packer c8.then_packer c32.opt_then c16.opt_then codec.opt_then [OF assms(1)] cores_packer
  have p: "packer (pack_job_fields (pack_array pk) cluster_flags) (job_enc enc) (job_cost c)
      (\<lambda>jr. True \<and> True \<and> True \<and> mem_ok (str_mem (nodes jr)) \<and> True \<and>
        (opt_ok (cpu_array_reps jr) (cpu_array_cnt jr) \<and> (\<forall>x \<in> set (opt_list (cpu_array_reps jr) (cpu_array_cnt jr)). True)) \<and>
        (opt_ok (cpu_array_value jr) (cpu_array_cnt jr) \<and> (\<forall>x \<in> set (opt_list (cpu_array_value jr) (cpu_array_cnt jr)). True)) \<and>
        (opt_ok (cpus jr) (nhosts jr) \<and> (\<forall>x \<in> set (opt_list (cpus jr) (nhosts jr)). True)) \<and>
        (opt_ok (cpus_used jr) (nhosts jr) \<and> (\<forall>x \<in> set (opt_list (cpus_used jr) (nhosts jr)). True)) \<and>
        (opt_ok (memory_allocated jr) (nhosts jr) \<and> (\<forall>x \<in> set (opt_list (memory_allocated jr) (nhosts jr)). ok x)) \<and>
        (opt_ok (memory_used jr) (nhosts jr) \<and> (\<forall>x \<in> set (opt_list (memory_used jr) (nhosts jr)). ok x)) \<and> cores_ok jr)"
    unfolding pack_job_fields_def [abs_def] job_enc_def [abs_def] job_cost_def [abs_def] if_P [OF assms(2)] pack16_array_def pack32_array_def
    by (intro fields)
  show ?thesis
    by (rule packer.pk_wrote [OF p assms(3) _ assms(6)]) (use assms(4,5) in \<open>simp add: job_wire_ok_def c_string_mem_ok memory_all_def\<close>)
qed


section \<open>Reading the message\<close>

definition received_cores :: "job_resources \<Rightarrow> job_resources \<Rightarrow> job_resources" where
  "received_cores jr r = r\<lparr>sockets_per_node := nonempty (opt_list (sockets_per_node jr) (runs jr)),
     cores_per_socket := nonempty (opt_list (cores_per_socket jr) (runs jr)),
     sock_core_rep_count := nonempty (opt_list (sock_core_rep_count jr) (runs jr)),
     core_bitmap := reread (core_bitmap jr), core_bitmap_used := reread (core_bitmap_used jr)\<rparr>"

definition received_job :: "job_resources \<Rightarrow> job_resources" where
  "received_job jr = received_cores jr (create_job_resources\<lparr>nhosts := nhosts jr, ncpus := ncpus jr, node_req := node_req jr,
     nodes := nodes jr, whole_node := whole_node jr,
     cpu_array_reps := nonempty (opt_list (cpu_array_reps jr) (cpu_array_cnt jr)),
     cpu_array_cnt := of_nat (length (opt_list (cpu_array_reps jr) (cpu_array_cnt jr))),
     cpu_array_value := nonempty (opt_list (cpu_array_value jr) (cpu_array_cnt jr)), cpus := nonempty (opt_list (cpus jr) (nhosts jr)),
     cpus_used := nonempty (opt_list (cpus_used jr) (nhosts jr)),
     memory_allocated := nonempty (opt_list (memory_allocated jr) (nhosts jr)),
     memory_used := nonempty (opt_list (memory_used jr) (nhosts jr))\<rparr>)"

lemma ball_True: "\<forall>x \<in> S. True"
  by simp

lemma unpack_cores_holds:
  assumes "buf_ok b" and "bits_ok (core_bitmap jr)" and "bits_ok (core_bitmap_used jr)" and "holds b (cores_enc jr)"
  shows "unpack_job_cores False r b = Some (Some (Some (received_cores jr r)), skip_bytes b (length (cores_enc jr)))"
proof -
  note s1 = c16.opt_holds [OF assms(1) ball_True assms(4) [unfolded cores_enc_def], folded unpack16_array_def]
  note s2 = c16.opt_holds [OF s1(2) ball_True s1(3), folded unpack16_array_def]
  note s3 = c32.opt_holds [OF s2(2) ball_True s2(3), folded unpack32_array_def]
  note s4 = unpack_bits_holds [OF s3(2) assms(2) s3(3)]
  note s5 = unpack_bits_holds [where rest = "[]", OF s4(2) assms(3), unfolded append_Nil2, OF s4(3)]
  show ?thesis
    unfolding unpack_job_cores_def s1(1) s2(1) s3(1) s4(1) s5(1) Let_def
    by (simp add: received_cores_def cores_enc_def skip_skip add.assoc)
qed

lemma unpack_arrays_holds:
  assumes "codec pk enc cost ok upk" and "memory_all ok jr" and "cluster_flags AND CLUSTER_FLAG_BG = 0"
    and "bits_ok (core_bitmap jr)" and "bits_ok (core_bitmap_used jr)" and "buf_ok b"
    and "length (opt_list (cpu_array_value jr) (cpu_array_cnt jr)) = length (opt_list (cpu_array_reps jr) (cpu_array_cnt jr))"
    and "of_nat (length (opt_list (cpus jr) (nhosts jr))) = nhosts jr" and "nhosts r = nhosts jr"
    and "holds b (arr_enc (be_bytes 4) (opt_list (cpu_array_reps jr) (cpu_array_cnt jr)) @
     arr_enc (be_bytes 2) (opt_list (cpu_array_value jr) (cpu_array_cnt jr)) @
     arr_enc (be_bytes 2) (opt_list (cpus jr) (nhosts jr)) @ arr_enc (be_bytes 2) (opt_list (cpus_used jr) (nhosts jr)) @
     arr_enc enc (opt_list (memory_allocated jr) (nhosts jr)) @ arr_enc enc (opt_list (memory_used jr) (nhosts jr)) @ cores_enc jr)"
  shows "unpack_job_arrays (unpack_array upk) cluster_flags False r b = Some (Some (Some (received_cores jr (r\<lparr>
     cpu_array_reps := nonempty (opt_list (cpu_array_reps jr) (cpu_array_cnt jr)),
     cpu_array_cnt := of_nat (length (opt_list (cpu_array_reps jr) (cpu_array_cnt jr))),
     cpu_array_value := nonempty (opt_list (cpu_array_value jr) (cpu_array_cnt jr)), cpus := nonempty (opt_list (cpus jr) (nhosts jr)),
     cpus_used := nonempty (opt_list (cpus_used jr) (nhosts jr)),
     memory_allocated := nonempty (opt_list (memory_allocated jr) (nhosts jr)),
     memory_used := nonempty (opt_list (memory_used jr) (nhosts jr))\<rparr>))),
    skip_bytes b (length (arr_enc (be_bytes 4) (opt_list (cpu_array_reps jr) (cpu_array_cnt jr)) @
     arr_enc (be_bytes 2) (opt_list (cpu_array_value jr) (cpu_array_cnt jr)) @
     arr_enc (be_bytes 2) (opt_list (cpus jr) (nhosts jr)) @ arr_enc (be_bytes 2) (opt_list (cpus_used jr) (nhosts jr)) @
     arr_enc enc (opt_list (memory_allocated jr) (nhosts jr)) @ arr_enc enc (opt_list (memory_used jr) (nhosts jr)) @ cores_enc jr)))"
proof -
  have m: "\<forall>x \<in> set (opt_list (memory_allocated jr) (nhosts jr)). ok x" "\<forall>x \<in> set (opt_list (memory_used jr) (nhosts jr)). ok x"
    using assms(2) by (simp_all add: memory_all_def)
  note s1 = c32.opt_holds [OF assms(6) ball_True assms(10), folded unpack32_array_def]
  note s2 = c16.opt_holds [OF s1(2) ball_True s1(3), folded unpack16_array_def]
  note s3 = c16.opt_holds [OF s2(2) ball_True s2(3), folded unpack16_array_def]
  note s4 = c16.opt_holds [OF s3(2) ball_True s3(3), folded unpack16_array_def]
  note s5 = codec.opt_holds [OF assms(1) s4(2) m(1) s4(3)]
  note s6 = codec.opt_holds [OF assms(1) s5(2) m(2) s5(3)]
  note s7 = unpack_cores_holds [OF s6(2) assms(4,5) s6(3)]
  show ?thesis
    unfolding unpack_job_arrays_def s1(1) s2(1) s3(1) s4(1) s5(1) s6(1) Let_def if_P [OF assms(3)] s7
    by (simp add: assms(7-9) skip_skip add.assoc)
qed

lemma unpack_job_holds:
  assumes "codec pk enc cost ok upk" and "memory_all ok jr" and "cluster_flags AND CLUSTER_FLAG_BG = 0"
    and "buf_ok b" and "job_wire_ok jr" and "bits_ok (core_bitmap jr)" and "nhosts jr \<noteq> NO_VAL" and "holds b (job_enc enc jr)"
  shows "unpack_job_fields (unpack_array upk) cluster_flags False b =
    Some (Some (Some (received_job jr)), skip_bytes b (length (job_enc enc jr)))"
proof -
  have w: "c_string_ok (nodes jr)" "bits_ok (core_bitmap_used jr)"
      "length (opt_list (cpu_array_value jr) (cpu_array_cnt jr)) = length (opt_list (cpu_array_reps jr) (cpu_array_cnt jr))"
      "of_nat (length (opt_list (cpus jr) (nhosts jr))) = nhosts jr"
    using assms(5) opt_list_length [of "cpu_array_value jr" "cpu_array_cnt jr"] opt_list_length [of "cpu_array_reps jr" "cpu_array_cnt jr"]
    by (auto simp: job_wire_ok_def cores_ok_def opt_list_length) (auto simp: opt_list_def)
  note s1 = c32.safe_unpack_holds [OF assms(4) TrueI assms(8) [unfolded job_enc_def]]
  note s2 = c32.safe_unpack_holds [OF s1(2) TrueI s1(3)]
  note s3 = c32.safe_unpack_holds [OF s2(2) TrueI s2(3)]
  note s4 = unpackstr_holds [OF s3(2) w(1) s3(3)]
  note s5 = c8.safe_unpack_holds [OF s4(2) TrueI s4(3)]
  note s6 = unpack_arrays_holds [OF assms(1-3,6) w(2) s5(2) w(3,4) _ s5(3)]
  show ?thesis
    unfolding unpack_job_fields_def s1(1) if_not_P [OF assms(7)] s2(1) s3(1) s4(1) s5(1) Let_def str_field_mem [OF w(1)]
    by (subst s6) (simp_all add: received_job_def job_enc_def skip_skip add.assoc)
qed


lemma job_received_ok:
  assumes "cores_ok jr"
  shows "jr_ok (received_job jr) \<and> shape (received_job jr) = shape jr \<and> job_cores (received_job jr) = job_cores jr"
proof -
  have jr: "jr_ok jr" "0 < nhosts jr" using assms by (simp_all add: cores_ok_def)
  obtain ss cc rr c where f: "sockets_per_node jr = Some ss" "cores_per_socket jr = Some cc" "sock_core_rep_count jr = Some rr"
    "core_bitmap jr = Some c" "length ss = length rr" "length cc = length rr" "covers rr (unat (nhosts jr))"
    "\<forall>w \<in> set (widths jr). 0 < w" "bitstr_wf c" "bs_bits c = sum_list (widths jr)"
    using jr(1) by (rule jr_okE)
  let ?m = "run_cnt rr (unat (nhosts jr))"
  have m: "unat (runs jr) = ?m" "0 < ?m" using last_run_job(2,3) [OF jr] f(3) by simp_all
  have z: "length (zip ss cc) = length rr" using f(5,6) by simp
  note e = run_cnt_take [OF f(7) z, unfolded take_zip]
  have ne: "ss \<noteq> []" "cc \<noteq> []" "rr \<noteq> []" using m(2) run_cnt_le(1) [of rr "unat (nhosts jr)"] f(5,6) by auto
  have "0 < bs_bits c" using sent_bitmap(1) [OF assms] f(4) by (simp add: bits_ok_def)
  then obtain c' where c': "reread (Some c) = Some c'" "bitstr_wf c'" "bs_bits c' = bs_bits c" "bits_of c' = bits_of c"
    by (rule reread_Some [OF f(9)])
  have r: "sockets_per_node (received_job jr) = Some (take ?m ss)" "cores_per_socket (received_job jr) = Some (take ?m cc)"
    "sock_core_rep_count (received_job jr) = Some (take ?m rr)" "core_bitmap (received_job jr) = Some c'" "nhosts (received_job jr) = nhosts jr"
    using f(1-4) m ne c'(1) by (simp_all add: received_job_def received_cores_def nonempty_def opt_list_def)
  have sh: "shape (received_job jr) = shape jr" unfolding shape_def r using e f(1-3) by simp
  then show ?thesis
    using e f(4-6,8-10) r c' by (simp add: jr_ok_def widths_def job_cores_def)
qed

lemma nonempty_opt: "n \<noteq> 0 \<Longrightarrow> opt_ok p n \<Longrightarrow> nonempty (opt_list p n) = map_option (take (unat n)) p"
  by (cases p) (auto simp: nonempty_def opt_list_def opt_ok_def unat_eq_0)

lemma ucast_ucast_id32: "v < 2 ^ 32 \<Longrightarrow> ucast (ucast (v :: u64) :: u32) = v"
  by (simp add: word_unat_eq_iff unsigned_ucast_eq unsigned_take_bit_eq word_less_nat_alt take_bit_nat_eq_self)

lemma received_fields:
  assumes "job_wire_ok jr"
  defines "jr' \<equiv> received_job jr"
  shows "bits_of (the (core_bitmap_used jr')) = bits_of (the (core_bitmap_used jr)) \<and>
    nhosts jr' = nhosts jr \<and> ncpus jr' = ncpus jr \<and> node_req jr' = node_req jr \<and> nodes jr' = nodes jr \<and>
    whole_node jr' = whole_node jr \<and> node_bitmap jr' = None \<and>
    cpus jr' = map_option (take (unat (nhosts jr))) (cpus jr) \<and> cpus_used jr' = map_option (take (unat (nhosts jr))) (cpus_used jr) \<and>
    memory_allocated jr' = map_option (take (unat (nhosts jr))) (memory_allocated jr) \<and>
    memory_used jr' = map_option (take (unat (nhosts jr))) (memory_used jr) \<and>
    (cpu_array_cnt jr \<noteq> 0 \<longrightarrow> cpu_array_value jr' = map_option (take (unat (cpu_array_cnt jr))) (cpu_array_value jr) \<and>
      cpu_array_reps jr' = map_option (take (unat (cpu_array_cnt jr))) (cpu_array_reps jr)) \<and>
    (\<forall>node_name2bitmap cnt names nb. nodes jr = Some names \<and> node_name2bitmap names = (0, Some nb) \<and> bitstr_wf nb \<and>
      card (bits_of nb) = unat (nhosts jr) \<longrightarrow>
      reset_node_bitmap node_name2bitmap cnt (Some jr') = Some (SLURM_SUCCESS, Some (jr'\<lparr>node_bitmap := Some nb\<rparr>)))"
proof -
  have w: "cores_ok jr" "nhosts jr \<noteq> 0" "opt_ok (cpu_array_reps jr) (cpu_array_cnt jr)" "opt_ok (cpu_array_value jr) (cpu_array_cnt jr)"
     "opt_ok (cpus jr) (nhosts jr)" "opt_ok (cpus_used jr) (nhosts jr)"
     "opt_ok (memory_allocated jr) (nhosts jr)" "opt_ok (memory_used jr) (nhosts jr)"
    using assms(1) by (auto simp: job_wire_ok_def cores_ok_def)
  obtain u where u: "core_bitmap_used jr = Some u" "bitstr_wf u" "0 < bs_bits u" using w(1) by (auto simp: cores_ok_def bits_ok_def)
  obtain u' where "reread (Some u) = Some u'" "bits_of u' = bits_of u" by (rule reread_Some [OF u(2,3)])
  then show ?thesis
    unfolding jr'_def received_job_def received_cores_def create_job_resources_def using u(1) w
    by (auto simp: nonempty_opt reset_node_bitmap_def free_null_bitmap_def abort_simps)
qed



definition sent_job :: job_resources where
  "sent_job = sample_job\<lparr>nodes := Some [110, 49], cpu_array_cnt := 2, cpu_array_value := Some [2, 3, 0], cpu_array_reps := Some [2, 1, 0]\<rparr>"

lemma sent_job_ok: "jr_ok sent_job" "shape sent_job = [(2, 2), (2, 2), (1, 3)]" "job_wire_ok sent_job" "fits sample_buf (job_cost 8 sent_job)"
proof -
  have "jr_ok sent_job = jr_ok sample_job" "shape sent_job = shape sample_job"
    by (simp_all add: sent_job_def jr_ok_def widths_def shape_def split: option.split)
  then show ok: "jr_ok sent_job" "shape sent_job = [(2, 2), (2, 2), (1, 3)]" using sample_job_ok sample_job_shape by simp_all
  show "job_wire_ok sent_job" using ok(1)
    by (simp add: job_wire_ok_def cores_ok_def) (simp add: sent_job_def sample_job_def create_job_resources_def opt_ok_def bits_ok_def
      c_string_ok_def bitstr_wf_def bitstr_words_def)
  have "bitstr_wf \<lparr>bs_magic = BITSTR_MAGIC, bs_bits = 11, bs_words = [w]\<rparr>" for w by (simp add: bitstr_wf_def bitstr_words_def)
  then have "job_cost 8 sent_job \<le> 1000"
    by (simp add: job_cost_def cores_cost_def arr_cost_const bits_cost_Some sent_job_def sample_job_def create_job_resources_def
      opt_list_def runs_def mem_cost_def mem_bytes_def str_mem_def min_def)
  then show "fits sample_buf (job_cost 8 sent_job)" using sample_buf_ok(3) by (simp add: fits_def)
qed




end
