(* ===== verification/Linked_List.thy ===== *)
theory Linked_List
  imports Prelude
begin

text \<open>
  The lists of src/common/list.c and list.h: singly linked nodes with the address of the last link,
  and iterators that stay valid while the list changes. A pointer to a node is a number; a pointer to
  a link, \<^verbatim>\<open>struct listNode **\<close>, is either the head of the list or the \<^verbatim>\<open>next\<close> field of a node.
  Memory maps the nodes in use to their contents; using a node that was freed is undefined. Every
  function holds the mutex of its list while it works on it, so that a call is one step.
\<close>

section \<open>Data\<close>

datatype link = Head | Next nat

record 'a listNode =
  node_data :: 'a
  node_next :: "nat option"

record listIterator =
  it_pos :: "nat option"
  it_prev :: link

text \<open>
  \<^verbatim>\<open>iNext\<close> chains the iterators of a list; the chain is the list \<open>l_iters\<close>, each iterator with its address.
  Of the deletion function only matters whether there is one.
\<close>

record slurm_list =
  l_head :: "nat option"
  l_tail :: link
  l_iters :: "(nat \<times> listIterator) list"
  l_fDel :: bool
  l_count :: int

text \<open>
  The free list of objects of one size, and the first address never used. Data handed to a deletion
  function are recorded in \<open>deleted\<close>.
\<close>

record pool =
  pool_free :: "nat list"
  pool_top :: nat

record 'a list_mem =
  cells :: "nat \<Rightarrow> 'a listNode option"
  node_pool :: pool
  iter_pool :: pool
  deleted :: "'a list"

definition LIST_ALLOC :: nat where
  "LIST_ALLOC = 128"

definition list_alloc_aux :: "pool \<Rightarrow> nat \<times> pool" where
  "list_alloc_aux pl =
     (let pl = (if pool_free pl = []
                then \<lparr>pool_free = [pool_top pl..<pool_top pl + LIST_ALLOC], pool_top = pool_top pl + LIST_ALLOC\<rparr>
                else pl)
      in (hd (pool_free pl), pl\<lparr>pool_free := tl (pool_free pl)\<rparr>))"

definition list_free_aux :: "nat \<Rightarrow> pool \<Rightarrow> pool" where
  "list_free_aux x pl = pl\<lparr>pool_free := x # pool_free pl\<rparr>"

definition list_node_alloc :: "'a list_mem \<Rightarrow> nat \<times> 'a list_mem" where
  "list_node_alloc m = (let (p, pl) = list_alloc_aux (node_pool m) in (p, m\<lparr>node_pool := pl\<rparr>))"

definition list_node_free :: "nat \<Rightarrow> 'a list_mem \<Rightarrow> 'a list_mem" where
  "list_node_free p m = m\<lparr>cells := (cells m)(p := None), node_pool := list_free_aux p (node_pool m)\<rparr>"

definition list_iterator_alloc :: "'a list_mem \<Rightarrow> nat \<times> 'a list_mem" where
  "list_iterator_alloc m = (let (i, pl) = list_alloc_aux (iter_pool m) in (i, m\<lparr>iter_pool := pl\<rparr>))"

definition list_iterator_free :: "nat \<Rightarrow> 'a list_mem \<Rightarrow> 'a list_mem" where
  "list_iterator_free i m = m\<lparr>iter_pool := list_free_aux i (iter_pool m)\<rparr>"


section \<open>Nodes\<close>

definition load :: "'a list_mem \<Rightarrow> slurm_list \<Rightarrow> link \<Rightarrow> nat option option" where
  "load m l pp = (case pp of Head \<Rightarrow> Some (l_head l) | Next a \<Rightarrow> map_option node_next (cells m a))"

definition store_link :: "link \<Rightarrow> nat option \<Rightarrow> 'a list_mem \<times> slurm_list \<Rightarrow> ('a list_mem \<times> slurm_list) option" where
  "store_link pp v = (\<lambda>(m, l).
     case pp of
       Head \<Rightarrow> Some (m, l\<lparr>l_head := v\<rparr>)
     | Next a \<Rightarrow> do { nd \<leftarrow> cells m a; Some (m\<lparr>cells := (cells m)(a \<mapsto> nd\<lparr>node_next := v\<rparr>)\<rparr>, l) })"

text \<open>The assertion on every iterator after a change: at or one node past its \<^verbatim>\<open>prev\<close> link.\<close>

definition assert_iterator :: "'a list_mem \<Rightarrow> slurm_list \<Rightarrow> listIterator \<Rightarrow> unit option" where
  "assert_iterator m l i = do {
     q \<leftarrow> load m l (it_prev i);
     (if it_pos i = q then Some ()
      else do { a \<leftarrow> q; nd \<leftarrow> cells m a; assertC (it_pos i = node_next nd) }) }"

fun fix_iterators :: "(listIterator \<Rightarrow> listIterator) \<Rightarrow> 'a list_mem \<Rightarrow> slurm_list \<Rightarrow> (nat \<times> listIterator) list \<Rightarrow>
    (nat \<times> listIterator) list option" where
  "fix_iterators f m l [] = Some []"
| "fix_iterators f m l ((i, it) # its) = do {
     assert_iterator m l (f it);
     its \<leftarrow> fix_iterators f m l its;
     Some ((i, f it) # its) }"

definition list_node_create :: "link \<Rightarrow> 'a \<Rightarrow> 'a list_mem \<times> slurm_list \<Rightarrow> ('a list_mem \<times> slurm_list) option" where
  "list_node_create pp x = (\<lambda>(m, l). do {
     let (p, m) = list_node_alloc m;
     nx \<leftarrow> load m l pp;
     let m = m\<lparr>cells := (cells m)(p \<mapsto> \<lparr>node_data = x, node_next = nx\<rparr>)\<rparr>;
     let l = (if nx = None then l\<lparr>l_tail := Next p\<rparr> else l);
     (m, l) \<leftarrow> store_link pp (Some p) (m, l);
     let l = l\<lparr>l_count := l_count l + 1\<rparr>;
     its \<leftarrow> fix_iterators
       (\<lambda>i. if it_prev i = pp then i\<lparr>it_prev := Next p\<rparr>
            else if it_pos i = nx then i\<lparr>it_pos := Some p\<rparr> else i) m l (l_iters l);
     Some (m, l\<lparr>l_iters := its\<rparr>) })"

definition list_node_destroy :: "link \<Rightarrow> 'a list_mem \<times> slurm_list \<Rightarrow> ('a option \<times> 'a list_mem \<times> slurm_list) option" where
  "list_node_destroy pp = (\<lambda>(m, l). do {
     q \<leftarrow> load m l pp;
     (case q of
        None \<Rightarrow> Some (None, m, l)
      | Some p \<Rightarrow> do {
          nd \<leftarrow> cells m p;
          (m, l) \<leftarrow> store_link pp (node_next nd) (m, l);
          let l = (if node_next nd = None then l\<lparr>l_tail := pp\<rparr> else l);
          let l = l\<lparr>l_count := l_count l - 1\<rparr>;
          its \<leftarrow> fix_iterators
            (\<lambda>i. if it_pos i = Some p then i\<lparr>it_pos := node_next nd, it_prev := pp\<rparr>
                 else if it_prev i = Next p then i\<lparr>it_prev := pp\<rparr> else i) m l (l_iters l);
          Some (Some (node_data nd), list_node_free p m, l\<lparr>l_iters := its\<rparr>) }) })"


section \<open>Lists\<close>

definition list_create :: "bool \<Rightarrow> slurm_list" where
  "list_create f = \<lparr>l_head = None, l_tail = Head, l_iters = [], l_fDel = f, l_count = 0\<rparr>"

definition call_fDel :: "slurm_list \<Rightarrow> 'a \<Rightarrow> 'a list_mem \<Rightarrow> 'a list_mem" where
  "call_fDel l v m = (if l_fDel l then m\<lparr>deleted := deleted m @ [v]\<rparr> else m)"

partial_function (option) destroy_nodes :: "slurm_list \<Rightarrow> nat option \<Rightarrow> 'a list_mem \<Rightarrow> 'a list_mem option" where
  "destroy_nodes l q m =
     (case q of
        None \<Rightarrow> Some m
      | Some p \<Rightarrow> do {
          nd \<leftarrow> cells m p;
          destroy_nodes l (node_next nd) (list_node_free p (call_fDel l (node_data nd) m)) })"

definition list_destroy :: "'a list_mem \<times> slurm_list \<Rightarrow> 'a list_mem option" where
  "list_destroy = (\<lambda>(m, l). destroy_nodes l (l_head l) (fold (\<lambda>(i, it). list_iterator_free i) (l_iters l) m))"

definition list_is_empty :: "slurm_list \<Rightarrow> bool" where
  "list_is_empty l = (l_count l = 0)"

definition list_count :: "slurm_list \<Rightarrow> int" where
  "list_count l = l_count l"

definition list_append :: "'a \<Rightarrow> 'a list_mem \<times> slurm_list \<Rightarrow> ('a list_mem \<times> slurm_list) option" where
  "list_append x = (\<lambda>(m, l). list_node_create (l_tail l) x (m, l))"

definition list_prepend :: "'a \<Rightarrow> 'a list_mem \<times> slurm_list \<Rightarrow> ('a list_mem \<times> slurm_list) option" where
  "list_prepend x = list_node_create Head x"

definition list_pop :: "'a list_mem \<times> slurm_list \<Rightarrow> ('a option \<times> 'a list_mem \<times> slurm_list) option" where
  "list_pop = list_node_destroy Head"

definition list_peek :: "'a list_mem \<times> slurm_list \<Rightarrow> 'a option option" where
  "list_peek = (\<lambda>(m, l).
     case l_head l of None \<Rightarrow> Some None | Some p \<Rightarrow> do { nd \<leftarrow> cells m p; Some (Some (node_data nd)) })"

partial_function (option) find_from :: "('a \<Rightarrow> bool) \<Rightarrow> 'a list_mem \<Rightarrow> nat option \<Rightarrow> 'a option option" where
  "find_from f m q =
     (case q of
        None \<Rightarrow> Some None
      | Some p \<Rightarrow> do {
          nd \<leftarrow> cells m p;
          (if f (node_data nd) then Some (Some (node_data nd)) else find_from f m (node_next nd)) })"

definition list_find_first :: "('a \<Rightarrow> bool) \<Rightarrow> 'a list_mem \<times> slurm_list \<Rightarrow> 'a option option" where
  "list_find_first f = (\<lambda>(m, l). find_from f m (l_head l))"

partial_function (option) delete_from :: "('a \<Rightarrow> bool) \<Rightarrow> link \<Rightarrow> int \<Rightarrow> 'a list_mem \<times> slurm_list \<Rightarrow>
    (int \<times> 'a list_mem \<times> slurm_list) option" where
  "delete_from f pp n s = do {
     q \<leftarrow> load (fst s) (snd s) pp;
     (case q of
        None \<Rightarrow> Some (n, s)
      | Some p \<Rightarrow> do {
          nd \<leftarrow> cells (fst s) p;
          (if f (node_data nd)
           then do {
             (v, m, l) \<leftarrow> list_node_destroy pp s;
             (case v of
                None \<Rightarrow> delete_from f pp n (m, l)
              | Some v \<Rightarrow> delete_from f pp (n + 1) (call_fDel l v m, l)) }
           else delete_from f (Next p) n s) }) }"

definition list_delete_all :: "('a \<Rightarrow> bool) \<Rightarrow> 'a list_mem \<times> slurm_list \<Rightarrow> (int \<times> 'a list_mem \<times> slurm_list) option" where
  "list_delete_all f = delete_from f Head 0"

partial_function (option) for_each_from :: "('a \<Rightarrow> 's \<Rightarrow> int \<times> 's) \<Rightarrow> 'a list_mem \<Rightarrow> nat option \<Rightarrow> int \<Rightarrow> 's \<Rightarrow>
    (int \<times> 's) option" where
  "for_each_from f m q n arg =
     (case q of
        None \<Rightarrow> Some (n, arg)
      | Some p \<Rightarrow> do {
          nd \<leftarrow> cells m p;
          let (r, arg) = f (node_data nd) arg;
          (if r < 0 then Some (- (n + 1), arg) else for_each_from f m (node_next nd) (n + 1) arg) })"

definition list_for_each :: "('a \<Rightarrow> 's \<Rightarrow> int \<times> 's) \<Rightarrow> 's \<Rightarrow> 'a list_mem \<times> slurm_list \<Rightarrow> (int \<times> 's) option" where
  "list_for_each f arg = (\<lambda>(m, l). for_each_from f m (l_head l) 0 arg)"

partial_function (option) flush_from :: "int \<Rightarrow> 'a list_mem \<times> slurm_list \<Rightarrow> (int \<times> 'a list_mem \<times> slurm_list) option" where
  "flush_from n s = do {
     q \<leftarrow> load (fst s) (snd s) Head;
     (if q = None then Some (n, s)
      else do {
        (v, m, l) \<leftarrow> list_node_destroy Head s;
        (case v of
           None \<Rightarrow> flush_from n (m, l)
         | Some v \<Rightarrow> flush_from (n + 1) (call_fDel l v m, l)) }) }"

definition list_flush :: "'a list_mem \<times> slurm_list \<Rightarrow> (int \<times> 'a list_mem \<times> slurm_list) option" where
  "list_flush = flush_from 0"

text \<open>
  \<^verbatim>\<open>list_sort\<close> pops all items into an array, sorts it with the function \<open>qsort\<close> of the C library and
  appends them again. Writing past the end of the array is undefined.
\<close>

partial_function (option) pop_all :: "nat \<Rightarrow> 'a list \<Rightarrow> 'a list_mem \<times> slurm_list \<Rightarrow> ('a list \<times> 'a list_mem \<times> slurm_list) option" where
  "pop_all lsize v s = do {
     (e, s) \<leftarrow> list_pop s;
     (case e of
        None \<Rightarrow> Some (v, s)
      | Some e \<Rightarrow> do { assertC (length v < lsize); pop_all lsize (v @ [e]) s }) }"

definition reset_iterator :: "slurm_list \<Rightarrow> listIterator" where
  "reset_iterator l = \<lparr>it_pos = l_head l, it_prev = Head\<rparr>"

definition list_sort :: "('a list \<Rightarrow> 'a list) \<Rightarrow> 'a list_mem \<times> slurm_list \<Rightarrow> ('a list_mem \<times> slurm_list) option" where
  "list_sort qsort s =
     (if l_count (snd s) \<le> 1 then Some s
      else do {
        let lsize = nat (l_count (snd s));
        (v, s) \<leftarrow> pop_all lsize [] s;
        let v = qsort v;
        (m, l) \<leftarrow> forM [0..<lsize] (\<lambda>n s. do { x \<leftarrow> readA v n; list_append x s }) s;
        Some (m, l\<lparr>l_iters := map (\<lambda>(i, it). (i, reset_iterator l)) (l_iters l)\<rparr>) })"

partial_function (option) transfer_from :: "int \<Rightarrow> 'a list_mem \<Rightarrow> slurm_list \<Rightarrow> slurm_list \<Rightarrow>
    (int \<times> 'a list_mem \<times> slurm_list \<times> slurm_list) option" where
  "transfer_from n m l sub = do {
     (v, m, sub) \<leftarrow> list_pop (m, sub);
     (case v of
        None \<Rightarrow> Some (n, m, l, sub)
      | Some v \<Rightarrow> do { (m, l) \<leftarrow> list_append v (m, l); transfer_from (n + 1) m l sub }) }"

definition list_transfer :: "'a list_mem \<Rightarrow> slurm_list \<Rightarrow> slurm_list \<Rightarrow> (int \<times> 'a list_mem \<times> slurm_list \<times> slurm_list) option" where
  "list_transfer m l sub = do { assertC (l_fDel l = l_fDel sub); transfer_from 0 m l sub }"


section \<open>Iterators\<close>

definition iterator_of :: "nat \<Rightarrow> slurm_list \<Rightarrow> listIterator option" where
  "iterator_of i l = map_of (l_iters l) i"

definition set_iterator :: "nat \<Rightarrow> listIterator \<Rightarrow> slurm_list \<Rightarrow> slurm_list" where
  "set_iterator i it l = l\<lparr>l_iters := map (\<lambda>(j, x). (j, if j = i then it else x)) (l_iters l)\<rparr>"

definition list_iterator_create :: "'a list_mem \<times> slurm_list \<Rightarrow> nat \<times> 'a list_mem \<times> slurm_list" where
  "list_iterator_create = (\<lambda>(m, l).
     let (i, m) = list_iterator_alloc m
     in (i, m, l\<lparr>l_iters := (i, reset_iterator l) # l_iters l\<rparr>))"

definition list_iterator_reset :: "nat \<Rightarrow> slurm_list \<Rightarrow> slurm_list option" where
  "list_iterator_reset i l = do { iterator_of i l; Some (set_iterator i (reset_iterator l) l) }"

fun unchain :: "nat \<Rightarrow> (nat \<times> listIterator) list \<Rightarrow> (nat \<times> listIterator) list" where
  "unchain i [] = []"
| "unchain i ((j, it) # its) = (if j = i then its else (j, it) # unchain i its)"

definition list_iterator_destroy :: "nat \<Rightarrow> 'a list_mem \<times> slurm_list \<Rightarrow> ('a list_mem \<times> slurm_list) option" where
  "list_iterator_destroy i = (\<lambda>(m, l). do {
     iterator_of i l;
     Some (list_iterator_free i m, l\<lparr>l_iters := unchain i (l_iters l)\<rparr>) })"

definition node_value :: "'a list_mem \<Rightarrow> nat option \<Rightarrow> 'a option option" where
  "node_value m q = (case q of None \<Rightarrow> Some None | Some p \<Rightarrow> do { nd \<leftarrow> cells m p; Some (Some (node_data nd)) })"

definition list_next :: "nat \<Rightarrow> 'a list_mem \<times> slurm_list \<Rightarrow> ('a option \<times> 'a list_mem \<times> slurm_list) option" where
  "list_next i = (\<lambda>(m, l). do {
     it \<leftarrow> iterator_of i l;
     let p = it_pos it;
     it \<leftarrow> (case p of None \<Rightarrow> Some it | Some a \<Rightarrow> do { nd \<leftarrow> cells m a; Some (it\<lparr>it_pos := node_next nd\<rparr>) });
     q \<leftarrow> load m l (it_prev it);
     it \<leftarrow> (if q \<noteq> p then do { a \<leftarrow> q; Some (it\<lparr>it_prev := Next a\<rparr>) } else Some it);
     v \<leftarrow> node_value m p;
     Some (v, m, set_iterator i it l) })"

definition list_peek_next :: "nat \<Rightarrow> 'a list_mem \<times> slurm_list \<Rightarrow> 'a option option" where
  "list_peek_next i = (\<lambda>(m, l). do { it \<leftarrow> iterator_of i l; node_value m (it_pos it) })"

definition list_insert :: "nat \<Rightarrow> 'a \<Rightarrow> 'a list_mem \<times> slurm_list \<Rightarrow> ('a list_mem \<times> slurm_list) option" where
  "list_insert i x = (\<lambda>(m, l). do { it \<leftarrow> iterator_of i l; list_node_create (it_prev it) x (m, l) })"

partial_function (option) list_find :: "nat \<Rightarrow> ('a \<Rightarrow> bool) \<Rightarrow> 'a list_mem \<times> slurm_list \<Rightarrow>
    ('a option \<times> 'a list_mem \<times> slurm_list) option" where
  "list_find i f s = do {
     (v, s) \<leftarrow> list_next i s;
     (case v of
        None \<Rightarrow> Some (None, s)
      | Some x \<Rightarrow> if f x then Some (Some x, s) else list_find i f s) }"

definition list_remove :: "nat \<Rightarrow> 'a list_mem \<times> slurm_list \<Rightarrow> ('a option \<times> 'a list_mem \<times> slurm_list) option" where
  "list_remove i = (\<lambda>(m, l). do {
     it \<leftarrow> iterator_of i l;
     q \<leftarrow> load m l (it_prev it);
     (if q \<noteq> it_pos it then list_node_destroy (it_prev it) (m, l) else Some (None, m, l)) })"

definition list_delete_item :: "nat \<Rightarrow> 'a list_mem \<times> slurm_list \<Rightarrow> (int \<times> 'a list_mem \<times> slurm_list) option" where
  "list_delete_item i s = do {
     (v, m, l) \<leftarrow> list_remove i s;
     Some (case v of None \<Rightarrow> (0, m, l) | Some v \<Rightarrow> (1, call_fDel l v m, l)) }"

text \<open>\<^verbatim>\<open>list_append_list\<close> walks \<open>sub\<close> with an iterator of its own; \<open>l\<close> is another list.\<close>

partial_function (option) append_from :: "nat \<Rightarrow> int \<Rightarrow> 'a list_mem \<Rightarrow> slurm_list \<Rightarrow> slurm_list \<Rightarrow>
    (int \<times> 'a list_mem \<times> slurm_list \<times> slurm_list) option" where
  "append_from i n m l sub = do {
     (v, m, sub) \<leftarrow> list_next i (m, sub);
     (case v of
        None \<Rightarrow> Some (n, m, l, sub)
      | Some v \<Rightarrow> do { (m, l) \<leftarrow> list_append v (m, l); append_from i (n + 1) m l sub }) }"

definition list_append_list :: "'a list_mem \<Rightarrow> slurm_list \<Rightarrow> slurm_list \<Rightarrow> (int \<times> 'a list_mem \<times> slurm_list \<times> slurm_list) option" where
  "list_append_list m l sub = do {
     assertC (\<not> l_fDel l);
     let (i, m, sub) = list_iterator_create (m, sub);
     (n, m, l, sub) \<leftarrow> append_from i 0 m l sub;
     (m, sub) \<leftarrow> list_iterator_destroy i (m, sub);
     Some (n, m, l, sub) }"

end
