(* ===== verification/Linked_List_Nodes.thy ===== *)
theory Linked_List_Nodes
  imports Linked_List
begin

text \<open>
  What the nodes of a list represent: a sequence of items, and for each iterator how many items are
  before it and whether the last one can still be removed through it. Inserting and removing a node
  keep the representation, and leave other nodes alone.
\<close>

section \<open>Representation\<close>

definition nth_opt :: "'v list \<Rightarrow> nat \<Rightarrow> 'v option" where
  "nth_opt xs k = (if k < length xs then Some (xs ! k) else None)"

text \<open>The link that points to the node at position \<open>k\<close>.\<close>

definition lnk :: "nat list \<Rightarrow> nat \<Rightarrow> link" where
  "lnk as k = (if k = 0 then Head else Next (as ! (k - 1)))"

text \<open>An iterator before item \<open>k\<close>; \<open>r\<close> when item \<open>k - 1\<close> is removed by \<^verbatim>\<open>list_remove\<close>.\<close>

type_synonym cursor = "nat \<times> nat \<times> bool"

definition iter_at :: "nat list \<Rightarrow> nat \<Rightarrow> bool \<Rightarrow> listIterator" where
  "iter_at as k r = \<lparr>it_pos = nth_opt as k, it_prev = lnk as (if r then k - 1 else k)\<rparr>"

definition cursor_ok :: "nat \<Rightarrow> cursor \<Rightarrow> bool" where
  "cursor_ok n = (\<lambda>(i, k, r). k \<le> n \<and> (r \<longrightarrow> 0 < k))"

definition iters_of :: "nat list \<Rightarrow> cursor list \<Rightarrow> (nat \<times> listIterator) list" where
  "iters_of as ks = map (\<lambda>(i, k, r). (i, iter_at as k r)) ks"

definition rep :: "'a list_mem \<Rightarrow> slurm_list \<Rightarrow> nat list \<Rightarrow> 'a list \<Rightarrow> cursor list \<Rightarrow> bool" where
  "rep m l as xs ks \<longleftrightarrow>
     length xs = length as \<and> distinct as \<and> l_head l = nth_opt as 0 \<and>
     (\<forall>k < length as. cells m (as ! k) = Some \<lparr>node_data = xs ! k, node_next = nth_opt as (Suc k)\<rparr>) \<and>
     l_tail l = lnk as (length as) \<and> l_count l = int (length as) \<and>
     l_iters l = iters_of as ks \<and> list_all (cursor_ok (length as)) ks"

definition pool_ok :: "pool \<Rightarrow> nat set \<Rightarrow> bool" where
  "pool_ok pl U \<longleftrightarrow> distinct (pool_free pl) \<and> (\<forall>a \<in> set (pool_free pl). a < pool_top pl \<and> a \<notin> U) \<and> (\<forall>a \<in> U. a < pool_top pl)"

abbreviation mem_ok :: "'a list_mem \<Rightarrow> bool" where
  "mem_ok m \<equiv> pool_ok (node_pool m) {a. cells m a \<noteq> None}"

text \<open>Nodes outside \<open>A\<close> are the same in both memories, and so is all else.\<close>

definition only :: "nat set \<Rightarrow> 'a list_mem \<Rightarrow> 'a list_mem \<Rightarrow> bool" where
  "only A m m' \<longleftrightarrow> (\<forall>a. a \<notin> A \<longrightarrow> cells m' a = cells m a) \<and> iter_pool m' = iter_pool m \<and> deleted m' = deleted m"

lemma nth_opt_simps [simp]: "k < length xs \<Longrightarrow> nth_opt xs k = Some (xs ! k)" "length xs \<le> k \<Longrightarrow> nth_opt xs k = None"
  by (simp_all add: nth_opt_def)

lemma nth_opt_inj:
  assumes "distinct as" and "j \<le> length as" and "k \<le> length as"
  shows "nth_opt as j = nth_opt as k \<longleftrightarrow> j = k"
  using assms by (auto simp: nth_opt_def nth_eq_iff_index_eq)

lemma lnk_inj:
  assumes "distinct as" and "j \<le> length as" and "k \<le> length as"
  shows "lnk as j = lnk as k \<longleftrightarrow> j = k"
  using assms nth_eq_iff_index_eq [of as "j - 1" "k - 1"] by (cases j; cases k) (auto simp: lnk_def)

lemma lnk_0 [simp]: "lnk as 0 = Head"
  by (simp add: lnk_def)

lemma lnk_Suc: "lnk as (Suc k) = Next (as ! k)"
  by (simp add: lnk_def)

lemma load_lnk:
  assumes "rep m l as xs ks" and "k \<le> length as"
  shows "load m l (lnk as k) = Some (nth_opt as k)"
  using assms by (cases k) (auto simp: load_def lnk_def rep_def)

lemma nth_opt_insert:
  "j \<le> length as \<Longrightarrow> nth_opt (insert_nth j p as) k = (if k < j then nth_opt as k else if k = j then Some p else nth_opt as (k - 1))"
  by (auto simp: nth_opt_def length_insert_nth nth_insert_nth)

lemma lnk_insert:
  "j \<le> length as \<Longrightarrow> k \<le> Suc (length as) \<Longrightarrow>
    lnk (insert_nth j p as) k = (if k \<le> j then lnk as k else if k = Suc j then Next p else lnk as (k - 1))"
  by (auto simp: lnk_def nth_insert_nth)

lemma nth_opt_remove:
  "j < length as \<Longrightarrow> nth_opt (remove_nth j as) k = nth_opt as (if k < j then k else Suc k)"
  by (auto simp: nth_opt_def length_remove_nth nth_remove_nth)

lemma lnk_remove:
  "j < length as \<Longrightarrow> k < length as \<Longrightarrow> lnk (remove_nth j as) k = lnk as (if k \<le> j then k else Suc k)"
  by (auto simp: lnk_def nth_remove_nth)

lemma rep_frame:
  assumes "rep m l as xs ks" and "only A m m'" and "set as \<inter> A = {}"
  shows "rep m' l as xs ks"
  using assms unfolding rep_def only_def by (metis disjoint_iff nth_mem)

lemma alloc_aux_ok:
  assumes "pool_ok pl U" and "list_alloc_aux pl = (p, pl')"
  shows "p \<notin> U" and "pool_ok pl' (insert p U)"
proof -
  define q where "q = (if pool_free pl = []
    then \<lparr>pool_free = [pool_top pl..<pool_top pl + LIST_ALLOC], pool_top = pool_top pl + LIST_ALLOC\<rparr> else pl)"
  have "pool_ok q U" "pool_free q \<noteq> []"
    using assms(1) by (auto simp: q_def pool_ok_def LIST_ALLOC_def)
  moreover have "p = hd (pool_free q)" "pl' = q\<lparr>pool_free := tl (pool_free q)\<rparr>"
    using assms(2) by (auto simp: list_alloc_aux_def q_def [symmetric] Let_def)
  ultimately show "p \<notin> U" "pool_ok pl' (insert p U)" by (cases "pool_free q"; auto simp: pool_ok_def)+
qed

lemma free_aux_ok: "pool_ok pl U \<Longrightarrow> p \<in> U \<Longrightarrow> pool_ok (list_free_aux p pl) (U - {p})"
  by (auto simp: pool_ok_def list_free_aux_def)


section \<open>Iterators\<close>

definition cur_insert :: "nat \<Rightarrow> cursor \<Rightarrow> cursor" where
  "cur_insert j = (\<lambda>(i, k, r).
     if k < j then (i, k, r) else if k = j then (if r then (i, k, True) else (i, Suc k, False)) else (i, Suc k, r))"

definition cur_remove :: "nat \<Rightarrow> cursor \<Rightarrow> cursor" where
  "cur_remove j = (\<lambda>(i, k, r).
     if k < j then (i, k, r) else if k = j \<or> k = Suc j then (i, j, False) else (i, k - 1, r))"

lemma assert_iterator_at:
  assumes "length xs = length as" and "l_head l = nth_opt as 0" and "k \<le> length as" and "r \<longrightarrow> 0 < k"
    and "\<forall>k < length as. cells m (as ! k) = Some \<lparr>node_data = xs ! k, node_next = nth_opt as (Suc k)\<rparr>"
  shows "assert_iterator m l (iter_at as k r) = Some ()"
proof -
  have ld: "load m l (lnk as j) = Some (nth_opt as j)" if "j \<le> length as" for j
    using assms(2,5) that by (cases j) (auto simp: load_def lnk_def)
  show ?thesis
  proof (cases r)
    case True
    then obtain j where "k = Suc j" using assms(4) by (cases k) auto
    then show ?thesis using True assms(3,5) ld [of j] by (simp add: assert_iterator_def iter_at_def)
  next
    case False
    then show ?thesis using assms(3) ld [of k] by (simp add: assert_iterator_def iter_at_def)
  qed
qed

lemma fix_iterators_map:
  assumes "\<And>i k r. (i, k, r) \<in> set ks \<Longrightarrow> f (iter_at as k r) = iter_at as' (fst (snd (g (i, k, r)))) (snd (snd (g (i, k, r)))) \<and>
      fst (g (i, k, r)) = i \<and> assert_iterator m l (f (iter_at as k r)) = Some ()"
  shows "fix_iterators f m l (iters_of as ks) = Some (iters_of as' (map g ks))"
  using assms
proof (induction ks)
  case (Cons c ks)
  obtain i k r where c: "c = (i, k, r)" by (cases c) auto
  have "fix_iterators f m l (iters_of as ks) = Some (iters_of as' (map g ks))" by (rule Cons.IH) (use Cons.prems in auto)
  then show ?case using Cons.prems [of i k r] c by (auto simp: iters_of_def split: prod.split)
qed (simp add: iters_of_def)

lemma insert_iterator:
  assumes "distinct as" and "p \<notin> set as" and "j \<le> length as" and "cursor_ok (length as) (i, k, r)"
  shows "(if it_prev (iter_at as k r) = lnk as j then (iter_at as k r)\<lparr>it_prev := Next p\<rparr>
      else if it_pos (iter_at as k r) = nth_opt as j then (iter_at as k r)\<lparr>it_pos := Some p\<rparr> else iter_at as k r) =
    iter_at (insert_nth j p as) (fst (snd (cur_insert j (i, k, r)))) (snd (snd (cur_insert j (i, k, r))))"
proof -
  have k: "k \<le> length as" "r \<longrightarrow> 0 < k" using assms(4) by (simp_all add: cursor_ok_def)
  have p: "it_prev (iter_at as k r) = lnk as j \<longleftrightarrow> (if r then k - 1 else k) = j"
    using k assms(1,3) by (simp add: iter_at_def lnk_inj)
  have q: "it_pos (iter_at as k r) = nth_opt as j \<longleftrightarrow> k = j"
    using k assms(1,3) by (simp add: iter_at_def nth_opt_inj)
  show ?thesis
    unfolding p q using k assms(3) by (cases r) (auto simp: iter_at_def cur_insert_def nth_opt_insert lnk_insert)
qed

lemma remove_iterator:
  assumes "distinct as" and "j < length as" and "cursor_ok (length as) (i, k, r)"
  shows "(if it_pos (iter_at as k r) = Some (as ! j) then (iter_at as k r)\<lparr>it_pos := nth_opt as (Suc j), it_prev := lnk as j\<rparr>
      else if it_prev (iter_at as k r) = Next (as ! j) then (iter_at as k r)\<lparr>it_prev := lnk as j\<rparr> else iter_at as k r) =
    iter_at (remove_nth j as) (fst (snd (cur_remove j (i, k, r)))) (snd (snd (cur_remove j (i, k, r))))"
proof -
  have k: "k \<le> length as" "r \<longrightarrow> 0 < k" using assms(3) by (simp_all add: cursor_ok_def)
  have p: "it_prev (iter_at as k r) = Next (as ! j) \<longleftrightarrow> (if r then k - 1 else k) = Suc j"
    using k assms(1,2) by (simp add: iter_at_def lnk_inj flip: lnk_Suc)
  have q: "it_pos (iter_at as k r) = Some (as ! j) \<longleftrightarrow> k = j"
    using k assms(1,2) nth_opt_inj [of as k j] by (simp add: iter_at_def)
  consider "k < j" | "k = j" | "k = Suc j" | n where "k = Suc (Suc n)" "j \<le> n"
  proof -
    have "k < j \<or> k = j \<or> k = Suc j \<or> Suc j < k" by arith
    moreover have "k = Suc (Suc (k - 2))" "j \<le> k - 2" if "Suc j < k" using that by arith+
    ultimately show thesis using that by blast
  qed
  then show ?thesis
  proof cases
    case 1
    then have "k - 1 \<le> j" by simp
    then show ?thesis unfolding p q using 1 k assms(2) by (cases r) (simp_all add: iter_at_def cur_remove_def nth_opt_remove lnk_remove)
  next
    case 2
    then show ?thesis unfolding p q using k assms(2) by (cases r) (simp_all add: iter_at_def cur_remove_def nth_opt_remove lnk_remove)
  next
    case 3
    then show ?thesis unfolding p q using k assms(2) by (cases r) (simp_all add: iter_at_def cur_remove_def nth_opt_remove lnk_remove)
  next
    case (4 n)
    then show ?thesis unfolding p q using k assms(2) by (cases r) (auto simp: iter_at_def cur_remove_def nth_opt_remove lnk_remove)
  qed
qed

lemma cursor_insert_ok: "j \<le> n \<Longrightarrow> cursor_ok n c \<Longrightarrow> cursor_ok (Suc n) (cur_insert j c)"
  by (cases c) (auto simp: cursor_ok_def cur_insert_def)

lemma cursor_remove_ok: "j < n \<Longrightarrow> cursor_ok n c \<Longrightarrow> cursor_ok (n - 1) (cur_remove j c)"
  by (cases c) (auto simp: cursor_ok_def cur_remove_def)

lemma cursor_ids [simp]: "fst (cur_insert j c) = fst c" "fst (cur_remove j c) = fst c"
  by (cases c; simp add: cur_insert_def cur_remove_def)+



section \<open>Inserting and removing a node\<close>

lemma insert_cells:
  assumes "distinct as" and "p \<notin> set as" and "length xs = length as" and "j \<le> length as" and "k \<le> length as"
    and "\<forall>k < length as. c (as ! k) = Some \<lparr>node_data = xs ! k, node_next = nth_opt as (Suc k)\<rparr>"
  shows "(if insert_nth j p as ! k = p then Some \<lparr>node_data = x, node_next = nth_opt as j\<rparr>
      else if 0 < j \<and> insert_nth j p as ! k = as ! (j - 1) then Some \<lparr>node_data = xs ! (j - 1), node_next = Some p\<rparr>
      else c (insert_nth j p as ! k)) =
    Some \<lparr>node_data = insert_nth j x xs ! k, node_next = nth_opt (insert_nth j p as) (Suc k)\<rparr>"
proof -
  have np: "as ! i \<noteq> p" if "i < length as" for i using assms(2) that nth_mem by blast
  have eq: "as ! i = as ! (j - 1) \<longleftrightarrow> i = j - 1" if "i < length as" "0 < j" for i
    using assms(1,4) that by (simp add: nth_eq_iff_index_eq)
  consider "k < j" | "k = j" | "j < k" by linarith
  then show ?thesis
  proof cases
    case 1
    then show ?thesis using assms(3-6) np [of k] eq [of k] by (auto simp: nth_insert_nth nth_opt_insert)
  next
    case 2
    then show ?thesis using assms(3,4) by (simp add: nth_insert_nth nth_opt_insert)
  next
    case 3
    then have "k - 1 < length as" "Suc (k - 1) = k" "k - 1 \<noteq> j - 1 \<or> j = 0" using assms(5) by auto
    then show ?thesis using 3 assms(3-6) np [of "k - 1"] eq [of "k - 1"] by (auto simp: nth_insert_nth nth_opt_insert)
  qed
qed

lemma create_Some:
  assumes "rep m l as xs ks" and "mem_ok m" and "j \<le> length as"
  shows "\<exists>m' l' p. list_node_create (lnk as j) x (m, l) = Some (m', l') \<and>
    rep m' l' (insert_nth j p as) (insert_nth j x xs) (map (cur_insert j) ks) \<and>
    cells m p = None \<and> mem_ok m' \<and> only (insert p (set as)) m m' \<and> l_fDel l' = l_fDel l"
proof -
  obtain p pl where p: "list_alloc_aux (node_pool m) = (p, pl)" by (cases "list_alloc_aux (node_pool m)") auto
  have new: "cells m p = None" "pool_ok pl (insert p {a. cells m a \<noteq> None})" using alloc_aux_ok [OF assms(2) p] by simp_all
  have dist: "distinct as" "length xs = length as" "list_all (cursor_ok (length as)) ks"
    and c: "\<forall>k < length as. cells m (as ! k) = Some \<lparr>node_data = xs ! k, node_next = nth_opt as (Suc k)\<rparr>"
    and hd: "l_head l = nth_opt as 0" "l_iters l = iters_of as ks" "l_tail l = lnk as (length as)" "l_count l = int (length as)"
    using assms(1) by (auto simp: rep_def)
  have pn: "p \<notin> set as" using c new(1) by (metis in_set_conv_nth option.distinct(1))
  let ?as = "insert_nth j p as" and ?xs = "insert_nth j x xs" and ?nx = "nth_opt as j"
  define m' where "m' = m\<lparr>node_pool := pl, cells := (\<lambda>a. if a = p then Some \<lparr>node_data = x, node_next = ?nx\<rparr>
      else if 0 < j \<and> a = as ! (j - 1) then Some \<lparr>node_data = xs ! (j - 1), node_next = Some p\<rparr> else cells m a)\<rparr>"
  define l' where "l' = l\<lparr>l_head := nth_opt ?as 0, l_tail := lnk ?as (Suc (length as)), l_count := l_count l + 1\<rparr>"
  define l2 where "l2 = l'\<lparr>l_iters := iters_of ?as (map (cur_insert j) ks)\<rparr>"
  let ?f = "\<lambda>i. if it_prev i = lnk as j then i\<lparr>it_prev := Next p\<rparr> else if it_pos i = ?nx then i\<lparr>it_pos := Some p\<rparr> else i"
  have cells': "\<forall>k < length ?as. cells m' (?as ! k) = Some \<lparr>node_data = ?xs ! k, node_next = nth_opt ?as (Suc k)\<rparr>"
    using insert_cells [OF dist(1) pn dist(2) assms(3) _ c, of _ x] assms(3) by (simp add: m'_def length_insert_nth)
  have its: "fix_iterators ?f m' l' (iters_of as ks) = Some (iters_of ?as (map (cur_insert j) ks))"
  proof (rule fix_iterators_map)
    fix i k r
    assume "(i, k, r) \<in> set ks"
    then have ok: "cursor_ok (length as) (i, k, r)" using dist(3) by (auto simp: list_all_iff)
    note f = insert_iterator [OF dist(1) pn assms(3) ok]
    have "cursor_ok (length ?as) (cur_insert j (i, k, r))" using cursor_insert_ok [OF assms(3) ok] assms(3) by (simp add: length_insert_nth)
    then show "?f (iter_at as k r) = iter_at ?as (fst (snd (cur_insert j (i, k, r)))) (snd (snd (cur_insert j (i, k, r)))) \<and>
        fst (cur_insert j (i, k, r)) = i \<and> assert_iterator m' l' (?f (iter_at as k r)) = Some ()"
      unfolding f using assert_iterator_at [of ?xs ?as l' _ _ m', OF _ _ _ _ cells'] dist(2) assms(3) cursor_ids(1) [of j "(i, k, r)"]
      by (cases "cur_insert j (i, k, r)") (auto simp: cursor_ok_def length_insert_nth l'_def)
  qed
  let ?m1 = "m\<lparr>node_pool := pl, cells := (cells m)(p \<mapsto> \<lparr>node_data = x, node_next = ?nx\<rparr>)\<rparr>"
  let ?l1 = "if ?nx = None then l\<lparr>l_tail := Next p\<rparr> else l"
  have tl: "lnk ?as (Suc (length as)) = (if ?nx = None then Next p else lnk as (length as))"
    using assms(3) by (auto simp: lnk_insert nth_opt_def)
  have st: "store_link (lnk as j) (Some p) (?m1, ?l1) = Some (m', l'\<lparr>l_count := l_count l\<rparr>)"
  proof (cases j)
    case 0
    have "m' = ?m1" unfolding m'_def 0 by (simp add: fun_upd_def cong: if_cong)
    then show ?thesis using 0 hd tl by (auto simp: store_link_def l'_def nth_opt_insert)
  next
    case (Suc i)
    then have "as ! i \<noteq> p" using assms(3) pn nth_mem [of i as] by auto
    then show ?thesis using Suc hd tl c assms(3)
      by (auto simp: store_link_def lnk_def m'_def l'_def nth_opt_insert fun_upd_def fun_eq_iff cong: if_cong)
  qed
  have ld: "load (m\<lparr>node_pool := pl\<rparr>) l (lnk as j) = Some ?nx"
    using load_lnk [OF assms(1,3)] by (simp add: load_def split: link.splits)
  have "list_node_create (lnk as j) x (m, l) = Some (m', l2)"
    using ld st its hd(2) by (simp add: list_node_create_def list_node_alloc_def p Let_def l2_def l'_def)
  moreover have "rep m' l2 ?as ?xs (map (cur_insert j) ks)"
    using dist pn assms(3) cells' hd
    by (auto simp: rep_def l2_def l'_def length_insert_nth distinct_insert_nth list_all_iff cursor_insert_ok)
  moreover have "mem_ok m'"
  proof -
    have "{a. cells m' a \<noteq> None} = insert p {a. cells m a \<noteq> None}" using c assms(3) by (auto simp: m'_def)
    then show ?thesis using new(2) by (simp add: m'_def)
  qed
  moreover have "only (insert p (set as)) m m'" using assms(3) by (auto simp: only_def m'_def)
  ultimately show ?thesis using new(1) by (intro exI [of _ m'] exI [of _ l2] exI [of _ p]) (simp add: l2_def l'_def)
qed


lemma destroy_end:
  assumes "rep m l as xs ks"
  shows "list_node_destroy (lnk as (length as)) (m, l) = Some (None, m, l)"
  using load_lnk [OF assms, of "length as"] by (simp add: list_node_destroy_def)

lemma remove_cells:
  assumes "distinct as" and "length xs = length as" and "j < length as" and "k < length as - 1"
    and "\<forall>k < length as. c (as ! k) = Some \<lparr>node_data = xs ! k, node_next = nth_opt as (Suc k)\<rparr>"
  shows "(if 0 < j \<and> remove_nth j as ! k = as ! (j - 1) then Some \<lparr>node_data = xs ! (j - 1), node_next = nth_opt as (Suc j)\<rparr>
      else c (remove_nth j as ! k)) =
    Some \<lparr>node_data = remove_nth j xs ! k, node_next = nth_opt (remove_nth j as) (Suc k)\<rparr>"
proof -
  have eq: "as ! i = as ! (j - 1) \<longleftrightarrow> i = j - 1" if "i < length as" "0 < j" for i
    using assms(1,3) that by (simp add: nth_eq_iff_index_eq)
  show ?thesis
  proof (cases "k < j")
    case True
    then show ?thesis using assms(2-5) eq [of k] by (auto simp: nth_remove_nth nth_opt_remove)
  next
    case False
    then have "\<not> (0 < j \<and> as ! Suc k = as ! (j - 1))" using less_diff_conv [THEN iffD1, OF assms(4)] eq [of "Suc k"] by auto
    then show ?thesis using False assms(2-5) by (auto simp: nth_remove_nth nth_opt_remove)
  qed
qed

lemma destroy_Some:
  assumes "rep m l as xs ks" and "mem_ok m" and "j < length as"
  shows "\<exists>m' l'. list_node_destroy (lnk as j) (m, l) = Some (Some (xs ! j), m', l') \<and>
    rep m' l' (remove_nth j as) (remove_nth j xs) (map (cur_remove j) ks) \<and>
    cells m' (as ! j) = None \<and> mem_ok m' \<and> only (set as) m m' \<and> l_fDel l' = l_fDel l"
proof -
  have dist: "distinct as" "length xs = length as" "list_all (cursor_ok (length as)) ks"
    and c: "\<forall>k < length as. cells m (as ! k) = Some \<lparr>node_data = xs ! k, node_next = nth_opt as (Suc k)\<rparr>"
    and hd: "l_head l = nth_opt as 0" "l_iters l = iters_of as ks" "l_tail l = lnk as (length as)" "l_count l = int (length as)"
    using assms(1) by (auto simp: rep_def)
  let ?p = "as ! j" and ?as = "remove_nth j as" and ?xs = "remove_nth j xs" and ?nx = "nth_opt as (Suc j)"
  define m1 where "m1 = m\<lparr>cells := (\<lambda>a. if 0 < j \<and> a = as ! (j - 1) then Some \<lparr>node_data = xs ! (j - 1), node_next = ?nx\<rparr> else cells m a)\<rparr>"
  define l' where "l' = l\<lparr>l_head := nth_opt ?as 0, l_tail := lnk ?as (length as - 1), l_count := l_count l - 1\<rparr>"
  define l2 where "l2 = l'\<lparr>l_iters := iters_of ?as (map (cur_remove j) ks)\<rparr>"
  let ?f = "\<lambda>i. if it_pos i = Some ?p then i\<lparr>it_pos := ?nx, it_prev := lnk as j\<rparr> else if it_prev i = Next ?p then i\<lparr>it_prev := lnk as j\<rparr> else i"
  have len: "length ?as = length as - 1" "length ?xs = length as - 1" using assms(3) dist(2) by (simp_all add: length_remove_nth)
  have cells': "\<forall>k < length ?as. cells m1 (?as ! k) = Some \<lparr>node_data = ?xs ! k, node_next = nth_opt ?as (Suc k)\<rparr>"
    using remove_cells [OF dist(1,2) assms(3) _ c] len by (simp add: m1_def)
  have its: "fix_iterators ?f m1 l' (iters_of as ks) = Some (iters_of ?as (map (cur_remove j) ks))"
  proof (rule fix_iterators_map)
    fix i k r
    assume "(i, k, r) \<in> set ks"
    then have ok: "cursor_ok (length as) (i, k, r)" using dist(3) by (auto simp: list_all_iff)
    note f = remove_iterator [OF dist(1) assms(3) ok]
    have "cursor_ok (length ?as) (cur_remove j (i, k, r))" using cursor_remove_ok [OF assms(3) ok] len by simp
    then show "?f (iter_at as k r) = iter_at ?as (fst (snd (cur_remove j (i, k, r)))) (snd (snd (cur_remove j (i, k, r)))) \<and>
        fst (cur_remove j (i, k, r)) = i \<and> assert_iterator m1 l' (?f (iter_at as k r)) = Some ()"
      unfolding f using assert_iterator_at [of ?xs ?as l' _ _ m1, OF _ _ _ _ cells'] len cursor_ids(2) [of j "(i, k, r)"]
      by (cases "cur_remove j (i, k, r)") (auto simp: cursor_ok_def l'_def)
  qed
  obtain n where n: "length as = Suc n" using assms(3) by (cases "length as") auto
  have tl: "lnk ?as (length as - 1) = (if ?nx = None then lnk as j else lnk as (length as))"
    using assms(3) unfolding n by (cases "j = n") (auto simp: lnk_remove nth_opt_def n)
  have lt: "l\<lparr>l_head := h, l_tail := lnk as (length as)\<rparr> = l\<lparr>l_head := h\<rparr>" for h using hd(3) by (cases l) simp
  have st: "store_link (lnk as j) ?nx (m, l) = Some (m1, l\<lparr>l_head := nth_opt ?as 0, l_tail := lnk as (length as)\<rparr>)"
    unfolding lt using hd(1) c assms(3) by (cases j) (auto simp: store_link_def lnk_def m1_def nth_opt_remove fun_upd_def cong: if_cong)
  have "list_node_destroy (lnk as j) (m, l) = Some (Some (xs ! j), list_node_free ?p m1, l2)"
    using load_lnk [OF assms(1), of j] assms(3) c st its hd(2,3) tl
    by (auto simp: list_node_destroy_def Let_def l2_def l'_def cong: if_cong)
  moreover have ck: "list_all (cursor_ok (length as - 1)) (map (cur_remove j) ks)"
    unfolding list_all_iff set_map using dist(3) cursor_remove_ok [OF assms(3)] unfolding list_all_iff by blast
  moreover have np: "?as ! k \<noteq> ?p" if "k < length ?as" for k
    using set_remove_nth [OF dist(1) assms(3)] that nth_mem [of k ?as] by auto
  then have "rep (list_node_free ?p m1) l2 ?as ?xs (map (cur_remove j) ks)"
    using dist(1,2) assms(3) cells' hd len ck
    by (auto simp: rep_def l2_def l'_def distinct_remove_nth list_node_free_def of_nat_diff)
  moreover have "{a. cells (list_node_free ?p m1) a \<noteq> None} = {a. cells m a \<noteq> None} - {?p}"
    using c assms(3) by (auto simp: list_node_free_def m1_def)
  then have "mem_ok (list_node_free ?p m1)"
    using free_aux_ok [OF assms(2), of ?p] c assms(3) by (simp add: list_node_free_def m1_def)
  moreover have "only (set as) m (list_node_free ?p m1)" using assms(3) by (auto simp: only_def m1_def list_node_free_def)
  moreover have "cells (list_node_free ?p m1) ?p = None" by (simp add: list_node_free_def)
  ultimately show ?thesis by (intro exI [of _ "list_node_free ?p m1"] exI [of _ l2]) (simp add: l2_def l'_def)
qed

end
