(* ===== verification/Linked_List_Refine.thy ===== *)
theory Linked_List_Refine
  imports Linked_List_Nodes Transition
begin

text \<open>
  The lists of src/common/list.c refine sequences with cursors: any sequence of calls, with any
  number of iterators in use, runs without a fault and returns what the operations on sequences
  return. No operation makes an iterator skip or repeat an item that stays in the list.
\<close>

section \<open>Sequences with cursors\<close>

text \<open>
  A cursor is the address of its iterator, the number of items before it, and whether the last of
  these is the one that \<^verbatim>\<open>list_remove\<close> would take.
\<close>

record 'a seq_list =
  items :: "'a list"
  cursors :: "cursor list"
  ids :: pool
  freed :: "'a list"
  owns :: bool

datatype 'a list_op =
  Append 'a | Prepend 'a | Pop | Peek | Count | Is_Empty | Find_First "'a \<Rightarrow> bool" | Delete_All "'a \<Rightarrow> bool" | Flush
| Sort "'a list \<Rightarrow> 'a list" | Iter_Create | Iter_Reset nat | Iter_Destroy nat | Iter_Next nat | Iter_Peek nat
| Iter_Insert nat 'a | Iter_Find nat "'a \<Rightarrow> bool" | Iter_Remove nat | Iter_Delete nat

datatype 'a list_res = Done | Item "'a option" | Number int | Iter nat

definition insert_item :: "nat \<Rightarrow> 'a \<Rightarrow> 'a seq_list \<Rightarrow> 'a seq_list" where
  "insert_item j x s = s\<lparr>items := insert_nth j x (items s), cursors := map (cur_insert j) (cursors s)\<rparr>"

definition remove_item :: "nat \<Rightarrow> 'a seq_list \<Rightarrow> 'a seq_list" where
  "remove_item j s = s\<lparr>items := remove_nth j (items s), cursors := map (cur_remove j) (cursors s)\<rparr>"

definition free_items :: "'a list \<Rightarrow> 'a seq_list \<Rightarrow> 'a seq_list" where
  "free_items xs s = (if owns s then s\<lparr>freed := freed s @ xs\<rparr> else s)"

definition set_cursor :: "nat \<Rightarrow> nat \<Rightarrow> bool \<Rightarrow> 'a seq_list \<Rightarrow> 'a seq_list" where
  "set_cursor i k r s = s\<lparr>cursors := map (\<lambda>(j, c). (j, if j = i then (k, r) else c)) (cursors s)\<rparr>"

text \<open>
  Deleting all items that satisfy \<open>f\<close>: a cursor stays before the first item after it that is left.
\<close>

definition cur_filter :: "('a \<Rightarrow> bool) \<Rightarrow> 'a list \<Rightarrow> cursor \<Rightarrow> cursor" where
  "cur_filter f xs = (\<lambda>(i, k, r).
     (i, length (filter (\<lambda>x. \<not> f x) (take k xs)), r \<and> \<not> f (xs ! (k - 1)) \<and> (k < length xs \<longrightarrow> \<not> f (xs ! k))))"

definition delete_items :: "('a \<Rightarrow> bool) \<Rightarrow> 'a seq_list \<Rightarrow> 'a list_res \<times> 'a seq_list" where
  "delete_items f s =
     (Number (int (length (filter f (items s)))),
      free_items (filter f (items s))
        (s\<lparr>items := filter (\<lambda>x. \<not> f x) (items s), cursors := map (cur_filter f (items s)) (cursors s)\<rparr>))"

definition head_opt :: "'a list \<Rightarrow> 'a option" where
  "head_opt xs = (case xs of [] \<Rightarrow> None | x # xs \<Rightarrow> Some x)"

fun spec :: "'a list_op \<Rightarrow> 'a seq_list \<Rightarrow> ('a list_res \<times> 'a seq_list) option" where
  "spec (Append x) s = Some (Done, insert_item (length (items s)) x s)"
| "spec (Prepend x) s = Some (Done, insert_item 0 x s)"
| "spec Pop s = Some (Item (head_opt (items s)), if items s = [] then s else remove_item 0 s)"
| "spec Peek s = Some (Item (head_opt (items s)), s)"
| "spec Count s = Some (Number (int (length (items s))), s)"
| "spec Is_Empty s = Some (Number (if items s = [] then 1 else 0), s)"
| "spec (Find_First f) s = Some (Item (find f (items s)), s)"
| "spec (Delete_All f) s = Some (delete_items f s)"
| "spec Flush s = Some (delete_items (\<lambda>x. True) s)"
| "spec (Sort qsort) s =
     (if length (items s) \<le> 1 then Some (Done, s)
      else if length (qsort (items s)) \<noteq> length (items s) then None
      else Some (Done, s\<lparr>items := qsort (items s), cursors := map (\<lambda>(i, c). (i, 0, False)) (cursors s)\<rparr>))"
| "spec Iter_Create s =
     (let (i, pl) = list_alloc_aux (ids s) in Some (Iter i, s\<lparr>cursors := (i, 0, False) # cursors s, ids := pl\<rparr>))"
| "spec (Iter_Reset i) s = do { map_of (cursors s) i; Some (Done, set_cursor i 0 False s) }"
| "spec (Iter_Destroy i) s = do {
     map_of (cursors s) i;
     Some (Done, s\<lparr>cursors := filter (\<lambda>c. fst c \<noteq> i) (cursors s), ids := list_free_aux i (ids s)\<rparr>) }"
| "spec (Iter_Next i) s = do {
     (k, r) \<leftarrow> map_of (cursors s) i;
     Some (Item (nth_opt (items s) k),
       if k < length (items s) then set_cursor i (Suc k) True s else set_cursor i k False s) }"
| "spec (Iter_Peek i) s = do { (k, r) \<leftarrow> map_of (cursors s) i; Some (Item (nth_opt (items s) k), s) }"
| "spec (Iter_Insert i x) s = do {
     (k, r) \<leftarrow> map_of (cursors s) i;
     Some (Done, insert_item (if r then k - 1 else k) x s) }"
| "spec (Iter_Find i f) s = do {
     (k, r) \<leftarrow> map_of (cursors s) i;
     let j = k + length (takeWhile (\<lambda>x. \<not> f x) (drop k (items s)));
     Some (Item (nth_opt (items s) j),
       if j < length (items s) then set_cursor i (Suc j) True s else set_cursor i j False s) }"
| "spec (Iter_Remove i) s = do {
     (k, r) \<leftarrow> map_of (cursors s) i;
     Some (if r then (Item (Some (items s ! (k - 1))), remove_item (k - 1) s) else (Item None, s)) }"
| "spec (Iter_Delete i) s = do {
     (k, r) \<leftarrow> map_of (cursors s) i;
     Some (if r then (Number 1, free_items [items s ! (k - 1)] (remove_item (k - 1) s)) else (Number 0, s)) }"


section \<open>Calls\<close>

definition no_result :: "('a list_mem \<times> slurm_list) option \<Rightarrow> ('a list_res \<times> 'a list_mem \<times> slurm_list) option" where
  "no_result = map_option (\<lambda>c. (Done, c))"

fun exec :: "'a list_op \<Rightarrow> 'a list_mem \<times> slurm_list \<Rightarrow> ('a list_res \<times> 'a list_mem \<times> slurm_list) option" where
  "exec (Append x) c = no_result (list_append x c)"
| "exec (Prepend x) c = no_result (list_prepend x c)"
| "exec Pop c = map_option (map_prod Item id) (list_pop c)"
| "exec Peek c = map_option (\<lambda>v. (Item v, c)) (list_peek c)"
| "exec Count c = Some (Number (list_count (snd c)), c)"
| "exec Is_Empty c = Some (Number (if list_is_empty (snd c) then 1 else 0), c)"
| "exec (Find_First f) c = map_option (\<lambda>v. (Item v, c)) (list_find_first f c)"
| "exec (Delete_All f) c = map_option (map_prod Number id) (list_delete_all f c)"
| "exec Flush c = map_option (map_prod Number id) (list_flush c)"
| "exec (Sort qsort) c = no_result (list_sort qsort c)"
| "exec Iter_Create c = Some (map_prod Iter id (list_iterator_create c))"
| "exec (Iter_Reset i) c = map_option (\<lambda>l. (Done, fst c, l)) (list_iterator_reset i (snd c))"
| "exec (Iter_Destroy i) c = no_result (list_iterator_destroy i c)"
| "exec (Iter_Next i) c = map_option (map_prod Item id) (list_next i c)"
| "exec (Iter_Peek i) c = map_option (\<lambda>v. (Item v, c)) (list_peek_next i c)"
| "exec (Iter_Insert i x) c = no_result (list_insert i x c)"
| "exec (Iter_Find i f) c = map_option (map_prod Item id) (list_find i f c)"
| "exec (Iter_Remove i) c = map_option (map_prod Item id) (list_remove i c)"
| "exec (Iter_Delete i) c = map_option (map_prod Number id) (list_delete_item i c)"

text \<open>
  A list in memory stands for a sequence: its nodes hold the items in order, memory outside them is
  \<open>F\<close>, and its iterators are apart from those of other lists, \<open>U\<close>.
\<close>

definition outside :: "(nat \<Rightarrow> 'a listNode option) \<Rightarrow> nat list \<Rightarrow> 'a list_mem \<Rightarrow> bool" where
  "outside F as m \<longleftrightarrow> (\<forall>a. a \<notin> set as \<longrightarrow> cells m a = F a) \<and> (\<forall>a \<in> set as. F a = None)"

definition iters_ok :: "nat set \<Rightarrow> cursor list \<Rightarrow> pool \<Rightarrow> bool" where
  "iters_ok U ks pl \<longleftrightarrow> distinct (map fst ks) \<and> U \<inter> set (map fst ks) = {} \<and> pool_ok pl (U \<union> set (map fst ks))"

definition holds :: "(nat \<Rightarrow> 'a listNode option) \<Rightarrow> nat set \<Rightarrow> 'a seq_list \<Rightarrow> nat list \<Rightarrow> 'a list_mem \<Rightarrow> slurm_list \<Rightarrow> bool" where
  "holds F U s as m l \<longleftrightarrow> rep m l as (items s) (cursors s) \<and> outside F as m \<and> mem_ok m \<and>
     iters_ok U (cursors s) (iter_pool m) \<and> ids s = iter_pool m \<and> freed s = deleted m \<and> owns s = l_fDel l"

definition sim :: "(nat \<Rightarrow> 'a listNode option) \<Rightarrow> nat set \<Rightarrow> 'a seq_list \<Rightarrow> 'a list_mem \<times> slurm_list \<Rightarrow> bool" where
  "sim F U s = (\<lambda>(m, l). \<exists>as. holds F U s as m l)"

lemma cursors_updated [simp]: "fst \<circ> cur_insert j = fst" "fst \<circ> cur_remove j = fst"
  by (simp_all add: fun_eq_iff)

lemma cursors_image [simp]: "fst ` cur_insert j ` C = fst ` C" "fst ` cur_remove j ` C = fst ` C"
  by (simp_all add: image_image)

lemma holds_insert:
  assumes "holds F U s as m l" and "j \<le> length (items s)"
  shows "\<exists>p m' l'. list_node_create (lnk as j) x (m, l) = Some (m', l') \<and> holds F U (insert_item j x s) (insert_nth j p as) m' l'"
proof -
  have r: "rep m l as (items s) (cursors s)" and j: "mem_ok m" "j \<le> length as" using assms by (auto simp: holds_def rep_def)
  from create_Some [OF r j, of x] obtain m' l' p where
    c: "list_node_create (lnk as j) x (m, l) = Some (m', l')"
      "rep m' l' (insert_nth j p as) (insert_nth j x (items s)) (map (cur_insert j) (cursors s))"
      "cells m p = None" "mem_ok m'" "only (insert p (set as)) m m'" "l_fDel l' = l_fDel l" by blast
  have "outside F (insert_nth j p as) m'"
    using assms(1) c(3,5) by (auto simp: holds_def outside_def only_def set_insert_nth split: if_splits)
  then have "holds F U (insert_item j x s) (insert_nth j p as) m' l'"
    using assms(1) c by (auto simp: holds_def insert_item_def only_def iters_ok_def)
  with c(1) show ?thesis by blast
qed

lemma holds_remove:
  assumes "holds F U s as m l" and "j < length (items s)"
  shows "\<exists>m' l'. list_node_destroy (lnk as j) (m, l) = Some (Some (items s ! j), m', l') \<and> holds F U (remove_item j s) (remove_nth j as) m' l'"
proof -
  have r: "rep m l as (items s) (cursors s)" and j: "mem_ok m" "j < length as" "distinct as" using assms by (auto simp: holds_def rep_def)
  from destroy_Some [OF r j(1,2)] obtain m' l' where
    c: "list_node_destroy (lnk as j) (m, l) = Some (Some (items s ! j), m', l')"
      "rep m' l' (remove_nth j as) (remove_nth j (items s)) (map (cur_remove j) (cursors s))"
      "cells m' (as ! j) = None" "mem_ok m'" "only (set as) m m'" "l_fDel l' = l_fDel l" by blast
  have "outside F (remove_nth j as) m'"
    using assms(1) c(3,5) j(2) by (auto simp: holds_def outside_def only_def set_remove_nth [OF j(3,2)] split: if_splits)
  then have "holds F U (remove_item j s) (remove_nth j as) m' l'"
    using assms(1) c by (auto simp: holds_def remove_item_def only_def iters_ok_def)
  with c(1) show ?thesis by blast
qed

lemma holds_free: "holds F U s as m l \<Longrightarrow> holds F U (free_items [v] s) as (call_fDel l v m) l"
  by (auto simp: holds_def free_items_def call_fDel_def rep_def outside_def)

lemma holds_head: "holds F U s as m l \<Longrightarrow> load m l Head = Some (nth_opt as 0)" "holds F U s as m l \<Longrightarrow> length as = length (items s)"
  by (auto simp: holds_def rep_def load_def)

lemma holds_load: "holds F U s as m l \<Longrightarrow> k \<le> length (items s) \<Longrightarrow> load m l (lnk as k) = Some (nth_opt as k)"
  by (auto simp: holds_def rep_def intro!: load_lnk)

lemma holds_cell:
  "holds F U s as m l \<Longrightarrow> k < length (items s) \<Longrightarrow> cells m (as ! k) = Some \<lparr>node_data = items s ! k, node_next = nth_opt as (Suc k)\<rparr>"
  by (auto simp: holds_def rep_def)

lemma holds_value: "holds F U s as m l \<Longrightarrow> node_value m (nth_opt as k) = Some (nth_opt (items s) k)"
  using holds_cell [of F U s as m l k] holds_head(2) [of F U s as m l] by (cases "k < length as") (auto simp: node_value_def)

lemma holds_sim: "holds F U s as m l \<Longrightarrow> sim F U s (m, l)"
  by (auto simp: sim_def)

lemma simE:
  assumes "sim F U s c"
  obtains m l as where "c = (m, l)" "holds F U s as m l"
  using assms by (cases c) (auto simp: sim_def)


section \<open>Items\<close>

lemma sim_append: "sim F U s c \<Longrightarrow> \<exists>c'. list_append x c = Some c' \<and> sim F U (insert_item (length (items s)) x s) c'"
proof (erule simE)
  fix m l as assume c: "c = (m, l)" and h: "holds F U s as m l"
  then have "l_tail l = lnk as (length (items s))" by (simp add: holds_def rep_def)
  then show ?thesis using holds_insert [OF h le_refl, of x] c by (auto simp: list_append_def holds_sim)
qed

lemma sim_prepend: "sim F U s c \<Longrightarrow> \<exists>c'. list_prepend x c = Some c' \<and> sim F U (insert_item 0 x s) c'"
proof (erule simE)
  fix m l as assume "c = (m, l)" and h: "holds F U s as m l"
  then show ?thesis using holds_insert [OF h le0, of x] by (auto simp: list_prepend_def holds_sim)
qed

lemma sim_pop:
  "sim F U s c \<Longrightarrow> \<exists>c'. list_pop c = Some (head_opt (items s), c') \<and> sim F U (if items s = [] then s else remove_item 0 s) c'"
proof (erule simE)
  fix m l as assume c: "c = (m, l)" and h: "holds F U s as m l"
  show ?thesis
  proof (cases "items s")
    case Nil
    then show ?thesis using holds_head [OF h] h c by (auto simp: list_pop_def list_node_destroy_def head_opt_def holds_sim)
  next
    case (Cons x xs)
    then show ?thesis using holds_remove [OF h, of 0] c by (auto simp: list_pop_def head_opt_def holds_sim)
  qed
qed

lemma sim_peek: "sim F U s c \<Longrightarrow> list_peek c = Some (head_opt (items s))"
proof (erule simE)
  fix m l as assume c: "c = (m, l)" and h: "holds F U s as m l"
  then have "list_peek c = node_value m (nth_opt as 0)" by (simp add: list_peek_def node_value_def holds_def rep_def)
  then show ?thesis using holds_value [OF h, of 0] by (cases "items s") (auto simp: head_opt_def nth_opt_def)
qed

lemma sim_count: "sim F U s c \<Longrightarrow> list_count (snd c) = int (length (items s)) \<and> (list_is_empty (snd c) \<longleftrightarrow> items s = [])"
  by (erule simE) (auto simp: holds_def rep_def list_count_def list_is_empty_def)

lemma find_from_Some:
  "holds F U s as m l \<Longrightarrow> k \<le> length (items s) \<Longrightarrow> find_from f m (nth_opt as k) = Some (find f (drop k (items s)))"
proof (induction "length (items s) - k" arbitrary: k)
  case 0
  then show ?case using holds_head(2) by (fastforce simp: find_from.simps)
next
  case (Suc d)
  then have k: "k < length (items s)" by simp
  with Suc show ?case using holds_cell [OF Suc.prems(1) k] holds_head(2) [OF Suc.prems(1)]
    by (subst find_from.simps) (simp flip: Cons_nth_drop_Suc)
qed

lemma sim_find_first: "sim F U s c \<Longrightarrow> list_find_first f c = Some (find f (items s))"
proof (erule simE)
  fix m l as assume "c = (m, l)" and h: "holds F U s as m l"
  then show ?thesis using find_from_Some [OF h le0, of f] holds_head(1) [OF h] by (simp add: list_find_first_def load_def)
qed


section \<open>Deleting items\<close>

lemma drop_split: "j < length xs \<Longrightarrow> xs = take j xs @ xs ! j # drop (Suc j) xs"
  by (simp add: Cons_nth_drop_Suc)

lemma filter_remove:
  assumes "j < length xs"
  shows "filter P (take k (remove_nth j xs)) = filter P (take (if k \<le> j then k else Suc k) xs) \<or> P (xs ! j)"
proof (cases "k \<le> j")
  case True
  then show ?thesis using assms by (simp add: remove_nth_def take_append min_def)
next
  case False
  then obtain d where k: "k = Suc j + d" by (metis not_less_eq_eq less_eqE)
  have "take (Suc k) xs = take j xs @ xs ! j # take (Suc d) (drop (Suc j) xs)"
    using assms arg_cong [OF drop_split [OF assms], of "take (Suc k)"] by (simp add: k min_def)
  moreover have "take k (remove_nth j xs) = take j xs @ take (Suc d) (drop (Suc j) xs)"
    using assms by (simp add: remove_nth_def k min_def)
  ultimately show ?thesis using False by (simp del: take_Suc_Cons)
qed

lemma cur_filter_remove:
  assumes "j < length xs" and "f (xs ! j)" and "cursor_ok (length xs) c"
  shows "cur_filter f (remove_nth j xs) (cur_remove j c) = cur_filter f xs c"
proof -
  obtain i k r where c: "c = (i, k, r)" by (cases c) auto
  have k: "k \<le> length xs" "r \<longrightarrow> 0 < k" using assms(3) by (simp_all add: c cursor_ok_def)
  have flt: "filter (\<lambda>x. \<not> f x) (take n (remove_nth j xs)) = filter (\<lambda>x. \<not> f x) (take (if n \<le> j then n else Suc n) xs)" for n
    using filter_remove [OF assms(1), of "\<lambda>x. \<not> f x" n] assms(2) by blast
  have at: "filter (\<lambda>x. \<not> f x) (take (Suc j) xs) = filter (\<lambda>x. \<not> f x) (take j xs)"
    using assms(1,2) by (simp add: take_Suc_conv_app_nth)
  consider "k < j" | "k = j \<or> k = Suc j" | "Suc j < k" by linarith
  then show ?thesis
  proof cases
    case 1
    then show ?thesis using assms(1) flt [of k] by (auto simp: c cur_filter_def cur_remove_def nth_remove_nth length_remove_nth)
  next
    case 2
    then show ?thesis using assms(1,2) flt [of j] at by (auto simp: c cur_filter_def cur_remove_def)
  next
    case 3
    then obtain d where d: "k = Suc (Suc (j + d))" by (auto dest: less_imp_Suc_add)
    then show ?thesis using assms(1) k flt [of "Suc (j + d)"]
      by (auto simp: c cur_filter_def cur_remove_def nth_remove_nth length_remove_nth)
  qed
qed

lemma cur_filter_none:
  assumes "list_all (\<lambda>x. \<not> f x) xs" and "cursor_ok (length xs) c"
  shows "cur_filter f xs c = c"
proof -
  have "filter (\<lambda>x. \<not> f x) (take k xs) = take k xs" for k
    using assms(1) by (auto simp: list_all_iff filter_id_conv dest: in_set_takeD)
  then show ?thesis using assms by (cases c) (auto simp: cur_filter_def cursor_ok_def list_all_iff)
qed

lemma delete_items_none:
  assumes "list_all (\<lambda>x. \<not> f x) (items s)" and "list_all (cursor_ok (length (items s))) (cursors s)"
  shows "delete_items f s = (Number 0, s)"
proof -
  have "filter f (items s) = []" "filter (\<lambda>x. \<not> f x) (items s) = items s" "map (cur_filter f (items s)) (cursors s) = cursors s"
    using assms cur_filter_none [OF assms(1)] by (auto simp: list_all_iff filter_empty_conv intro: map_idI)
  then show ?thesis by (simp add: delete_items_def free_items_def)
qed

lemma delete_items_step:
  assumes "j < length (items s)" and "f (items s ! j)" and "list_all (\<lambda>x. \<not> f x) (take j (items s))"
    and "list_all (cursor_ok (length (items s))) (cursors s)"
  shows "length (filter f (items s)) = Suc (length (filter f (remove_nth j (items s))))"
    and "snd (delete_items f s) = snd (delete_items f (free_items [items s ! j] (remove_item j s)))"
proof -
  let ?xs = "items s"
  have none: "filter f (take j ?xs) = []" using assms(3) by (simp add: list_all_iff filter_empty_conv)
  have split: "filter P ?xs = filter P (take j ?xs) @ (if P (?xs ! j) then [?xs ! j] else []) @ filter P (drop (Suc j) ?xs)" for P
    using arg_cong [OF drop_split [OF assms(1)], of "filter P"] by (simp cong: if_cong)
  have f: "filter f ?xs = ?xs ! j # filter f (remove_nth j ?xs)"
    and nf: "filter (\<lambda>x. \<not> f x) ?xs = filter (\<lambda>x. \<not> f x) (remove_nth j ?xs)"
    using split [of f] split [of "\<lambda>x. \<not> f x"] none assms(2) by (simp_all add: remove_nth_def)
  have cs: "map (cur_filter f (remove_nth j ?xs)) (map (cur_remove j) (cursors s)) = map (cur_filter f ?xs) (cursors s)"
    using assms(4) cur_filter_remove [where f = f, OF assms(1,2)] by (auto simp: list_all_iff)
  show "length (filter f ?xs) = Suc (length (filter f (remove_nth j ?xs)))" by (simp add: f)
  show "snd (delete_items f s) = snd (delete_items f (free_items [?xs ! j] (remove_item j s)))"
    using f nf cs by (auto simp: delete_items_def free_items_def remove_item_def)
qed

lemma free_items_fields [simp]: "items (free_items xs s) = items s" "cursors (free_items xs s) = cursors s"
  by (simp_all add: free_items_def)

lemma remove_item_fields [simp]: "items (remove_item j s) = remove_nth j (items s)" "cursors (remove_item j s) = map (cur_remove j) (cursors s)"
  by (simp_all add: remove_item_def)

lemma delete_from_Some:
  assumes "holds F U s as m l" and "j \<le> length (items s)" and "list_all (\<lambda>x. \<not> f x) (take j (items s))"
  shows "\<exists>c. delete_from f (lnk as j) n (m, l) = Some (n + int (length (filter f (items s))), c) \<and> sim F U (snd (delete_items f s)) c"
  using assms
proof (induction "length (items s) - j" arbitrary: s as m l j n)
  case 0
  have "delete_items f s = (Number 0, s)" "filter f (items s) = []"
    using 0 by (auto simp: holds_def rep_def list_all_iff filter_empty_conv intro!: delete_items_none)
  then show ?case using 0 holds_load [OF 0(2,3)] holds_head(2) [OF 0(2)] by (subst delete_from.simps) (simp add: holds_sim)
next
  case (Suc d)
  let ?x = "items s ! j"
  have j: "j < length (items s)" using Suc.hyps(2) by simp
  note q = holds_load [OF Suc.prems(1,2)] holds_cell [OF Suc.prems(1) j] holds_head(2) [OF Suc.prems(1)]
  show ?case
  proof (cases "f ?x")
    case True
    obtain m' l' where d: "list_node_destroy (lnk as j) (m, l) = Some (Some ?x, m', l')" "holds F U (remove_item j s) (remove_nth j as) m' l'"
      using holds_remove [OF Suc.prems(1) j] by blast
    let ?s = "free_items [?x] (remove_item j s)"
    have "length (items ?s) - j = d" "j \<le> length (items ?s)" "list_all (\<lambda>x. \<not> f x) (take j (items ?s))"
      using Suc.hyps(2) Suc.prems(3) j by (simp_all add: length_remove_nth) (simp add: remove_nth_def min_def)
    note IH = Suc.hyps(1) [OF this(1) [symmetric] holds_free [OF d(2)] this(2,3), of "n + 1"]
    have "lnk (remove_nth j as) j = lnk as j" using j q(3) by (simp add: lnk_remove)
    then show ?thesis using IH d(1) q j True delete_items_step [OF j True Suc.prems(3)] Suc.prems(1)
      by (subst delete_from.simps) (simp add: holds_def rep_def ac_simps)
  next
    case False
    have "d = length (items s) - Suc j" "list_all (\<lambda>x. \<not> f x) (take (Suc j) (items s))"
      using Suc.hyps(2) Suc.prems(3) j False by (simp_all add: take_Suc_conv_app_nth)
    from Suc.hyps(1) [OF this(1) Suc.prems(1) Suc_leI [OF j] this(2), of n]
    show ?thesis using q j False by (subst delete_from.simps) (simp add: lnk_Suc)
  qed
qed

lemma sim_delete_all:
  "sim F U s c \<Longrightarrow> \<exists>c'. list_delete_all f c = Some (int (length (filter f (items s))), c') \<and> sim F U (snd (delete_items f s)) c'"
  by (erule simE) (use delete_from_Some [where j = 0 and n = 0] in \<open>fastforce simp: list_delete_all_def\<close>)

lemma flush_from_Some:
  assumes "holds F U s as m l"
  shows "\<exists>c. flush_from n (m, l) = Some (n + int (length (items s)), c) \<and> sim F U (snd (delete_items (\<lambda>x. True) s)) c"
  using assms
proof (induction "length (items s)" arbitrary: s as m l n)
  case 0
  have "delete_items (\<lambda>x. True) s = (Number 0, s)" using 0 by (auto simp: holds_def rep_def intro!: delete_items_none)
  then show ?case using 0 holds_head [OF 0(2)] by (subst flush_from.simps) (simp add: holds_sim)
next
  case (Suc d)
  have j: "0 < length (items s)" using Suc.hyps(2) by linarith
  let ?x = "items s ! 0" and ?s = "free_items [items s ! 0] (remove_item 0 s)"
  obtain m' l' where d: "list_node_destroy Head (m, l) = Some (Some ?x, m', l')" "holds F U (remove_item 0 s) (remove_nth 0 as) m' l'"
    using holds_remove [OF Suc.prems j] by auto
  have "d = length (items ?s)" using Suc.hyps(2) j by (simp add: length_remove_nth)
  note IH = Suc.hyps(1) [OF this holds_free [OF d(2)], of "n + 1"]
  have len: "int (length (items s)) = int (length (items ?s)) + 1" using j by (cases "items s") (auto simp: remove_nth_def)
  have ok: "list_all (cursor_ok (length (items s))) (cursors s)" using Suc.prems by (simp add: holds_def rep_def)
  have del: "snd (delete_items (\<lambda>x. True) s) = snd (delete_items (\<lambda>x. True) ?s)" by (rule delete_items_step(2) [OF j _ _ ok]) auto
  show ?case unfolding del len using IH d(1) j holds_head [OF Suc.prems] by (subst flush_from.simps) (simp add: ac_simps)
qed

lemma sim_flush:
  "sim F U s c \<Longrightarrow> \<exists>c'. list_flush c = Some (int (length (items s)), c') \<and> sim F U (snd (delete_items (\<lambda>x. True) s)) c'"
  by (erule simE) (use flush_from_Some [where n = 0] in \<open>fastforce simp: list_flush_def\<close>)


section \<open>Iterators\<close>

lemma iterator_lookup:
  assumes "holds F U s as m l" and "map_of (cursors s) i = Some (k, r)"
  shows "iterator_of i l = Some (iter_at as k r)" and "k \<le> length (items s)" and "r \<longrightarrow> 0 < k"
proof -
  have "map_of (iters_of as ks) i = map_option (\<lambda>(k, r). iter_at as k r) (map_of ks i)" for ks
    by (induction ks) (auto simp: iters_of_def split: prod.splits)
  then show "iterator_of i l = Some (iter_at as k r)"
    using assms by (simp add: holds_def rep_def iterator_of_def)
  show "k \<le> length (items s)" "r \<longrightarrow> 0 < k"
    using assms map_of_SomeD [OF assms(2)] by (auto simp: holds_def rep_def list_all_iff cursor_ok_def)
qed

lemma reset_iterator_at: "holds F U s as m l \<Longrightarrow> reset_iterator l = iter_at as 0 False"
  by (simp add: holds_def rep_def reset_iterator_def iter_at_def)

lemma holds_set_cursor:
  assumes "holds F U s as m l" and "k \<le> length (items s)" and "r \<longrightarrow> 0 < k"
  shows "holds F U (set_cursor i k r s) as m (set_iterator i (iter_at as k r) l)"
proof -
  let ?g = "\<lambda>(j, c). (j, if j = i then (k, r) else c)"
  have ids: "map fst (map ?g ks) = map fst ks" for ks :: "cursor list" by (induction ks) auto
  have its: "iters_of as (map ?g ks) = map (\<lambda>(j, x). (j, if j = i then iter_at as k r else x)) (iters_of as ks)" for ks
    by (induction ks) (auto simp: iters_of_def)
  have ok: "list_all (cursor_ok (length (items s))) (map ?g ks)" if "list_all (cursor_ok (length (items s))) ks" for ks
    using that assms(2,3) by (induction ks) (auto simp: cursor_ok_def split: if_splits)
  have "rep m (set_iterator i (iter_at as k r) l) as (items s) (map ?g (cursors s))"
    using assms(1) its [of "cursors s"] ok [of "cursors s"] by (simp add: holds_def rep_def set_iterator_def)
  moreover have "iters_ok U (map ?g (cursors s)) (iter_pool m)"
    using assms(1) unfolding holds_def iters_ok_def ids by blast
  ultimately show ?thesis using assms(1) by (simp add: holds_def set_cursor_def set_iterator_def)
qed

lemma holds_iterator_create:
  assumes "holds F U s as m l" and "list_alloc_aux (ids s) = (i, pl)"
  shows "\<exists>l'. list_iterator_create (m, l) = (i, m\<lparr>iter_pool := pl\<rparr>, l') \<and>
    holds F U (s\<lparr>cursors := (i, 0, False) # cursors s, ids := pl\<rparr>) as (m\<lparr>iter_pool := pl\<rparr>) l'"
    and "i \<notin> fst ` set (cursors s)"
proof -
  have "pool_ok (ids s) (U \<union> set (map fst (cursors s)))" "ids s = iter_pool m" using assms(1) by (simp_all add: holds_def iters_ok_def)
  note i = alloc_aux_ok [OF this(1) assms(2)] this(2)
  have "iters_ok U ((i, 0, False) # cursors s) pl" using i(1,2) assms(1) by (auto simp: holds_def iters_ok_def)
  then have "holds F U (s\<lparr>cursors := (i, 0, False) # cursors s, ids := pl\<rparr>) as (m\<lparr>iter_pool := pl\<rparr>) (l\<lparr>l_iters := (i, reset_iterator l) # l_iters l\<rparr>)"
    using assms(1) reset_iterator_at [OF assms(1)] by (auto simp: holds_def rep_def iters_of_def outside_def cursor_ok_def)
  then show "\<exists>l'. list_iterator_create (m, l) = (i, m\<lparr>iter_pool := pl\<rparr>, l') \<and>
      holds F U (s\<lparr>cursors := (i, 0, False) # cursors s, ids := pl\<rparr>) as (m\<lparr>iter_pool := pl\<rparr>) l'"
    using assms(2) i(3) by (auto simp: list_iterator_create_def list_iterator_alloc_def)
  show "i \<notin> fst ` set (cursors s)" using i(1) by simp
qed

lemma sim_iterator_create:
  assumes "sim F U s c" and "list_alloc_aux (ids s) = (i, pl)"
  shows "\<exists>c'. list_iterator_create c = (i, c') \<and> sim F U (s\<lparr>cursors := (i, 0, False) # cursors s, ids := pl\<rparr>) c'"
  using assms(1) by (rule simE) (use holds_iterator_create(1) [OF _ assms(2)] in \<open>blast intro: holds_sim\<close>)

lemma sim_iterator_reset:
  assumes "sim F U s c" and "map_of (cursors s) i = Some kr"
  shows "\<exists>l'. list_iterator_reset i (snd c) = Some l' \<and> sim F U (set_cursor i 0 False s) (fst c, l')"
proof -
  obtain m l as where c: "c = (m, l)" and h: "holds F U s as m l" using assms(1) by (rule simE)
  show ?thesis using holds_set_cursor [OF h le0, of False i] iterator_lookup(1) [OF h, of i] assms(2) c reset_iterator_at [OF h]
    by (cases kr) (auto simp: list_iterator_reset_def holds_sim)
qed

lemma unchain_filter:
  "distinct (map fst ks) \<Longrightarrow> unchain i (iters_of as ks) = iters_of as (filter (\<lambda>c. fst c \<noteq> i) ks)"
proof (induction ks)
  case (Cons c ks)
  have "i \<notin> fst ` set ks" if "fst c = i" using Cons.prems that by auto
  then have "filter (\<lambda>c. fst c \<noteq> i) ks = ks" if "fst c = i" using that by (metis (mono_tags, lifting) filter_True imageI)
  with Cons show ?case by (cases c) (auto simp: iters_of_def)
qed (simp add: iters_of_def)

lemma holds_iterator_destroy:
  assumes "holds F U s as m l" and "map_of (cursors s) i = Some kr"
  shows "\<exists>l'. list_iterator_destroy i (m, l) = Some (list_iterator_free i m, l') \<and>
    holds F U (s\<lparr>cursors := filter (\<lambda>c. fst c \<noteq> i) (cursors s), ids := list_free_aux i (ids s)\<rparr>) as (list_iterator_free i m) l'"
proof -
  let ?ks = "filter (\<lambda>c. fst c \<noteq> i) (cursors s)"
  have ks: "distinct (map fst (cursors s))" "U \<inter> set (map fst (cursors s)) = {}" "pool_ok (iter_pool m) (U \<union> set (map fst (cursors s)))"
    using assms(1) by (simp_all add: holds_def iters_ok_def)
  have i: "i \<in> set (map fst (cursors s))" using map_of_SomeD [OF assms(2)] by force
  have "U \<union> set (map fst (cursors s)) - {i} = U \<union> set (map fst ?ks)" using ks(2) i by auto
  then have "iters_ok U ?ks (list_free_aux i (iter_pool m))"
    using free_aux_ok [OF ks(3), of i] i ks(1,2) by (auto simp: iters_ok_def distinct_map inj_on_def)
  then have "holds F U (s\<lparr>cursors := ?ks, ids := list_free_aux i (ids s)\<rparr>) as (list_iterator_free i m) (l\<lparr>l_iters := unchain i (l_iters l)\<rparr>)"
    using assms(1) unchain_filter [OF ks(1)] by (auto simp: holds_def rep_def list_iterator_free_def outside_def list_all_iff)
  then show ?thesis using iterator_lookup(1) [OF assms(1), of i] assms(2) by (cases kr) (auto simp: list_iterator_destroy_def)
qed

lemma sim_iterator_destroy:
  assumes "sim F U s c" and "map_of (cursors s) i = Some kr"
  shows "\<exists>c'. list_iterator_destroy i c = Some c' \<and>
    sim F U (s\<lparr>cursors := filter (\<lambda>c. fst c \<noteq> i) (cursors s), ids := list_free_aux i (ids s)\<rparr>) c'"
  using assms(1) by (rule simE) (use holds_iterator_destroy [OF _ assms(2)] in \<open>blast intro: holds_sim\<close>)

lemma holds_next:
  assumes "holds F U s as m l" and "map_of (cursors s) i = Some (k, r)"
  shows "\<exists>l'. list_next i (m, l) = Some (nth_opt (items s) k, m, l') \<and>
    holds F U (if k < length (items s) then set_cursor i (Suc k) True s else set_cursor i k False s) as m l'"
proof -
  note it = iterator_lookup [OF assms]
  have len: "length as = length (items s)" and dist: "distinct as" using assms(1) by (simp_all add: holds_def rep_def)
  have q: "load m l (it_prev (iter_at as k r)) = Some (nth_opt as (if r then k - 1 else k))"
    using it(2) holds_load [OF assms(1)] by (simp add: iter_at_def)
  have ne: "nth_opt as (k - 1) \<noteq> nth_opt as k" if r using nth_opt_inj [OF dist, of "k - 1" k] that it(2,3) len by auto
  have prev: "r \<Longrightarrow> nth_opt as (k - 1) = Some (as ! (k - 1)) \<and> Next (as ! (k - 1)) = lnk as k" using it(2,3) len by (auto simp: lnk_def)
  show ?thesis
  proof (cases "k < length (items s)")
    case True
    then have "list_next i (m, l) = Some (nth_opt (items s) k, m, set_iterator i (iter_at as (Suc k) True) l)"
      using it(1) q ne prev holds_cell [OF assms(1) True] holds_value [OF assms(1), of k] len
      by (cases r) (simp_all add: list_next_def iter_at_def)
    then show ?thesis using True holds_set_cursor [OF assms(1), of "Suc k" True i] by simp
  next
    case False
    then have "list_next i (m, l) = Some (nth_opt (items s) k, m, set_iterator i (iter_at as k False) l)"
      using it(1) q ne prev holds_value [OF assms(1), of k] len
      by (cases r) (simp_all add: list_next_def iter_at_def)
    then show ?thesis using False it(2) holds_set_cursor [OF assms(1), of k False i] by simp
  qed
qed

lemma sim_peek_next:
  assumes "sim F U s c" and "map_of (cursors s) i = Some (k, r)"
  shows "list_peek_next i c = Some (nth_opt (items s) k)"
proof -
  obtain m l as where c: "c = (m, l)" and h: "holds F U s as m l" using assms(1) by (rule simE)
  show ?thesis using iterator_lookup(1) [OF h assms(2)] holds_value [OF h, of k] c by (simp add: list_peek_next_def iter_at_def)
qed

lemma sim_insert:
  assumes "sim F U s c" and "map_of (cursors s) i = Some (k, r)"
  shows "\<exists>c'. list_insert i x c = Some c' \<and> sim F U (insert_item (if r then k - 1 else k) x s) c'"
proof -
  obtain m l as where c: "c = (m, l)" and h: "holds F U s as m l" using assms(1) by (rule simE)
  note it = iterator_lookup [OF h assms(2)]
  have "(if r then k - 1 else k) \<le> length (items s)" using it(2) by (cases r) auto
  from holds_insert [OF h this, of x] show ?thesis using it(1) c by (auto simp: list_insert_def iter_at_def holds_sim)
qed

lemma holds_iter_remove:
  assumes "holds F U s as m l" and "map_of (cursors s) i = Some (k, r)"
  shows "\<exists>m' l' as'. list_remove i (m, l) = Some (if r then Some (items s ! (k - 1)) else None, m', l') \<and>
    holds F U (if r then remove_item (k - 1) s else s) as' m' l'"
proof -
  note it = iterator_lookup [OF assms]
  have len: "length as = length (items s)" and dist: "distinct as" using assms(1) by (simp_all add: holds_def rep_def)
  have q: "load m l (it_prev (iter_at as k r)) = Some (nth_opt as (if r then k - 1 else k))"
    using it(2) holds_load [OF assms(1)] by (simp add: iter_at_def)
  show ?thesis
  proof (cases r)
    case True
    then have "k - 1 < length (items s)" "nth_opt as (k - 1) \<noteq> nth_opt as k"
      using it(2,3) len nth_opt_inj [OF dist, of "k - 1" k] by auto
    then obtain m' l' where "list_remove i (m, l) = Some (Some (items s ! (k - 1)), m', l')"
        "holds F U (remove_item (k - 1) s) (remove_nth (k - 1) as) m' l'"
      using holds_remove [OF assms(1), of "k - 1"] it(1) q True by (auto simp: list_remove_def iter_at_def)
    then show ?thesis using True by auto
  next
    case False
    then show ?thesis using it(1) q assms(1) by (auto simp: list_remove_def iter_at_def)
  qed
qed

lemma set_cursor_simps [simp]:
  "items (set_cursor i k r s) = items s"
  "set_cursor i k r (set_cursor i k' r' s) = set_cursor i k r s"
  by (simp_all add: set_cursor_def comp_def case_prod_beta cong: if_cong)

lemma map_of_set_cursor: "map_of (cursors s) i = Some kr \<Longrightarrow> map_of (cursors (set_cursor i k r s)) i = Some (k, r)"
proof -
  have "map_of ks i = Some kr \<Longrightarrow> map_of (map (\<lambda>(j, c). (j, if j = i then (k, r) else c)) ks) i = Some (k, r)" for ks
    by (induction ks) (auto split: if_splits)
  then show "map_of (cursors s) i = Some kr \<Longrightarrow> map_of (cursors (set_cursor i k r s)) i = Some (k, r)" by (simp add: set_cursor_def)
qed

lemma holds_find:
  assumes "holds F U s as m l" and "map_of (cursors s) i = Some (k, r)"
    and "j = k + length (takeWhile (\<lambda>x. \<not> f x) (drop k (items s)))"
  shows "\<exists>l'. list_find i f (m, l) = Some (nth_opt (items s) j, m, l') \<and>
    holds F U (if j < length (items s) then set_cursor i (Suc j) True s else set_cursor i j False s) as m l'"
  using assms
proof (induction "length (items s) - k" arbitrary: s l k r)
  case 0
  obtain l' where "list_next i (m, l) = Some (nth_opt (items s) k, m, l')"
      "holds F U (if k < length (items s) then set_cursor i (Suc k) True s else set_cursor i k False s) as m l'"
    using holds_next [OF 0(2,3)] by blast
  then show ?case using 0 by (subst list_find.simps) simp
next
  case (Suc d)
  have k: "k < length (items s)" using Suc.hyps(2) by simp
  obtain l' where l': "list_next i (m, l) = Some (Some (items s ! k), m, l')" "holds F U (set_cursor i (Suc k) True s) as m l'"
    using holds_next [OF Suc.prems(1,2)] k by auto
  have dr: "drop k (items s) = items s ! k # drop (Suc k) (items s)" using k by (simp add: Cons_nth_drop_Suc)
  show ?case
  proof (cases "f (items s ! k)")
    case True
    then show ?thesis using l' k Suc.prems(3) dr by (subst list_find.simps) simp
  next
    case False
    have "d = length (items (set_cursor i (Suc k) True s)) - Suc k"
      "j = Suc k + length (takeWhile (\<lambda>x. \<not> f x) (drop (Suc k) (items (set_cursor i (Suc k) True s))))"
      using Suc.hyps(2) Suc.prems(3) dr False by simp_all
    from Suc.hyps(1) [OF this(1) l'(2) map_of_set_cursor [OF Suc.prems(2)] this(2)]
    show ?thesis using l'(1) False by (subst list_find.simps) (simp cong: if_cong)
  qed
qed


section \<open>Sorting\<close>

lemma pop_all_Some:
  assumes "sim F U s c" and "length v + length (items s) \<le> n"
  shows "\<exists>c' ks. pop_all n v c = Some (v @ items s, c') \<and> sim F U (s\<lparr>items := [], cursors := ks\<rparr>) c' \<and> map fst ks = map fst (cursors s)"
  using assms
proof (induction "items s" arbitrary: s c v)
  case Nil
  then obtain c' where "list_pop c = Some (None, c')" "sim F U s c'"
    using sim_pop [OF Nil(2)] by (auto simp: head_opt_def)
  moreover have "sim F U (s\<lparr>items := []\<rparr>) c'" using Nil(1) calculation(2) by (cases s) simp
  ultimately show ?case using Nil(1) by (subst pop_all.simps) (intro exI [of _ c'] exI [of _ "cursors s"], simp)
next
  case (Cons x xs)
  obtain c' where c': "list_pop c = Some (Some x, c')" "sim F U (remove_item 0 s) c'"
    using sim_pop [OF Cons.prems(1)] by (auto simp: head_opt_def Cons.hyps(2) [symmetric])
  have "xs = items (remove_item 0 s)" "length (v @ [x]) + length (items (remove_item 0 s)) \<le> n"
    using Cons.hyps(2) [symmetric] Cons.prems(2) by (simp_all add: remove_nth_def)
  from Cons.hyps(1) [OF this(1) c'(2) this(2)] obtain c'' ks where
    "pop_all n (v @ [x]) c' = Some (v @ x # xs, c'')" "sim F U (s\<lparr>items := [], cursors := ks\<rparr>) c''" "map fst ks = map fst (cursors s)"
    using \<open>xs = items (remove_item 0 s)\<close> by (auto simp: remove_item_def)
  then show ?case using c'(1) Cons.prems(2) by (subst pop_all.simps) (auto simp: Cons.hyps(2) [symmetric])
qed

lemma append_all_Some:
  assumes "sim F U s c" and "set js \<subseteq> {..<length v}"
  shows "\<exists>c' ks. forM js (\<lambda>n s. do { x \<leftarrow> readA v n; list_append x s }) c = Some c' \<and>
    sim F U (s\<lparr>items := items s @ map ((!) v) js, cursors := ks\<rparr>) c' \<and> map fst ks = map fst (cursors s)"
  using assms
proof (induction js arbitrary: s c)
  case Nil
  then show ?case by (auto intro!: exI [of _ "cursors s"])
next
  case (Cons j js)
  obtain c' where c': "list_append (v ! j) c = Some c'" "sim F U (insert_item (length (items s)) (v ! j) s) c'"
    using sim_append [OF Cons.prems(1)] by blast
  from Cons.IH [OF c'(2)] Cons.prems(2) obtain c'' ks where
    "forM js (\<lambda>n s. do { x \<leftarrow> readA v n; list_append x s }) c' = Some c''"
    "sim F U (s\<lparr>items := (items s @ [v ! j]) @ map ((!) v) js, cursors := ks\<rparr>) c''" "map fst ks = map fst (cursors s)"
    by (auto simp: insert_item_def insert_nth_def)
  then show ?case using c'(1) Cons.prems(2) by (auto simp: readA_def)
qed

lemma sim_reset_all:
  fixes ks :: "cursor list"
  assumes "sim F U s (m, l)" and "map fst (cursors s) = map fst ks"
  shows "sim F U (s\<lparr>cursors := map (\<lambda>(i, c). (i, 0, False)) ks\<rparr>) (m, l\<lparr>l_iters := map (\<lambda>(i, it). (i, reset_iterator l)) (l_iters l)\<rparr>)"
proof -
  obtain as where h: "holds F U s as m l" using assms(1) by (auto simp: sim_def)
  have z: "map (\<lambda>(i, c). (i, 0, False)) hs = map (\<lambda>i. (i, 0, False)) (map fst hs)" for hs :: "cursor list" by auto
  have its: "map (\<lambda>(i, it). (i, iter_at as 0 False)) (iters_of as hs) = iters_of as (map (\<lambda>i. (i, 0, False)) (map fst hs))" for hs
    by (induction hs) (auto simp: iters_of_def)
  let ?ks = "map (\<lambda>i. (i, 0, False)) (map fst (cursors s))"
  have ids: "map fst ?ks = map fst (cursors s)" by simp
  have "rep m (l\<lparr>l_iters := map (\<lambda>(i, it). (i, reset_iterator l)) (l_iters l)\<rparr>) as (items s) ?ks"
    unfolding reset_iterator_at [OF h] using h its [of "cursors s"] by (simp add: holds_def rep_def list_all_iff cursor_ok_def)
  moreover have "iters_ok U ?ks (iter_pool m)" using h unfolding holds_def iters_ok_def ids by blast
  ultimately have "holds F U (s\<lparr>cursors := ?ks\<rparr>) as m (l\<lparr>l_iters := map (\<lambda>(i, it). (i, reset_iterator l)) (l_iters l)\<rparr>)"
    using h by (simp add: holds_def)
  then show ?thesis unfolding z assms(2) by (rule holds_sim)
qed

lemma sim_sort:
  assumes "sim F U s c" and "1 < length (items s)" and "length (qsort (items s)) = length (items s)"
  shows "\<exists>c'. list_sort qsort c = Some c' \<and>
    sim F U (s\<lparr>items := qsort (items s), cursors := map (\<lambda>(i, c). (i, 0, False)) (cursors s)\<rparr>) c'"
proof -
  let ?n = "length (items s)"
  have n: "l_count (snd c) = int ?n" using assms(1) by (auto elim!: simE simp: holds_def rep_def)
  obtain c1 ks where c1: "pop_all ?n [] c = Some (items s, c1)" "sim F U (s\<lparr>items := [], cursors := ks\<rparr>) c1" "map fst ks = map fst (cursors s)"
    using pop_all_Some [OF assms(1), of "[]" ?n] by auto
  obtain m l hs where c2: "forM [0..<?n] (\<lambda>n t. do { x \<leftarrow> readA (qsort (items s)) n; list_append x t }) c1 = Some (m, l)"
    "sim F U (s\<lparr>items := qsort (items s), cursors := hs\<rparr>) (m, l)" "map fst hs = map fst ks"
    using append_all_Some [OF c1(2), of "[0..<?n]" "qsort (items s)"] assms(3) map_nth [of "qsort (items s)"] by (auto simp: lessThan_atLeast0)
  then show ?thesis using sim_reset_all [OF c2(2), of "cursors s"] c1 n assms(2) by (auto simp: list_sort_def)
qed


section \<open>Refinement\<close>

lemma sim_op_items:
  assumes "sim F U s c" and "spec op s = Some (r, s')"
    and "op \<in> {Append x, Prepend x, Pop, Peek, Count, Is_Empty, Find_First f, Delete_All f, Flush, Sort qsort}"
  shows "\<exists>c'. exec op c = Some (r, c') \<and> sim F U s' c'"
proof -
  consider "op = Append x" | "op = Prepend x" | "op = Pop" | "op = Delete_All f" | "op = Flush" | "op = Sort qsort"
    | "op \<in> {Peek, Count, Is_Empty, Find_First f}" using assms(3) by blast
  then show ?thesis
  proof cases
    case 1 then show ?thesis using assms(2) sim_append [OF assms(1), of x] by (auto simp: no_result_def)
  next
    case 2 then show ?thesis using assms(2) sim_prepend [OF assms(1), of x] by (auto simp: no_result_def)
  next
    case 3 then show ?thesis using assms(2) sim_pop [OF assms(1)] by auto
  next
    case 4 then show ?thesis using assms(2) sim_delete_all [OF assms(1), of f] by (auto simp: delete_items_def)
  next
    case 5 then show ?thesis using assms(2) sim_flush [OF assms(1)] by (auto simp: delete_items_def)
  next
    case 6
    have "l_count (snd c) = int (length (items s))" using sim_count [OF assms(1)] by (simp add: list_count_def)
    with 6 show ?thesis using assms(1,2) sim_sort [OF assms(1), of qsort]
      by (cases "length (items s) \<le> 1") (auto simp: no_result_def list_sort_def split: if_splits)
  next
    case 7
    then show ?thesis using assms(1,2) sim_peek [OF assms(1)] sim_count [OF assms(1)] sim_find_first [OF assms(1), of f] by (cases c) auto
  qed
qed

lemma sim_op_iterators:
  assumes "sim F U s c" and "spec op s = Some (r, s')"
    and "op \<in> {Iter_Reset i, Iter_Destroy i, Iter_Next i, Iter_Peek i, Iter_Insert i x, Iter_Find i f, Iter_Remove i, Iter_Delete i}"
  shows "\<exists>c'. exec op c = Some (r, c') \<and> sim F U s' c'"
proof -
  obtain k b where kb: "map_of (cursors s) i = Some (k, b)" using assms(2,3) by (auto split: bind_splits)
  obtain m l as where c: "c = (m, l)" and h: "holds F U s as m l" using assms(1) by (rule simE)
  consider "op = Iter_Reset i" | "op = Iter_Destroy i" | "op = Iter_Next i" | "op = Iter_Peek i" | "op = Iter_Insert i x"
    | "op = Iter_Find i f" | "op = Iter_Remove i" | "op = Iter_Delete i" using assms(3) by blast
  then show ?thesis
  proof cases
    case 1 then show ?thesis using assms(2) kb sim_iterator_reset [OF assms(1) kb] by auto
  next
    case 2 then show ?thesis using assms(2) kb sim_iterator_destroy [OF assms(1) kb] by (auto simp: no_result_def)
  next
    case 3 then show ?thesis using assms(2) kb holds_next [OF h kb] c by (auto simp: holds_sim)
  next
    case 4 then show ?thesis using assms(1,2) kb sim_peek_next [OF assms(1) kb] by auto
  next
    case 5 then show ?thesis using assms(2) kb sim_insert [OF assms(1) kb, of x] by (auto simp: no_result_def)
  next
    case 6 then show ?thesis using assms(2) kb holds_find [OF h kb refl, of f] c by (auto simp: Let_def holds_sim)
  next
    case 7 then show ?thesis using assms(2) kb holds_iter_remove [OF h kb] c by (auto simp: holds_sim split: if_splits)
  next
    case 8
    obtain m' l' as' where r: "list_remove i (m, l) = Some (if b then Some (items s ! (k - 1)) else None, m', l')"
      "holds F U (if b then remove_item (k - 1) s else s) as' m' l'" using holds_iter_remove [OF h kb] by blast
    show ?thesis using 8 assms(2) kb c r holds_free [OF r(2), of "items s ! (k - 1)"]
      by (cases b) (auto simp: list_delete_item_def holds_sim)
  qed
qed

lemma sim_op: "sim F U s c \<Longrightarrow> spec op s = Some (r, s') \<Longrightarrow> \<exists>c'. exec op c = Some (r, c') \<and> sim F U s' c'"
proof (cases op)
  case Iter_Create
  moreover assume "sim F U s c" "spec op s = Some (r, s')"
  ultimately show ?thesis using sim_iterator_create [of F U s c] by (cases "list_alloc_aux (ids s)") fastforce
qed (blast intro: sim_op_items sim_op_iterators)+

interpretation ls: functional_refinement exec spec "sim F U" for F U
  by unfold_locales (rule sim_op)

end
