(* ===== verification/Linked_List_Properties.thy ===== *)
theory Linked_List_Properties
  imports Linked_List_Refine "HOL-Library.Multiset"
begin

text \<open>
  What the users of lists rely on: a list used through any sequence of calls behaves like a sequence
  and gives all its memory back; an iterator keeps its place whatever happens to the list; sorting;
  moving the items of one list to another.
\<close>

section \<open>The life of a list\<close>

definition empty_seq :: "'a list_mem \<Rightarrow> bool \<Rightarrow> 'a seq_list" where
  "empty_seq m d = \<lparr>items = [], cursors = [], ids = iter_pool m, freed = deleted m, owns = d\<rparr>"

lemma sim_empty: "mem_ok m \<Longrightarrow> pool_ok (iter_pool m) U \<Longrightarrow> sim (cells m) U (empty_seq m d) (m, list_create d)"
  by (auto simp: sim_def holds_def rep_def empty_seq_def list_create_def iters_of_def outside_def iters_ok_def intro!: exI [of _ "[]"])

lemma destroy_nodes_Some:
  assumes "distinct as" and "length xs = length as" and "k \<le> length as" and "mem_ok m"
    and "\<forall>j. k \<le> j \<longrightarrow> j < length as \<longrightarrow> cells m (as ! j) = Some \<lparr>node_data = xs ! j, node_next = nth_opt as (Suc j)\<rparr>"
  shows "\<exists>m'. destroy_nodes l (nth_opt as k) m = Some m' \<and> (\<forall>a. cells m' a = (if a \<in> set (drop k as) then None else cells m a)) \<and>
    deleted m' = deleted m @ (if l_fDel l then drop k xs else []) \<and> iter_pool m' = iter_pool m \<and> mem_ok m'"
  using assms(3-5)
proof (induction "length as - k" arbitrary: k m)
  case 0
  then show ?case using assms(2) by (simp add: destroy_nodes.simps)
next
  case (Suc d)
  have k: "k < length as" using Suc.hyps(2) by simp
  let ?m = "list_node_free (as ! k) (call_fDel l (xs ! k) m)"
  have cell: "cells m (as ! k) = Some \<lparr>node_data = xs ! k, node_next = nth_opt as (Suc k)\<rparr>" using Suc.prems(3) k by simp
  have cm: "cells ?m a = (if a = as ! k then None else cells m a)" for a by (simp add: list_node_free_def call_fDel_def)
  have ne: "as ! j \<noteq> as ! k" if "Suc k \<le> j" "j < length as" for j using assms(1) that k by (simp add: nth_eq_iff_index_eq)
  have "{a. cells ?m a \<noteq> None} = {a. cells m a \<noteq> None} - {as ! k}" using cm by auto
  then have ok: "mem_ok ?m" using free_aux_ok [OF Suc.prems(2), of "as ! k"] cell by (simp add: list_node_free_def call_fDel_def)
  have "\<forall>j. Suc k \<le> j \<longrightarrow> j < length as \<longrightarrow> cells ?m (as ! j) = Some \<lparr>node_data = xs ! j, node_next = nth_opt as (Suc j)\<rparr>"
    using cm ne Suc.prems(3) by simp
  moreover have "d = length as - Suc k" "Suc k \<le> length as" using Suc.hyps(2) by simp_all
  ultimately obtain m' where m':
    "destroy_nodes l (nth_opt as (Suc k)) ?m = Some m'" "\<forall>a. cells m' a = (if a \<in> set (drop (Suc k) as) then None else cells ?m a)"
    "deleted m' = deleted ?m @ (if l_fDel l then drop (Suc k) xs else [])" "iter_pool m' = iter_pool ?m" "mem_ok m'"
    using Suc.hyps(1) [OF _ _ ok] by blast
  have dr: "drop k as = as ! k # drop (Suc k) as" "drop k xs = xs ! k # drop (Suc k) xs" using k assms(2) by (simp_all add: Cons_nth_drop_Suc)
  have "destroy_nodes l (nth_opt as k) m = Some m'" using m'(1) cell k by (subst destroy_nodes.simps) simp
  moreover have "\<forall>a. cells m' a = (if a \<in> set (drop k as) then None else cells m a)" using m'(2) cm dr(1) by auto
  moreover have "deleted m' = deleted m @ (if l_fDel l then drop k xs else [])" "iter_pool m' = iter_pool m"
    using m'(3,4) dr(2) by (auto simp: list_node_free_def call_fDel_def)
  ultimately show ?case using m'(5) by blast
qed

lemma free_iterators:
  assumes "iters_ok U ks (iter_pool m)"
  shows "\<exists>pl. fold (\<lambda>(i, it). list_iterator_free i) (iters_of as ks) m = m\<lparr>iter_pool := pl\<rparr> \<and> pool_ok pl U"
  using assms
proof (induction ks arbitrary: m)
  case (Cons c ks)
  have i: "fst c \<notin> U" "fst c \<notin> set (map fst ks)" using Cons.prems by (auto simp: iters_ok_def)
  have "pool_ok (iter_pool m) (insert (fst c) (U \<union> set (map fst ks)))" using Cons.prems by (simp add: iters_ok_def)
  then have "pool_ok (list_free_aux (fst c) (iter_pool m)) (U \<union> set (map fst ks))"
    using free_aux_ok [of _ _ "fst c"] i by (metis Diff_insert_absorb Un_iff insertI1)
  then have "iters_ok U ks (iter_pool (list_iterator_free (fst c) m))"
    using Cons.prems by (auto simp: iters_ok_def list_iterator_free_def)
  from Cons.IH [OF this] show ?case by (cases c) (auto simp: iters_of_def list_iterator_free_def)
next
  case Nil
  then show ?case by (intro exI [of _ "iter_pool m"]) (simp add: iters_of_def iters_ok_def)
qed

lemma sim_destroy:
  assumes "sim F U s c"
  shows "\<exists>m. list_destroy c = Some m \<and> cells m = F \<and> deleted m = freed s @ (if owns s then items s else []) \<and>
    mem_ok m \<and> pool_ok (iter_pool m) U"
proof -
  obtain m l as where c: "c = (m, l)" and h: "holds F U s as m l" using assms by (rule simE)
  have r: "rep m l as (items s) (cursors s)" "outside F as m" "mem_ok m" "iters_ok U (cursors s) (iter_pool m)"
    "freed s = deleted m" "owns s = l_fDel l" using h by (simp_all add: holds_def)
  obtain pl where pl: "fold (\<lambda>(i, it). list_iterator_free i) (iters_of as (cursors s)) m = m\<lparr>iter_pool := pl\<rparr>" "pool_ok pl U"
    using free_iterators [OF r(4)] by blast
  let ?m = "m\<lparr>iter_pool := pl\<rparr>"
  have "distinct as" "length (items s) = length as" "mem_ok ?m"
    "\<forall>j. 0 \<le> j \<longrightarrow> j < length as \<longrightarrow> cells ?m (as ! j) = Some \<lparr>node_data = items s ! j, node_next = nth_opt as (Suc j)\<rparr>"
    using r(1,3) by (simp_all add: rep_def)
  from destroy_nodes_Some [OF this(1,2) le0 this(3,4), of l] obtain m' where m': "destroy_nodes l (nth_opt as 0) ?m = Some m'"
    "\<forall>a. cells m' a = (if a \<in> set (drop 0 as) then None else cells ?m a)"
    "deleted m' = deleted ?m @ (if l_fDel l then drop 0 (items s) else [])" "iter_pool m' = iter_pool ?m" "mem_ok m'" by blast
  have "cells m' = F" using m'(2) r(2) by (auto simp: outside_def fun_eq_iff)
  moreover have "list_destroy c = Some m'" using m'(1) pl(1) r(1) c by (simp add: list_destroy_def rep_def)
  ultimately show ?thesis using m'(3-5) pl(2) r(5,6) by auto
qed

text \<open>
  C3: A new list behaves as a sequence through any calls, with any iterators in use: if the calls are
  legal for the sequence with cursors, that is they name only live iterators and sorting keeps the
  number of items, then they all run without a fault or a failed assertion and return exactly what
  the operations on the sequence return, and the nodes then hold the items of the sequence in order.
\<close>

theorem list_refines_sequence:
  assumes "mem_ok m" and "pool_ok (iter_pool m) U" and "run_ops spec ops (empty_seq m d) = Some (rs, s)"
  shows "\<exists>m' l as. run_ops exec ops (m, list_create d) = Some (rs, m', l) \<and> rep m' l as (items s) (cursors s)"
proof -
  from ls.sim_run [OF sim_empty [OF assms(1,2)] assms(3)]
  obtain c where "run_ops exec ops (m, list_create d) = Some (rs, c)" "sim (cells m) U s c" by blast
  then show ?thesis by (auto elim!: simE simp: holds_def)
qed

definition used_mem :: "nat list_mem" where
  "used_mem = \<lparr>cells = (\<lambda>a. None), node_pool = \<lparr>pool_free = [], pool_top = 0\<rparr>, iter_pool = \<lparr>pool_free = [0, 1], pool_top = 2\<rparr>, deleted = []\<rparr>"

definition some_calls :: "nat list_op list" where
  "some_calls = [Append 1, Append 2, Append 3, Iter_Create, Iter_Next 0, Prepend 5, Iter_Insert 0 6, Delete_All (\<lambda>x. x = 2)]"

lemma used_mem_ok: "mem_ok used_mem" "pool_ok (iter_pool used_mem) {}"
  by (simp_all add: used_mem_def pool_ok_def)

lemmas run_simps = insert_item_def remove_item_def set_cursor_def delete_items_def free_items_def cur_insert_def cur_remove_def
  cur_filter_def insert_nth_def remove_nth_def head_opt_def list_alloc_aux_def list_free_aux_def

lemma some_calls_run:
  "run_ops spec some_calls (empty_seq used_mem True) =
     Some ([Done, Done, Done, Iter 0, Item (Some 1), Done, Done, Number 1],
       \<lparr>items = [5, 6, 1, 3], cursors = [(0, 3, False)], ids = \<lparr>pool_free = [1], pool_top = 2\<rparr>, freed = [2], owns = True\<rparr>)"
  by (simp add: some_calls_def empty_seq_def used_mem_def run_simps)

theorem list_refines_sequence_witness:
  "\<exists>m' l as. run_ops exec some_calls (used_mem, list_create True) =
       Some ([Done, Done, Done, Iter 0, Item (Some 1), Done, Done, Number 1], m', l) \<and>
     rep m' l as [5, 6, 1, 3] [(0, 3, False)]"
  using list_refines_sequence [OF used_mem_ok some_calls_run] by simp




section \<open>Iterators\<close>

text \<open>The items an iterator still returns, by calling \<^verbatim>\<open>list_next\<close> until it returns NULL.\<close>

partial_function (option) drain :: "nat \<Rightarrow> 'a list_mem \<times> slurm_list \<Rightarrow> 'a list option" where
  "drain i c = do {
     (v, c) \<leftarrow> list_next i c;
     (case v of None \<Rightarrow> Some [] | Some x \<Rightarrow> do { xs \<leftarrow> drain i c; Some (x # xs) }) }"

lemma drain_Some:
  "holds F U s as m l \<Longrightarrow> map_of (cursors s) i = Some (k, r) \<Longrightarrow> drain i (m, l) = Some (drop k (items s))"
proof (induction "length (items s) - k" arbitrary: s l k r)
  case 0
  obtain l' where "list_next i (m, l) = Some (nth_opt (items s) k, m, l')" using holds_next [OF 0(2,3)] by blast
  then show ?case using 0 by (subst drain.simps) simp
next
  case (Suc d)
  have k: "k < length (items s)" using Suc.hyps(2) by simp
  obtain l' where l': "list_next i (m, l) = Some (Some (items s ! k), m, l')" "holds F U (set_cursor i (Suc k) True s) as m l'"
    using holds_next [OF Suc.prems] k by auto
  have "drain i (m, l') = Some (drop (Suc k) (items s))"
    using Suc.hyps(1) [OF _ l'(2) map_of_set_cursor [OF Suc.prems(2)]] Suc.hyps(2) by simp
  then show ?case using l'(1) k by (subst drain.simps) (simp add: Cons_nth_drop_Suc)
qed

lemma sim_drain: "sim F U s c \<Longrightarrow> map_of (cursors s) i = Some (k, r) \<Longrightarrow> drain i c = Some (drop k (items s))"
  by (erule simE) (simp add: drain_Some)

fun moves :: "nat \<Rightarrow> 'a list_op \<Rightarrow> bool" where
  "moves i (Sort qsort) = True"
| "moves i (Iter_Reset j) = (j = i)"
| "moves i (Iter_Destroy j) = (j = i)"
| "moves i (Iter_Next j) = (j = i)"
| "moves i (Iter_Find j f) = (j = i)"
| "moves i op = False"

fun adds :: "'a list_op \<Rightarrow> 'a set" where
  "adds (Append x) = {x}"
| "adds (Prepend x) = {x}"
| "adds (Iter_Insert i x) = {x}"
| "adds op = {}"

definition keeps_place :: "nat \<Rightarrow> 'a seq_list \<Rightarrow> 'a seq_list \<Rightarrow> bool" where
  "keeps_place i s s' \<longleftrightarrow> (\<forall>k r. map_of (cursors s) i = Some (k, r) \<longrightarrow>
     (\<exists>k' r'. map_of (cursors s') i = Some (k', r') \<and>
        filter (\<lambda>x. x \<in> set (items s')) (drop k (items s)) = filter (\<lambda>x. x \<in> set (items s)) (drop k' (items s'))))"

lemma keeps_same: "items s' = items s \<Longrightarrow> map_of (cursors s') i = map_of (cursors s) i \<Longrightarrow> keeps_place i s s'"
  by (auto simp: keeps_place_def)

lemma map_of_cursors:
  assumes "\<And>c. fst (g c) = fst c" and "map_of ks i = Some c"
  shows "map_of (map g ks) i = Some (snd (g (i, c)))"
  using assms(2)
proof (induction ks)
  case (Cons kc ks)
  then show ?case using assms(1) [of kc] by (cases kc; cases "g kc") (auto split: if_splits)
qed simp

lemma keeps_insert:
  assumes "x \<notin> set (items s)" and "j \<le> length (items s)"
  shows "keeps_place i s (insert_item j x s)"
  unfolding keeps_place_def
proof (intro allI impI)
  fix k r assume k: "map_of (cursors s) i = Some (k, r)"
  obtain k' r' where c: "cur_insert j (i, k, r) = (i, k', r')" by (cases "cur_insert j (i, k, r)") (metis cursor_ids(1) fst_conv)
  have "map_of (cursors (insert_item j x s)) i = Some (k', r')"
    using map_of_cursors [OF _ k, of "cur_insert j"] c by (simp add: insert_item_def)
  moreover have "filter (\<lambda>y. y \<in> set (insert_nth j x (items s))) (drop k (items s)) = drop k (items s)"
    by (auto simp: filter_id_conv set_insert_nth dest: in_set_dropD)
  moreover have "filter (\<lambda>y. y \<in> set (items s)) (drop k' (insert_nth j x (items s))) = drop k (items s)"
  proof -
    have flt: "filter (\<lambda>y. y \<in> set (items s)) (take n (drop p (items s))) = take n (drop p (items s))"
      "filter (\<lambda>y. y \<in> set (items s)) (drop p (items s)) = drop p (items s)" for n p
      by (auto simp: filter_id_conv dest: in_set_dropD in_set_takeD)
    consider "k' = k" "k \<le> j" | "k' = Suc k" "j \<le> k" using c by (auto simp: cur_insert_def split: if_splits)
    then show ?thesis
    proof cases
      case 1
      have "take (j - k) (drop k (items s)) @ drop j (items s) = drop k (items s)"
        using append_take_drop_id [of "j - k" "drop k (items s)"] 1 by simp
      then show ?thesis using 1 assms flt by (simp add: insert_nth_def drop_take)
    next
      case 2
      then show ?thesis using assms flt by (simp add: insert_nth_def Suc_diff_le)
    qed
  qed
  ultimately show "\<exists>k' r'. map_of (cursors (insert_item j x s)) i = Some (k', r') \<and>
      filter (\<lambda>x'. x' \<in> set (items (insert_item j x s))) (drop k (items s)) =
      filter (\<lambda>x. x \<in> set (items s)) (drop k' (items (insert_item j x s)))"
    by (auto simp: insert_item_def)
qed

lemma keeps_delete: "keeps_place i s (snd (delete_items f s))"
  unfolding keeps_place_def
proof (intro allI impI)
  fix k r assume k: "map_of (cursors s) i = Some (k, r)"
  let ?s = "snd (delete_items f s)" and ?k = "length (filter (\<lambda>x. \<not> f x) (take k (items s)))"
  have it: "items ?s = filter (\<lambda>x. \<not> f x) (items s)" "cursors ?s = map (cur_filter f (items s)) (cursors s)"
    by (simp_all add: delete_items_def)
  obtain r' where "cur_filter f (items s) (i, k, r) = (i, ?k, r')" by (simp add: cur_filter_def)
  then have "map_of (cursors ?s) i = Some (?k, r')"
    using map_of_cursors [OF _ k, of "cur_filter f (items s)"] by (simp add: it cur_filter_def split: prod.splits)
  moreover have "filter (\<lambda>x. x \<in> set (filter (\<lambda>x. \<not> f x) (items s))) (drop k (items s)) = filter (\<lambda>x. \<not> f x) (drop k (items s))"
    by (rule filter_cong) (auto dest: in_set_dropD)
  moreover have "filter (\<lambda>x. \<not> f x) (items s) = filter (\<lambda>x. \<not> f x) (take k (items s)) @ filter (\<lambda>x. \<not> f x) (drop k (items s))"
    by (simp flip: filter_append)
  moreover have "filter (\<lambda>x. \<not> f x \<and> x \<in> set (items s)) (drop k (items s)) = filter (\<lambda>x. \<not> f x) (drop k (items s))"
    by (rule filter_cong) (auto dest: in_set_dropD)
  ultimately show "\<exists>k' r'. map_of (cursors ?s) i = Some (k', r') \<and>
      filter (\<lambda>x. x \<in> set (items ?s)) (drop k (items s)) = filter (\<lambda>x. x \<in> set (items s)) (drop k' (items ?s))"
    unfolding it by (intro exI [of _ ?k] exI [of _ r']) simp
qed

lemma keeps_remove:
  assumes "distinct (items s)" and "j < length (items s)"
  shows "keeps_place i s (remove_item j s)"
  unfolding keeps_place_def
proof (intro allI impI)
  fix k r assume k: "map_of (cursors s) i = Some (k, r)"
  obtain k' r' where c: "cur_remove j (i, k, r) = (i, k', r')" by (cases "cur_remove j (i, k, r)") (metis cursor_ids(2) fst_conv)
  let ?xs = "items s" and ?ys = "remove_nth j (items s)"
  have "map_of (cursors (remove_item j s)) i = Some (k', r')"
    using map_of_cursors [OF _ k, of "cur_remove j"] c by simp
  moreover have "filter (\<lambda>x. x \<in> set ?ys) (drop k ?xs) = drop k' ?ys"
  proof -
    have el: "x \<in> set ?ys \<longleftrightarrow> x \<noteq> ?xs ! j" if "x \<in> set ?xs" for x using that assms by (simp add: set_remove_nth)
    have flt: "filter (\<lambda>x. x \<in> set ?ys) zs = zs" if "set zs \<subseteq> set ?xs" "?xs ! j \<notin> set zs" for zs
      using that el by (auto simp: filter_id_conv)
    have split: "?xs = take j ?xs @ ?xs ! j # drop (Suc j) ?xs" using assms(2) by (simp add: Cons_nth_drop_Suc)
    have nj: "?xs ! j \<notin> set (take j ?xs)" "?xs ! j \<notin> set (drop (Suc j) ?xs)" using assms(1) by (subst (asm) split, simp)+
    consider "k' = k" "k \<le> j" | "Suc k' = k" "j < k" using c by (auto simp: cur_remove_def split: if_splits)
    then show ?thesis
    proof cases
      case 1
      then have "drop k ?xs = drop k (take j ?xs) @ ?xs ! j # drop (Suc j) ?xs" using assms(2) arg_cong [OF split, of "drop k"] by simp
      moreover have "drop k' ?ys = drop k (take j ?xs) @ drop (Suc j) ?xs" using 1 assms(2) by (simp add: remove_nth_def)
      moreover have "filter (\<lambda>x. x \<in> set ?ys) (drop k (take j ?xs)) = drop k (take j ?xs)"
        by (rule flt) (use nj(1) in \<open>auto dest: in_set_dropD in_set_takeD\<close>)
      moreover have "filter (\<lambda>x. x \<in> set ?ys) (drop (Suc j) ?xs) = drop (Suc j) ?xs"
        by (rule flt) (use nj(2) in \<open>auto dest: in_set_dropD\<close>)
      ultimately show ?thesis using el [of "?xs ! j"] assms(2) by simp
    next
      case 2
      have "drop k' ?ys = drop k ?xs" using 2 assms(2) by (auto simp: remove_nth_def)
      moreover have "set (drop k ?xs) \<subseteq> set (drop (Suc j) ?xs)" using 2 by (simp add: set_drop_subset_set_drop)
      ultimately show ?thesis using flt [of "drop k ?xs"] nj(2) set_drop_subset [of k ?xs] by auto
    qed
  qed
  moreover have "filter (\<lambda>x. x \<in> set ?xs) (drop k' ?ys) = drop k' ?ys"
    using remove_nth_set [of j ?xs] by (auto simp: filter_id_conv dest: in_set_dropD)
  ultimately show "\<exists>k' r'. map_of (cursors (remove_item j s)) i = Some (k', r') \<and>
      filter (\<lambda>x. x \<in> set (items (remove_item j s))) (drop k ?xs) = filter (\<lambda>x. x \<in> set ?xs) (drop k' (items (remove_item j s)))"
    by auto
qed

lemma map_of_other:
  "j \<noteq> i \<Longrightarrow> map_of (cursors (set_cursor j k r s)) i = map_of (cursors s) i"
  "j \<noteq> i \<Longrightarrow> map_of (filter (\<lambda>c. fst c \<noteq> j) ks) i = map_of ks i"
proof -
  have "j \<noteq> i \<Longrightarrow> map_of (map (\<lambda>(n, c). (n, if n = j then (k, r) else c)) ks) i = map_of ks i" for ks by (induction ks) auto
  then show "j \<noteq> i \<Longrightarrow> map_of (cursors (set_cursor j k r s)) i = map_of (cursors s) i" by (simp add: set_cursor_def)
  show "j \<noteq> i \<Longrightarrow> map_of (filter (\<lambda>c. fst c \<noteq> j) ks) i = map_of ks i" by (induction ks) auto
qed

lemma sim_cursor_ok:
  assumes "sim F U s c" and "map_of (cursors s) i = Some (k, r)"
  shows "k \<le> length (items s)" and "r \<Longrightarrow> 0 < k"
proof -
  obtain m l as where "holds F U s as m l" using assms(1) by (auto elim!: simE)
  from iterator_lookup(2,3) [OF this assms(2)] show "k \<le> length (items s)" "r \<Longrightarrow> 0 < k" by simp_all
qed

lemma create_keeps:
  assumes "sim F U s c" and "list_alloc_aux (ids s) = (j, pl)"
  shows "keeps_place i s (s\<lparr>cursors := (j, 0, False) # cursors s, ids := pl\<rparr>)"
proof (cases "j = i")
  case True
  have "pool_ok (ids s) (U \<union> set (map fst (cursors s)))" using assms(1) by (auto elim!: simE simp: holds_def iters_ok_def)
  then have "j \<notin> set (map fst (cursors s))" using alloc_aux_ok(1) [OF _ assms(2)] by blast
  then have "map_of (cursors s) i = None" using True by (simp add: map_of_eq_None_iff)
  then show ?thesis by (simp add: keeps_place_def)
qed (auto intro: keeps_same)

lemma op_keeps_place:
  assumes "sim F U s c" and "distinct (items s)" and "spec op s = Some (r, s')" and "\<not> moves i op" and "adds op \<inter> set (items s) = {}"
  shows "keeps_place i s s'"
proof (cases op)
  case (Append x)
  then show ?thesis using assms(3,5) by (auto intro!: keeps_insert)
next
  case (Prepend x)
  then show ?thesis using assms(3,5) by (auto intro!: keeps_insert)
next
  case Pop
  then show ?thesis using assms(2,3) keeps_remove [of s 0 i] by (auto intro: keeps_same split: if_splits)
next
  case (Delete_All f)
  then show ?thesis using assms(3) keeps_delete [of i s f] by auto
next
  case Flush
  then show ?thesis using assms(3) keeps_delete [of i s "\<lambda>x. True"] by auto
next
  case Iter_Create
  then show ?thesis using assms(3) create_keeps [OF assms(1)] by (auto split: prod.splits)
next
  case (Iter_Insert j x)
  then obtain k b where "map_of (cursors s) j = Some (k, b)" "s' = insert_item (if b then k - 1 else k) x s"
    using assms(3) by (auto split: bind_splits)
  moreover have "(if b then k - 1 else k) \<le> length (items s)" using sim_cursor_ok(1) [OF assms(1) calculation(1)] by (cases b) auto
  ultimately show ?thesis using assms(5) Iter_Insert by (auto intro!: keeps_insert)
next
  case (Iter_Remove j)
  then obtain k b where kb: "map_of (cursors s) j = Some (k, b)" "s' = (if b then remove_item (k - 1) s else s)"
    using assms(3) by (auto split: bind_splits if_splits)
  show ?thesis
  proof (cases b)
    case True
    then have "k - 1 < length (items s)" using sim_cursor_ok [OF assms(1) kb(1)] by simp
    from keeps_remove [OF assms(2) this, of i] show ?thesis using kb(2) True by simp
  qed (simp add: kb(2) keeps_same)
next
  case (Iter_Delete j)
  then obtain k b where kb: "map_of (cursors s) j = Some (k, b)" "s' = (if b then free_items [items s ! (k - 1)] (remove_item (k - 1) s) else s)"
    using assms(3) by (auto split: bind_splits if_splits)
  show ?thesis
  proof (cases b)
    case True
    then have "k - 1 < length (items s)" using sim_cursor_ok [OF assms(1) kb(1)] by simp
    from keeps_remove [OF assms(2) this, of i] show ?thesis using kb(2) True by (simp add: keeps_place_def)
  qed (simp add: kb(2) keeps_same)
qed (use assms(3,4) in \<open>auto split: bind_splits if_splits intro!: keeps_same simp: map_of_other Let_def\<close>)





text \<open>
  C40: The documentation of \<^verbatim>\<open>list_remove\<close> says that it removes the last item that the iterator
  returned. It does not when the item after that one has meanwhile left the list in another way, here
  through \<^verbatim>\<open>list_delete_all\<close>: the call then returns NULL and the item stays in the list.
\<close>

theorem list_remove_forgets_item:
  assumes "mem_ok m" and "pool_ok (iter_pool m) U" and "run_ops spec ops (empty_seq m d) = Some (rs, s)"
    and "map_of (cursors s) i = Some (k, r)" and "Suc k < length (items s)"
    and "\<And>j. j < length (items s) \<Longrightarrow> f (items s ! j) \<longleftrightarrow> j = Suc k"
  shows "\<exists>c c'. run_ops exec ops (m, list_create d) = Some (rs, c) \<and>
    run_ops exec [Iter_Next i, Delete_All f, Iter_Remove i, Find_First (\<lambda>x. x = items s ! k)] c =
      Some ([Item (Some (items s ! k)), Number 1, Item None, Item (Some (items s ! k))], c')"
proof -
  let ?s1 = "set_cursor i (Suc k) True s"
  let ?s2 = "snd (delete_items f ?s1)"
  obtain c where c: "run_ops exec ops (m, list_create d) = Some (rs, c)" "sim (cells m) U s c"
    using ls.sim_run [OF sim_empty [OF assms(1,2)] assms(3)] by blast
  have split: "items s = take (Suc k) (items s) @ items s ! Suc k # drop (Suc (Suc k)) (items s)"
    using assms(5) by (simp add: Cons_nth_drop_Suc)
  have keep: "\<not> f x" if "x \<in> set (take (Suc k) (items s)) \<union> set (drop (Suc (Suc k)) (items s))" for x
    using that assms(5,6) by (auto simp: in_set_conv_nth)
  have "filter f (items s) = [items s ! Suc k]"
    using assms(5) assms(6) [of "Suc k"] keep by (subst split) (auto simp: filter_empty_conv)
  then have del: "spec (Delete_All f) ?s1 = Some (Number 1, ?s2)" by (simp add: delete_items_def)
  have "map_of (cursors ?s2) i = Some (snd (cur_filter f (items s) (i, Suc k, True)))"
    using map_of_cursors [OF _ map_of_set_cursor [OF assms(4)], of "cur_filter f (items s)"] by (simp add: delete_items_def cur_filter_def split: prod.splits)
  then have rem: "spec (Iter_Remove i) ?s2 = Some (Item None, ?s2)" using assms(5,6) by (simp add: cur_filter_def)
  have "items s ! k \<in> set (items ?s2)" using assms(5) assms(6) [of k] by (simp add: delete_items_def)
  then have "find (\<lambda>x. x = items s ! k) (items ?s2) = Some (items s ! k)"
    by (cases "find (\<lambda>x. x = items s ! k) (items ?s2)") (auto simp: find_None_iff find_Some_iff)
  then have fnd: "spec (Find_First (\<lambda>x. x = items s ! k)) ?s2 = Some (Item (Some (items s ! k)), ?s2)" by simp
  have nxt: "spec (Iter_Next i) s = Some (Item (Some (items s ! k)), ?s1)" using assms(4,5) by simp
  have "run_ops spec [Iter_Next i, Delete_All f, Iter_Remove i, Find_First (\<lambda>x. x = items s ! k)] s =
      Some ([Item (Some (items s ! k)), Number 1, Item None, Item (Some (items s ! k))], ?s2)"
    by (simp add: nxt del rem fnd del: spec.simps)
  with ls.sim_run [OF c(2) this] c(1) show ?thesis by blast
qed

theorem list_remove_forgets_item_witness:
  "\<exists>c c'. run_ops exec [Append 1, Append 2, Iter_Create] (used_mem, list_create True) = Some ([Done, Done, Iter 0], c) \<and>
     run_ops exec [Iter_Next 0, Delete_All (\<lambda>x. x = 2), Iter_Remove 0, Find_First (\<lambda>x. x = 1)] c =
       Some ([Item (Some 1), Number 1, Item None, Item (Some 1)], c')"
proof -
  let ?s = "\<lparr>items = [1, 2::nat], cursors = [(0, 0, False)], ids = \<lparr>pool_free = [1], pool_top = 2\<rparr>, freed = [], owns = True\<rparr>"
  have run: "run_ops spec [Append 1, Append 2, Iter_Create] (empty_seq used_mem True) = Some ([Done, Done, Iter 0], ?s)"
    by (simp add: empty_seq_def used_mem_def run_simps)
  have "items ?s ! j = 2 \<longleftrightarrow> j = Suc 0" if "j < length (items ?s)" for j using that by (auto simp: less_Suc_eq)
  then show ?thesis using list_remove_forgets_item [OF used_mem_ok run, of 0 0 False "\<lambda>x. x = 2"]
    by (simp del: run_ops.simps exec.simps)
qed


section \<open>Two lists\<close>

lemma append_beside:
  assumes "rep m l as xs ks" and "mem_ok m" and "rep m sub bs ys hs" and "set as \<inter> set bs = {}"
  shows "\<exists>m' l' as' ks'. list_append v (m, l) = Some (m', l') \<and> rep m' l' as' (xs @ [v]) ks' \<and> map fst ks' = map fst ks \<and>
    mem_ok m' \<and> l_fDel l' = l_fDel l \<and> only (- set bs) m m' \<and> set as' \<inter> set bs = {}"
proof -
  have "l_tail l = lnk as (length as)" "length xs = length as" using assms(1) by (simp_all add: rep_def)
  moreover obtain m' l' p where c: "list_node_create (lnk as (length as)) v (m, l) = Some (m', l')"
    "rep m' l' (insert_nth (length as) p as) (insert_nth (length as) v xs) (map (cur_insert (length as)) ks)"
    "cells m p = None" "mem_ok m'" "only (insert p (set as)) m m'" "l_fDel l' = l_fDel l"
    using create_Some [OF assms(1,2) le_refl, of v] by blast
  moreover have "p \<notin> set bs" using assms(3) c(3) by (auto simp: rep_def in_set_conv_nth)
  ultimately show ?thesis using assms(4)
    by (intro exI [of _ m'] exI [of _ l'] exI [of _ "insert_nth (length as) p as"] exI [of _ "map (cur_insert (length as)) ks"])
      (auto simp: list_append_def only_def set_insert_nth insert_nth_def)
qed

lemma transfer_from_Some:
  assumes "rep m l as xs ks" and "rep m sub bs ys hs" and "set as \<inter> set bs = {}" and "mem_ok m"
  shows "\<exists>m' l' sub' as' ks' hs'. transfer_from n m l sub = Some (n + int (length ys), m', l', sub') \<and>
    rep m' l' as' (xs @ ys) ks' \<and> rep m' sub' [] [] hs' \<and> map fst ks' = map fst ks \<and> map fst hs' = map fst hs \<and>
    mem_ok m' \<and> deleted m' = deleted m \<and> iter_pool m' = iter_pool m"
  using assms
proof (induction ys arbitrary: m l sub as xs ks bs hs n)
  case Nil
  then have "bs = []" by (simp add: rep_def)
  moreover have "list_pop (m, sub) = Some (None, m, sub)" using destroy_end [OF Nil.prems(2)] by (simp add: list_pop_def \<open>bs = []\<close>)
  ultimately show ?case using Nil by (subst transfer_from.simps) auto
next
  case (Cons y ys)
  have len: "0 < length bs" "length bs = length (y # ys)" "distinct bs" using Cons.prems(2) by (auto simp: rep_def)
  let ?hs = "map (cur_remove 0) hs"
  have tl: "remove_nth 0 (y # ys) = ys" "set (remove_nth 0 bs) \<subseteq> set bs" using remove_nth_set [of 0 bs] by (simp_all add: remove_nth_def)
  obtain m1 sub1 where d: "list_pop (m, sub) = Some (Some y, m1, sub1)" "rep m1 sub1 (remove_nth 0 bs) ys ?hs"
    "mem_ok m1" "only (set bs) m m1"
    using destroy_Some [OF Cons.prems(2,4) len(1)] tl by (auto simp: list_pop_def)
  have l1: "rep m1 l as xs ks" "set as \<inter> set (remove_nth 0 bs) = {}"
    using rep_frame [OF Cons.prems(1) d(4)] Cons.prems(3) tl(2) by auto
  obtain m2 l2 as2 ks2 where a: "list_append y (m1, l) = Some (m2, l2)" "rep m2 l2 as2 (xs @ [y]) ks2" "map fst ks2 = map fst ks"
    "mem_ok m2" "only (- set (remove_nth 0 bs)) m1 m2" "set as2 \<inter> set (remove_nth 0 bs) = {}"
    using append_beside [OF l1(1) d(3,2) l1(2)] by blast
  have s2: "rep m2 sub1 (remove_nth 0 bs) ys ?hs" using rep_frame [OF d(2) a(5)] by auto
  have same: "deleted m2 = deleted m" "iter_pool m2 = iter_pool m" using d(4) a(5) by (simp_all add: only_def)
  from Cons.IH [OF a(2) s2 a(6,4), of "n + 1"] show ?case
    using d(1) a(1,3) same by (subst transfer_from.simps) (simp add: ac_simps)
qed

text \<open>
  C38: Moving all items of one list to the end of another, where both have the same deletion function:
  the items follow in order, their number is returned, the other list is left empty, and nothing is
  freed. The lists share memory and have nodes of their own.
\<close>

theorem list_transfer_moves_all:
  assumes "rep m l as xs ks" and "rep m sub bs ys hs" and "set as \<inter> set bs = {}" and "mem_ok m" and "l_fDel l = l_fDel sub"
  shows "\<exists>m' l' sub' as' ks' hs'. list_transfer m l sub = Some (int (length ys), m', l', sub') \<and>
    rep m' l' as' (xs @ ys) ks' \<and> rep m' sub' [] [] hs' \<and> map fst ks' = map fst ks \<and> map fst hs' = map fst hs \<and>
    mem_ok m' \<and> deleted m' = deleted m \<and> iter_pool m' = iter_pool m"
  using transfer_from_Some [OF assms(1-4), of 0] assms(5) by (simp add: list_transfer_def)

definition two_lists :: "nat list_mem" where
  "two_lists = \<lparr>cells = [0 \<mapsto> \<lparr>node_data = 7, node_next = None\<rparr>, 1 \<mapsto> \<lparr>node_data = 8, node_next = Some 2\<rparr>, 2 \<mapsto> \<lparr>node_data = 9, node_next = None\<rparr>],
     node_pool = \<lparr>pool_free = [], pool_top = 3\<rparr>, iter_pool = \<lparr>pool_free = [], pool_top = 0\<rparr>, deleted = []\<rparr>"

definition list_7 :: slurm_list where
  "list_7 = \<lparr>l_head = Some 0, l_tail = Next 0, l_iters = [], l_fDel = False, l_count = 1\<rparr>"

definition list_8_9 :: slurm_list where
  "list_8_9 = \<lparr>l_head = Some 1, l_tail = Next 2, l_iters = [], l_fDel = False, l_count = 2\<rparr>"

lemma two_lists_ok: "rep two_lists list_7 [0] [7] []" "rep two_lists list_8_9 [1, 2] [8, 9] []" "mem_ok two_lists"
  by (auto simp: rep_def two_lists_def list_7_def list_8_9_def lnk_def iters_of_def nth_opt_def less_Suc_eq pool_ok_def split: if_splits)

theorem list_transfer_moves_all_witness:
  "\<exists>m' l' sub' as'. list_transfer two_lists list_7 list_8_9 = Some (2, m', l', sub') \<and> rep m' l' as' [7, 8, 9] [] \<and> rep m' sub' [] [] []"
  using list_transfer_moves_all [OF two_lists_ok(1,2) _ two_lists_ok(3)] by (fastforce simp: list_7_def list_8_9_def)

definition outer :: "nat list \<Rightarrow> 'a list_mem \<Rightarrow> nat \<Rightarrow> 'a listNode option" where
  "outer as m = (\<lambda>a. if a \<in> set as then None else cells m a)"

lemma holds_frame:
  assumes "holds F U s as m l" and "only A m m'" and "set as \<inter> A = {}" and "mem_ok m'"
  shows "holds (outer as m') U s as m' l"
  using assms rep_frame [OF _ assms(2,3)] by (auto simp: holds_def outside_def outer_def only_def)

lemma append_from_Some:
  assumes "rep m l as xs ks" and "holds F U s bs m sub" and "set as \<inter> set bs = {}" and "map_of (cursors s) i = Some (k, r)"
  shows "\<exists>m' l' sub' as' ks' k' r'. append_from i n m l sub = Some (n + int (length (items s) - k), m', l', sub') \<and>
    rep m' l' as' (xs @ drop k (items s)) ks' \<and> map fst ks' = map fst ks \<and> holds (outer bs m') U (set_cursor i k' r' s) bs m' sub' \<and>
    set as' \<inter> set bs = {}"
  using assms
proof (induction "length (items s) - k" arbitrary: m l as xs ks F s sub k r n)
  case 0
  obtain sub' where n: "list_next i (m, sub) = Some (nth_opt (items s) k, m, sub')" "holds F U (set_cursor i k False s) bs m sub'"
    using holds_next [OF 0(3,5)] 0(1) by auto
  have "mem_ok m" "only {} m m" using 0(3) by (simp_all add: holds_def only_def)
  from holds_frame [OF n(2) this(2) _ this(1)] have "holds (outer bs m) U (set_cursor i k False s) bs m sub'" by simp
  then show ?case using n(1) 0 by (subst append_from.simps) auto
next
  case (Suc d)
  have k: "k < length (items s)" using Suc.hyps(2) by simp
  let ?s = "set_cursor i (Suc k) True s"
  obtain sub1 where n: "list_next i (m, sub) = Some (Some (items s ! k), m, sub1)" "holds F U ?s bs m sub1"
    using holds_next [OF Suc.prems(2,4)] k by auto
  have ok: "mem_ok m" "rep m sub1 bs (items ?s) (cursors ?s)" using n(2) by (simp_all add: holds_def)
  obtain m2 l2 as2 ks2 where a: "list_append (items s ! k) (m, l) = Some (m2, l2)" "rep m2 l2 as2 (xs @ [items s ! k]) ks2"
    "map fst ks2 = map fst ks" "mem_ok m2" "only (- set bs) m m2" "set as2 \<inter> set bs = {}"
    using append_beside [OF Suc.prems(1) ok Suc.prems(3)] by blast
  have h2: "holds (outer bs m2) U ?s bs m2 sub1" using holds_frame [OF n(2) a(5) _ a(4)] by simp
  have "d = length (items ?s) - Suc k" using Suc.hyps(2) by simp
  from Suc.hyps(1) [OF this a(2) h2 a(6) map_of_set_cursor [OF Suc.prems(4)], of "n + 1"]
  obtain m' l' sub' as' ks' k' r' where r: "append_from i (n + 1) m2 l2 sub1 = Some (n + 1 + int (length (items s) - Suc k), m', l', sub')"
    "rep m' l' as' (xs @ drop k (items s)) ks'" "map fst ks' = map fst ks2" "holds (outer bs m') U (set_cursor i k' r' s) bs m' sub'"
    "set as' \<inter> set bs = {}" using k by (auto simp: Cons_nth_drop_Suc)
  have "n + 1 + int (length (items s) - Suc k) = n + int (length (items s) - k)" using k by simp
  with r(1) have "append_from i n m l sub = Some (n + int (length (items s) - k), m', l', sub')"
    using n(1) a(1) by (subst append_from.simps) simp
  with r(2-5) a(3) show ?case by auto
qed

text \<open>
  C39: Appending the items of one list to another, which owns no items: all of them follow in order,
  their number is returned, and the list they come from is as it was, its iterators included.
\<close>

theorem list_append_list_copies:
  assumes "rep m l as xs ks" and "holds F U s bs m sub" and "set as \<inter> set bs = {}" and "\<not> l_fDel l"
  shows "\<exists>m' l' sub' as' ks'. list_append_list m l sub = Some (int (length (items s)), m', l', sub') \<and>
    rep m' l' as' (xs @ items s) ks' \<and> map fst ks' = map fst ks \<and> rep m' sub' bs (items s) (cursors s)"
proof -
  obtain i pl where i: "list_alloc_aux (ids s) = (i, pl)" by (cases "list_alloc_aux (ids s)") auto
  let ?m = "m\<lparr>iter_pool := pl\<rparr>" and ?s = "s\<lparr>cursors := (i, 0, False) # cursors s, ids := pl\<rparr>"
  obtain sub1 where c: "list_iterator_create (m, sub) = (i, ?m, sub1)" "holds F U ?s bs ?m sub1"
    using holds_iterator_create(1) [OF assms(2) i] by blast
  have l: "rep ?m l as xs ks" using assms(1) by (simp add: rep_def)
  obtain m2 l2 sub2 as2 ks2 k r where a: "append_from i 0 ?m l sub1 = Some (int (length (items s)), m2, l2, sub2)"
    "rep m2 l2 as2 (xs @ items s) ks2" "map fst ks2 = map fst ks" "holds (outer bs m2) U (set_cursor i k r ?s) bs m2 sub2"
    using append_from_Some [OF l c(2) assms(3), of i 0 False 0] by auto
  have "map_of (cursors (set_cursor i k r ?s)) i = Some (k, r)" by (rule map_of_set_cursor) simp
  from holds_iterator_destroy [OF a(4) this] obtain sub3 where
    d: "list_iterator_destroy i (m2, sub2) = Some (list_iterator_free i m2, sub3)"
      "rep (list_iterator_free i m2) sub3 bs (items s) (filter (\<lambda>c. fst c \<noteq> i) (cursors (set_cursor i k r ?s)))"
    by (auto simp: holds_def)
  have "filter (\<lambda>c. fst c \<noteq> i) (cursors (set_cursor i k r ?s)) = cursors s"
  proof -
    have "i \<notin> fst ` set ks \<Longrightarrow> filter (\<lambda>c. fst c \<noteq> i) (map (\<lambda>(j, c). (j, if j = i then (k, r) else c)) ks) = ks" for ks
      by (induction ks) (auto simp: image_iff)
    then show ?thesis using holds_iterator_create(2) [OF assms(2) i] by (simp add: set_cursor_def)
  qed
  moreover have "rep (list_iterator_free i m2) l2 as2 (xs @ items s) ks2" using a(2) by (simp add: rep_def list_iterator_free_def)
  ultimately show ?thesis using c(1) a(1,3) d assms(4) by (auto simp: list_append_list_def)
qed

theorem list_append_list_copies_witness:
  "\<exists>m' l' sub' as'. list_append_list two_lists list_7 list_8_9 = Some (2, m', l', sub') \<and>
     rep m' l' as' [7, 8, 9] [] \<and> rep m' sub' [1, 2] [8, 9] []"
proof -
  let ?s = "\<lparr>items = [8, 9::nat], cursors = [], ids = iter_pool two_lists, freed = [], owns = False\<rparr>"
  have "holds (\<lambda>a. if a = 0 then Some \<lparr>node_data = 7, node_next = None\<rparr> else None) {} ?s [1, 2] two_lists list_8_9"
    using two_lists_ok(2,3) by (auto simp: holds_def outside_def iters_ok_def two_lists_def list_8_9_def pool_ok_def)
  from list_append_list_copies [OF two_lists_ok(1) this] show ?thesis by (fastforce simp: list_7_def)
qed

text \<open>
  \<^verbatim>\<open>list_for_each\<close>: the function is applied to the items in order, up to the first that it fails on.
\<close>

fun each :: "('a \<Rightarrow> 's \<Rightarrow> int \<times> 's) \<Rightarrow> 'a list \<Rightarrow> 's \<Rightarrow> bool \<times> nat \<times> 's" where
  "each f [] arg = (True, 0, arg)"
| "each f (x # xs) arg =
     (let (r, arg) = f x arg
      in if r < 0 then (False, 1, arg) else (let (ok, n, arg) = each f xs arg in (ok, Suc n, arg)))"

lemma for_each_from_Some:
  "rep m l as xs ks \<Longrightarrow> k \<le> length xs \<Longrightarrow> each f (drop k xs) arg = (ok, j, arg') \<Longrightarrow>
    for_each_from f m (nth_opt as k) n arg = Some (if ok then n + int j else - (n + int j), arg')"
proof (induction "length xs - k" arbitrary: k arg n j)
  case 0
  then show ?case by (subst for_each_from.simps) (simp add: rep_def)
next
  case (Suc d)
  have k: "k < length xs" using Suc.hyps(2) by simp
  have len: "length as = length xs" and cell: "cells m (as ! k) = Some \<lparr>node_data = xs ! k, node_next = nth_opt as (Suc k)\<rparr>"
    using Suc.prems(1) k by (auto simp: rep_def)
  obtain r arg1 where f: "f (xs ! k) arg = (r, arg1)" by (cases "f (xs ! k) arg") auto
  have dr: "drop k xs = xs ! k # drop (Suc k) xs" using k by (simp add: Cons_nth_drop_Suc)
  show ?case
  proof (cases "r < 0")
    case True
    then show ?thesis using Suc.prems(3) cell k len f dr by (subst for_each_from.simps) auto
  next
    case False
    then obtain j1 where j1: "each f (drop (Suc k) xs) arg1 = (ok, j1, arg')" "j = Suc j1"
      using Suc.prems(3) f dr by (auto split: prod.splits)
    have "d = length xs - Suc k" "Suc k \<le> length xs" using Suc.hyps(2) by simp_all
    from Suc.hyps(1) [OF this(1) Suc.prems(1) this(2) j1(1), of "n + 1"] show ?thesis
      using False cell k len f j1(2) by (subst for_each_from.simps) (simp add: ac_simps)
  qed
qed

lemma list_for_each_Some:
  assumes "sim F U s (m, l)" and "each f (items s) arg = (ok, j, arg')"
  shows "list_for_each f arg (m, l) = Some (if ok then int j else - int j, arg')"
proof -
  obtain as where as: "rep m l as (items s) (cursors s)" "l_head l = nth_opt as 0" using assms(1) by (auto simp: sim_def holds_def rep_def)
  show ?thesis using for_each_from_Some [OF as(1) le0, of f arg ok j arg' 0] as(2) assms(2) by (simp add: list_for_each_def)
qed

end
