(* ===== verification/Port_Manager.thy ===== *)
theory Port_Manager
  imports Bitstring_Count Bitstring_Fmt Transition
begin

text \<open>
  The reservation of communication ports for job steps and for the jobs of a pack
  (src/slurmctld/port_mgr.c). A table holds for every port of the configured range the nodes on
  which the port is taken. Counters are natural numbers; they agree with the \<^verbatim>\<open>int\<close> of the code
  below \<open>2\<^sup>3\<^sup>1\<close>.

  Host lists are not part of this development. Two functions stand for them: \<open>ranged\<close> is the
  ranged string of a sorted host list to which the given ports were pushed, and \<open>expand_hosts\<close>
  gives the names in a host list expression, or \<^term>\<open>None\<close> if it is invalid.
\<close>

section \<open>Data\<close>

record port_state =
  port_resv_table :: "bitstr list option"
  port_resv_cnt :: nat
  port_resv_min :: nat
  port_resv_max :: nat
  port_resv_cnt_jobpack :: nat
  last_port_alloc_jobpack :: nat
  last_port_alloc :: nat
  hport :: nat

text \<open>What the port manager uses of a step record, or of the record of a job in a pack.\<close>

record port_holder =
  resv_port_array :: "nat list option"
  resv_port_cnt :: u16
  resv_ports :: "c_string option"
  holder_nodes :: bitstr

definition initial_ports :: port_state where
  "initial_ports = \<lparr>port_resv_table = None, port_resv_cnt = 0, port_resv_min = 0, port_resv_max = 0,
     port_resv_cnt_jobpack = 0, last_port_alloc_jobpack = 0, last_port_alloc = 0, hport = 0\<rparr>"

definition ESLURM_PORTS_BUSY :: int where "ESLURM_PORTS_BUSY = 2059"
definition ESLURM_PORTS_INVALID :: int where "ESLURM_PORTS_INVALID = 2060"
definition JOB_RUNNING :: nat where "JOB_RUNNING = 1"


section \<open>Configuration\<close>

definition rebuild_port_array :: "(c_string \<Rightarrow> c_string list option) \<Rightarrow> port_holder \<Rightarrow> port_holder option" where
  "rebuild_port_array expand_hosts h = do {
     s \<leftarrow> resv_ports h;
     (case expand_hosts (91 # s @ [93]) of
        None \<Rightarrow> Some (h\<lparr>resv_ports := None\<rparr>)
      | Some names \<Rightarrow> do {
          let found = filter (\<lambda>i. i > 0) (map (\<lambda>nm. int32 (fst (strtol10 nm))) names);
          assertC (length found \<le> unat (resv_port_cnt h));
          Some (h\<lparr>resv_port_array := Some (map nat found @ replicate (unat (resv_port_cnt h) - length found) 0),
                  resv_port_cnt := of_nat (length found),
                  resv_ports := if found = [] then None else resv_ports h\<rparr>) }) }"

text \<open>The ports of a holder that are in the configured range are taken on its nodes.\<close>

definition make_step_resv :: "(c_string \<Rightarrow> c_string list option) \<Rightarrow> port_state \<Rightarrow> port_holder \<Rightarrow> (port_state \<times> port_holder) option" where
  "make_step_resv expand_hosts st h =
     (if resv_port_cnt h = 0 \<or> resv_ports h = None \<or> resv_ports h = Some [] then Some (st, h)
      else do {
        h \<leftarrow> (if resv_port_array h = None then rebuild_port_array expand_hosts h else Some h);
        t \<leftarrow> forM [0..<unat (resv_port_cnt h)]
          (\<lambda>i t. do {
             p \<leftarrow> deref (resv_port_array h) i;
             (if p < port_resv_min st \<or> p > port_resv_max st then Some t
              else do {
                b \<leftarrow> deref t (p - port_resv_min st);
                b \<leftarrow> bit_or b (holder_nodes h);
                store t (p - port_resv_min st) b }) })
          (port_resv_table st);
        Some (st\<lparr>port_resv_table := t\<rparr>, h) })"

text \<open>The jobs with their steps; a step has a state.\<close>

fun make_steps_resv :: "(c_string \<Rightarrow> c_string list option) \<Rightarrow> port_state \<Rightarrow> (nat \<times> port_holder) list \<Rightarrow>
    (port_state \<times> (nat \<times> port_holder) list) option" where
  "make_steps_resv expand_hosts st [] = Some (st, [])"
| "make_steps_resv expand_hosts st ((state, h) # sts) = do {
     (st, h) \<leftarrow> (if state < JOB_RUNNING then Some (st, h) else make_step_resv expand_hosts st h);
     (st, sts) \<leftarrow> make_steps_resv expand_hosts st sts;
     Some (st, (state, h) # sts) }"

fun make_all_resv :: "(c_string \<Rightarrow> c_string list option) \<Rightarrow> port_state \<Rightarrow> (nat \<times> port_holder) list list \<Rightarrow>
    (port_state \<times> (nat \<times> port_holder) list list) option" where
  "make_all_resv expand_hosts st [] = Some (st, [])"
| "make_all_resv expand_hosts st (sts # jobs) = do {
     (st, sts) \<leftarrow> make_steps_resv expand_hosts st sts;
     (st, jobs) \<leftarrow> make_all_resv expand_hosts st jobs;
     Some (st, sts # jobs) }"

fun strstr :: "c_string \<Rightarrow> c_string \<Rightarrow> c_string option" where
  "strstr [] pat = (if pat = [] then Some [] else None)"
| "strstr (c # cs) pat = (if take (length pat) (c # cs) = pat then Some (c # cs) else strstr cs pat)"

text \<open>The characters of \<^verbatim>\<open>ports=\<close>.\<close>

definition ports_key :: c_string where
  "ports_key = [112, 111, 114, 116, 115, 61]"

definition reserve_port_config :: "(c_string \<Rightarrow> c_string list option) \<Rightarrow> nat \<Rightarrow> (nat \<times> port_holder) list list \<Rightarrow>
    c_string option \<Rightarrow> port_state \<Rightarrow> (int \<times> port_state \<times> (nat \<times> port_holder) list list) option" where
  "reserve_port_config expand_hosts node_record_count jobs mpi_params st =
     (case (case mpi_params of None \<Rightarrow> None | Some s \<Rightarrow> strstr s ports_key) of
        None \<Rightarrow>
          (case port_resv_table st of
             None \<Rightarrow> Some (SLURM_SUCCESS, st, jobs)
           | Some t \<Rightarrow> do {
               forM [0..<port_resv_cnt st] (\<lambda>i u. do { b \<leftarrow> readA t i; bit_free b; Some u }) ();
               Some (SLURM_SUCCESS, st\<lparr>port_resv_table := None, port_resv_cnt := 0, port_resv_cnt_jobpack := 0,
                 port_resv_min := 0, port_resv_max := 0\<rparr>, jobs) })
      | Some s \<Rightarrow>
          (let (v, tmp_e) = strtol10 (drop 6 s); p_min = int32 v in
           if p_min < 1 \<or> tmp_e = [] \<or> hd tmp_e \<noteq> 45 then Some (SLURM_ERROR, st, jobs)
           else let p_max = int32 (fst (strtol10 (tl tmp_e))) in
           if p_max < p_min then Some (SLURM_ERROR, st, jobs)
           else if nat p_min = port_resv_min st \<and> nat p_max = port_resv_max st then Some (SLURM_SUCCESS, st, jobs)
           else do {
             let cnt = nat (p_max - p_min + 1);
             t \<leftarrow> forM [0..<cnt] (\<lambda>i t. do { b \<leftarrow> bit_alloc (int node_record_count); Some (t @ [b]) }) [];
             let st = st\<lparr>port_resv_min := nat p_min, port_resv_max := nat p_max, port_resv_cnt := cnt, port_resv_table := Some t\<rparr>;
             (st, jobs) \<leftarrow> make_all_resv expand_hosts st jobs;
             Some (SLURM_SUCCESS, st, jobs) }))"


section \<open>Reservation\<close>

text \<open>
  The search for free ports, at most once around the table: \<open>k\<close> is the number of iterations left,
  and \<open>want\<close> the size of the array that receives the ports.
\<close>

definition next_port :: "nat \<Rightarrow> nat \<Rightarrow> nat" where
  "next_port cnt pos = (if pos + 1 \<ge> cnt then 0 else pos + 1)"

fun scan_ports :: "bitstr \<Rightarrow> bitstr list option \<Rightarrow> nat \<Rightarrow> nat \<Rightarrow> nat \<Rightarrow> nat \<Rightarrow> nat list \<Rightarrow> (nat list \<times> nat) option" where
  "scan_ports nodes table cnt want 0 pos ports = Some (ports, pos)"
| "scan_ports nodes table cnt want (Suc k) pos ports = do {
     let pos = next_port cnt pos;
     b \<leftarrow> deref table pos;
     n \<leftarrow> bit_overlap nodes b;
     (if n \<noteq> 0 then scan_ports nodes table cnt want k pos ports
      else do {
        assertC (length ports < want);
        (if length ports + 1 \<ge> want then Some (ports @ [pos], pos)
         else scan_ports nodes table cnt want k pos (ports @ [pos])) }) }"

definition reserve_ports :: "bitstr \<Rightarrow> nat list \<Rightarrow> bitstr list option \<Rightarrow> bitstr list option option" where
  "reserve_ports nodes ports table =
     forM ports (\<lambda>p t. do { b \<leftarrow> deref t p; b \<leftarrow> bit_or b nodes; store t p b }) table"

definition resv_port_alloc :: "(nat list \<Rightarrow> c_string) \<Rightarrow> port_state \<Rightarrow> port_holder \<Rightarrow> (int \<times> port_state \<times> port_holder) option" where
  "resv_port_alloc ranged st step = do {
     let hp = max (hport st) (port_resv_cnt_jobpack st);
     let st = st\<lparr>hport := hp, last_port_alloc := (if hp > 0 then hp else last_port_alloc st)\<rparr>;
     let want = unat (resv_port_cnt step);
     (if want + port_resv_cnt_jobpack st > port_resv_cnt st then Some (ESLURM_PORTS_INVALID, st, step)
      else do {
        (ports, pos) \<leftarrow> scan_ports (holder_nodes step) (port_resv_table st) (port_resv_cnt st) want
          (port_resv_cnt st) (last_port_alloc st) [];
        let st = st\<lparr>last_port_alloc := pos\<rparr>;
        (if length ports < want then Some (ESLURM_PORTS_BUSY, st, step)
         else do {
           t \<leftarrow> reserve_ports (holder_nodes step) ports (port_resv_table st);
           let port_array = map (\<lambda>p. p + port_resv_min st) ports;
           Some (SLURM_SUCCESS, st\<lparr>port_resv_table := t\<rparr>,
             step\<lparr>resv_ports := Some (ranged port_array), resv_port_array := Some port_array\<rparr>) }) }) }"

text \<open>The brackets around a ranged string are removed.\<close>

definition strip_brackets :: "c_string \<Rightarrow> c_string" where
  "strip_brackets s = (if s \<noteq> [] \<and> hd s = 91 then butlast (tl s) else s)"

definition resv_port_alloc_jobpack :: "(nat list \<Rightarrow> c_string) \<Rightarrow> port_state \<Rightarrow> port_holder \<Rightarrow> (int \<times> port_state \<times> port_holder) option" where
  "resv_port_alloc_jobpack ranged st job =
     (let want = unat (resv_port_cnt job) in
      if want > port_resv_cnt st then Some (ESLURM_PORTS_INVALID, st, job)
      else do {
        let st = st\<lparr>port_resv_cnt_jobpack := port_resv_cnt_jobpack st + want\<rparr>;
        (ports, pos) \<leftarrow> scan_ports (holder_nodes job) (port_resv_table st) (port_resv_cnt st) want
          (port_resv_cnt st) (last_port_alloc_jobpack st) [];
        let st = st\<lparr>last_port_alloc_jobpack := pos\<rparr>;
        (if length ports < want then Some (ESLURM_PORTS_BUSY, st, job)
         else do {
           t \<leftarrow> reserve_ports (holder_nodes job) ports (port_resv_table st);
           let port_array = map (\<lambda>p. p + port_resv_min st) ports;
           Some (SLURM_SUCCESS, st\<lparr>port_resv_table := t\<rparr>,
             job\<lparr>resv_ports := Some (strip_brackets (ranged port_array)), resv_port_array := Some port_array\<rparr>) }) })"


section \<open>Release\<close>

text \<open>The loop with the complemented node bitmap, which is complemented again afterwards.\<close>

definition release_ports :: "port_state \<Rightarrow> port_holder \<Rightarrow> nat list \<Rightarrow> (bitstr list option \<times> port_holder) option" where
  "release_ports st h ports = do {
     others \<leftarrow> bit_not (holder_nodes h);
     t \<leftarrow> forM [0..<unat (resv_port_cnt h)]
       (\<lambda>i t. do {
          p \<leftarrow> readA ports i;
          (if p < port_resv_min st \<or> p > port_resv_max st then Some t
           else do {
             b \<leftarrow> deref t (p - port_resv_min st);
             b \<leftarrow> bit_and b others;
             store t (p - port_resv_min st) b }) })
       (port_resv_table st);
     nodes \<leftarrow> bit_not others;
     Some (t, h\<lparr>holder_nodes := nodes, resv_port_array := None\<rparr>) }"

definition resv_port_free :: "port_state \<Rightarrow> port_holder \<Rightarrow> (port_state \<times> port_holder) option" where
  "resv_port_free st step =
     (case resv_port_array step of
        None \<Rightarrow> Some (st, step)
      | Some ports \<Rightarrow> do {
          (t, step) \<leftarrow> release_ports st step ports;
          Some (st\<lparr>port_resv_table := t\<rparr>, step) })"

definition resv_port_jobpack_free :: "port_state \<Rightarrow> port_holder \<Rightarrow> (port_state \<times> port_holder) option" where
  "resv_port_jobpack_free st job =
     (case resv_port_array job of
        None \<Rightarrow> Some (st, job)
      | Some ports \<Rightarrow> do {
          (t, job) \<leftarrow> release_ports st job ports;
          Some (st\<lparr>port_resv_table := t, port_resv_cnt_jobpack := 0, last_port_alloc_jobpack := 0\<rparr>, job) })"


section \<open>Callers for job packs\<close>

text \<open>
  \<^verbatim>\<open>_set_resv_ports_jobpack\<close> (node_scheduler.c) reserves as many ports as the job has nodes;
  \<^verbatim>\<open>_resv_ports_jobpack\<close> (job_scheduler.c) does the same and returns a copy of the port string.
\<close>

definition set_resv_ports_jobpack :: "(nat list \<Rightarrow> c_string) \<Rightarrow> u32 \<Rightarrow> port_state \<Rightarrow> port_holder \<Rightarrow> (port_state \<times> port_holder) option" where
  "set_resv_ports_jobpack ranged node_cnt st job = do {
     (rc, st, job) \<leftarrow> resv_port_alloc_jobpack ranged st (job\<lparr>resv_port_cnt := ucast node_cnt\<rparr>);
     Some (st, job) }"

definition resv_ports_jobpack :: "(nat list \<Rightarrow> c_string) \<Rightarrow> u32 \<Rightarrow> port_state \<Rightarrow> port_holder \<Rightarrow>
    (c_string option \<times> port_state \<times> port_holder) option" where
  "resv_ports_jobpack ranged node_cnt st job = do {
     (rc, st, job) \<leftarrow> resv_port_alloc_jobpack ranged st (job\<lparr>resv_port_cnt := ucast node_cnt\<rparr>);
     Some (if rc \<noteq> SLURM_SUCCESS then None else resv_ports job, st, job) }"

end
