(* ===== verification/Port_Reservations.thy ===== *)
theory Port_Reservations
  imports Port_Manager
begin

text \<open>
  The port manager as a transition system: steps and pack jobs reserve and release ports in any
  order. No two holders of a port share a node, and a reservation succeeds exactly when enough ports
  are free on all nodes of the request.
\<close>

section \<open>The search for free ports\<close>

fun visits :: "nat \<Rightarrow> nat \<Rightarrow> nat \<Rightarrow> nat list" where
  "visits cnt 0 pos = []"
| "visits cnt (Suc k) pos = next_port cnt pos # visits cnt k (next_port cnt pos)"

lemma visits_mod:
  assumes "0 < cnt"
  shows "visits cnt k pos = map (\<lambda>i. (next_port cnt pos + i) mod cnt) [0..<k]"
proof (induction k arbitrary: pos)
  case (Suc k)
  let ?s = "next_port cnt pos"
  have s: "?s < cnt" using assms by (simp add: next_port_def)
  have "next_port cnt ?s = (?s + 1) mod cnt"
  proof (cases "?s + 1 = cnt")
    case False
    then show ?thesis using s by (simp add: next_port_def [of cnt "?s"])
  qed (simp add: next_port_def [of cnt "next_port cnt pos"])
  then have "(next_port cnt ?s + i) mod cnt = (?s + Suc i) mod cnt" for i by (simp add: mod_simps)
  then have "visits cnt (Suc k) pos = ?s mod cnt # map (\<lambda>i. (?s + Suc i) mod cnt) [0..<k]" using s Suc by simp
  also have "\<dots> = map (\<lambda>i. (?s + i) mod cnt) [0..<Suc k]"
    by (simp add: upt_conv_Cons map_Suc_upt [symmetric] del: upt_Suc)
  finally show ?case .
qed simp

lemma visits_all: "distinct (visits cnt cnt pos)" "set (visits cnt cnt pos) = {..<cnt}"
proof -
  have "visits cnt cnt pos = rotate (next_port cnt pos) [0..<cnt]"
  proof (cases "cnt = 0")
    case False
    then show ?thesis by (intro nth_equalityI) (simp_all add: visits_mod nth_rotate)
  qed simp
  then show "distinct (visits cnt cnt pos)" "set (visits cnt cnt pos) = {..<cnt}" by auto
qed

lemma scan_ports_Some:
  assumes "table = Some t" and "length t = cnt" and "\<forall>b \<in> set t. bitstr_wf b \<and> bs_bits b = bs_bits nodes" and "bitstr_wf nodes"
    and "0 < cnt \<or> k = 0" and "length ports < want"
  shows "\<exists>pos'. scan_ports nodes table cnt want k pos ports =
    Some (ports @ take (want - length ports) (filter (\<lambda>j. bits_of nodes \<inter> bits_of (t ! j) = {}) (visits cnt k pos)), pos')"
  using assms(5,6)
proof (induction k arbitrary: pos ports)
  case (Suc k)
  let ?p = "next_port cnt pos"
  have p: "?p < length t" using Suc.prems(1) assms(2) by (simp add: next_port_def)
  then have b: "bitstr_wf (t ! ?p)" "bs_bits (t ! ?p) = bs_bits nodes" using assms(3) by auto
  have "finite (bits_of nodes)" using finite_subset [of "bits_of nodes" "{..<bs_bits nodes}"] by (auto dest: bits_of_bound)
  then have ov: "bit_overlap nodes (t ! ?p) = Some (int (card (bits_of nodes \<inter> bits_of (t ! ?p))))"
      "card (bits_of nodes \<inter> bits_of (t ! ?p)) = 0 \<longleftrightarrow> bits_of nodes \<inter> bits_of (t ! ?p) = {}"
    using bit_overlap_Some [OF assms(4) b(1)] b(2) by auto
  show ?case
  proof (cases "bits_of nodes \<inter> bits_of (t ! ?p) = {}")
    case False
    then show ?thesis using Suc.IH [of ports ?p] Suc.prems assms(1) p ov by (auto simp: Let_def)
  next
    case free: True
    obtain w where w: "want - length ports = Suc w" using Suc.prems(2) by (cases "want - length ports") auto
    show ?thesis
    proof (cases "length ports + 1 \<ge> want")
      case True
      then have "w = 0" using w by simp
      then show ?thesis using assms(1) p ov free True Suc.prems(2) w by (simp add: Let_def)
    next
      case False
      have "want - length (ports @ [?p]) = w" using w by simp
      then show ?thesis using Suc.IH [of "ports @ [?p]" ?p] False Suc.prems assms(1) p ov free w by (auto simp: Let_def)
    qed
  qed
qed simp


section \<open>Updates of the table\<close>

definition table_ok :: "nat \<Rightarrow> bitstr list \<Rightarrow> bool" where
  "table_ok n t \<longleftrightarrow> (\<forall>b \<in> set t. bitstr_wf b \<and> bs_bits b = n)"

lemma table_ok_nth: "table_ok n t \<Longrightarrow> j < length t \<Longrightarrow> bitstr_wf (t ! j) \<and> bs_bits (t ! j) = n"
  by (simp add: table_ok_def)

lemma table_ok_update: "table_ok n t \<Longrightarrow> bitstr_wf b \<Longrightarrow> bs_bits b = n \<Longrightarrow> table_ok n (t[j := b])"
  by (auto simp: table_ok_def dest: set_update_subset_insert [THEN subsetD])

text \<open>A loop that applies an operation on bitmaps to the entries of some ports.\<close>

lemma table_loop:
  assumes op: "\<And>b. bitstr_wf b \<Longrightarrow> bs_bits b = n \<Longrightarrow> \<exists>b'. f b = Some b' \<and> bitstr_wf b' \<and> bs_bits b' = n \<and> bits_of b' = g (bits_of b)"
    and idem: "\<And>A. g (g A) = g A" and "table_ok n t" and "\<forall>p \<in> set ports. p < length t"
  shows "\<exists>t'. forM ports (\<lambda>p t. do { b \<leftarrow> deref t p; b \<leftarrow> f b; store t p b }) (Some t) = Some (Some t') \<and>
    table_ok n t' \<and> length t' = length t \<and>
    (\<forall>j < length t. bits_of (t' ! j) = (if j \<in> set ports then g (bits_of (t ! j)) else bits_of (t ! j)))"
  using assms(3,4)
proof (induction ports arbitrary: t)
  case Nil
  then show ?case by simp
next
  case (Cons p ports)
  have p: "p < length t" using Cons.prems(2) by simp
  obtain b where b: "f (t ! p) = Some b" "bitstr_wf b" "bs_bits b = n" "bits_of b = g (bits_of (t ! p))"
    using op [of "t ! p"] table_ok_nth [OF Cons.prems(1) p] by blast
  obtain t' where t': "forM ports (\<lambda>p t. do { b \<leftarrow> deref t p; b \<leftarrow> f b; store t p b }) (Some (t[p := b])) = Some (Some t')"
      "table_ok n t'" "length t' = length t"
      "\<forall>j < length t. bits_of (t' ! j) = (if j \<in> set ports then g (bits_of (t[p := b] ! j)) else bits_of (t[p := b] ! j))"
    using Cons.IH [of "t[p := b]"] table_ok_update [OF Cons.prems(1) b(2,3)] Cons.prems(2) by auto
  have "bits_of (t' ! j) = (if j \<in> set (p # ports) then g (bits_of (t ! j)) else bits_of (t ! j))" if "j < length t" for j
    using t'(4) that b(4) idem by (cases "j = p") auto
  then show ?case using t'(1-3) p b(1) by (intro exI [of _ t']) simp
qed

lemma reserve_ports_Some:
  assumes "table_ok n t" and "bitstr_wf nodes" and "bs_bits nodes = n" and "\<forall>p \<in> set ports. p < length t"
  shows "\<exists>t'. reserve_ports nodes ports (Some t) = Some (Some t') \<and> table_ok n t' \<and> length t' = length t \<and>
    (\<forall>j < length t. bits_of (t' ! j) = bits_of (t ! j) \<union> (if j \<in> set ports then bits_of nodes else {}))"
proof -
  have op: "\<exists>b'. bit_or b nodes = Some b' \<and> bitstr_wf b' \<and> bs_bits b' = n \<and> bits_of b' = bits_of b \<union> bits_of nodes"
    if "bitstr_wf b" "bs_bits b = n" for b
    using bit_or_Some [OF that(1) assms(2)] that assms(3) by metis
  from table_loop [where f = "\<lambda>b. bit_or b nodes" and g = "\<lambda>A. A \<union> bits_of nodes", OF op _ assms(1,4)]
  show ?thesis unfolding reserve_ports_def by auto
qed

lemma release_ports_Some:
  assumes "table_ok n t" and "bitstr_wf (holder_nodes h)" and "bs_bits (holder_nodes h) = n"
    and "port_resv_table st = Some t" and "length ports = unat (resv_port_cnt h)"
    and "\<forall>p \<in> set ports. port_resv_min st \<le> p \<and> p \<le> port_resv_max st \<and> p - port_resv_min st < length t"
  shows "\<exists>t' nodes. release_ports st h ports = Some (Some t', h\<lparr>holder_nodes := nodes, resv_port_array := None\<rparr>) \<and>
    bits_of nodes = bits_of (holder_nodes h) \<and> table_ok n t' \<and> length t' = length t \<and>
    (\<forall>j < length t. bits_of (t' ! j) = bits_of (t ! j) - (if port_resv_min st + j \<in> set ports then bits_of (holder_nodes h) else {}))"
proof -
  let ?m = "port_resv_min st" and ?N = "holder_nodes h"
  obtain o' where o': "bit_not ?N = Some o'" "bitstr_wf o'" "bs_bits o' = n" "bits_of o' = {..<n} - bits_of ?N"
    using bit_not_Some [OF assms(2)] assms(3) by metis
  obtain nodes where nd: "bit_not o' = Some nodes" "bits_of nodes = {..<n} - bits_of o'"
    using bit_not_Some [OF o'(2)] o'(3) by metis
  have sub: "bits_of b \<subseteq> {..<bs_bits b}" for b by (auto dest: bits_of_bound)
  have op: "\<exists>b'. bit_and b o' = Some b' \<and> bitstr_wf b' \<and> bs_bits b' = n \<and> bits_of b' = bits_of b \<inter> bits_of o'"
    if "bitstr_wf b" "bs_bits b = n" for b
    using bit_and_Some [OF that(1) o'(2)] that o'(3) by metis
  let ?body = "\<lambda>p t. do { b \<leftarrow> deref t p; b \<leftarrow> bit_and b o'; store t p b }"
  have "forM [0..<unat (resv_port_cnt h)] (\<lambda>i t. do {
          p \<leftarrow> readA ports i;
          (if p < ?m \<or> p > port_resv_max st then Some t
           else do { b \<leftarrow> deref t (p - ?m); b \<leftarrow> bit_and b o'; store t (p - ?m) b }) }) (Some t) =
      forM [0..<length ports] (\<lambda>i. ?body (ports ! i - ?m)) (Some t)"
    unfolding assms(5) [symmetric] using assms(6) by (intro forM_cong) (auto simp: not_less [symmetric])
  also have "\<dots> = forM (map (\<lambda>p. p - ?m) ports) ?body (Some t)"
  proof -
    have "map (\<lambda>p. p - ?m) ports = map (\<lambda>i. ports ! i - ?m) [0..<length ports]" by (intro nth_equalityI) auto
    then show ?thesis by (simp only: forM_map)
  qed
  finally have eq: "forM [0..<unat (resv_port_cnt h)] (\<lambda>i t. do {
          p \<leftarrow> readA ports i;
          (if p < ?m \<or> p > port_resv_max st then Some t
           else do { b \<leftarrow> deref t (p - ?m); b \<leftarrow> bit_and b o'; store t (p - ?m) b }) }) (Some t) =
      forM (map (\<lambda>p. p - ?m) ports) ?body (Some t)" .
  have "\<forall>p \<in> set (map (\<lambda>p. p - ?m) ports). p < length t" using assms(6) by auto
  from table_loop [where f = "\<lambda>b. bit_and b o'" and g = "\<lambda>A. A \<inter> bits_of o'", OF op _ assms(1) this]
  obtain t' where t': "forM (map (\<lambda>p. p - ?m) ports) ?body (Some t) = Some (Some t')" "table_ok n t'" "length t' = length t"
    "\<forall>j < length t. bits_of (t' ! j) = (if j \<in> set (map (\<lambda>p. p - ?m) ports) then bits_of (t ! j) \<inter> bits_of o' else bits_of (t ! j))"
    by auto
  have mem: "j \<in> set (map (\<lambda>p. p - ?m) ports) \<longleftrightarrow> ?m + j \<in> set ports" for j using assms(6) by force
  have "bits_of (t' ! j) = bits_of (t ! j) - (if ?m + j \<in> set ports then bits_of ?N else {})" if "j < length t" for j
    using t'(4) that sub [of "t ! j"] table_ok_nth [OF assms(1) that] unfolding mem o'(4) by auto
  moreover have "release_ports st h ports = Some (Some t', h\<lparr>holder_nodes := nodes, resv_port_array := None\<rparr>)"
    using o'(1) nd(1) t'(1) eq assms(4) by (simp add: release_ports_def)
  moreover have "bits_of nodes = bits_of ?N" using nd(2) o'(4) sub [of ?N] assms(3) by auto
  ultimately show ?thesis using t'(2,3) by blast
qed


section \<open>The invariant\<close>

text \<open>Steps (\<^term>\<open>False\<close>) and pack jobs (\<^term>\<open>True\<close>) that hold ports.\<close>

type_synonym holders = "(bool \<times> port_holder) list"

definition hports :: "port_holder \<Rightarrow> nat set" where
  "hports h = (case resv_port_array h of None \<Rightarrow> {} | Some a \<Rightarrow> set a)"

definition hnodes :: "port_holder \<Rightarrow> nat set" where
  "hnodes h = bits_of (holder_nodes h)"

text \<open>Two holders never share a port on a common node.\<close>

definition apart :: "port_holder \<Rightarrow> port_holder \<Rightarrow> bool" where
  "apart h k \<longleftrightarrow> (\<forall>p \<in> hports h \<inter> hports k. hnodes h \<inter> hnodes k = {})"

definition taken :: "port_holder list \<Rightarrow> nat \<Rightarrow> nat set" where
  "taken hs p = (\<Union>h \<in> {h \<in> set hs. p \<in> hports h}. hnodes h)"

definition holder_ok :: "nat \<Rightarrow> port_state \<Rightarrow> port_holder \<Rightarrow> bool" where
  "holder_ok n st h \<longleftrightarrow> bitstr_wf (holder_nodes h) \<and> bs_bits (holder_nodes h) = n \<and>
     (\<exists>a. resv_port_array h = Some a \<and> length a = unat (resv_port_cnt h) \<and> set a \<subseteq> {port_resv_min st..port_resv_max st})"

definition ports_inv :: "nat \<Rightarrow> port_state \<times> holders \<Rightarrow> bool" where
  "ports_inv n = (\<lambda>(st, hs). \<exists>t. port_resv_table st = Some t \<and> length t = port_resv_cnt st \<and>
     port_resv_min st \<le> port_resv_max st \<and> port_resv_cnt st = port_resv_max st - port_resv_min st + 1 \<and> table_ok n t \<and>
     (\<forall>h \<in> set (map snd hs). holder_ok n st h) \<and> sorted_wrt apart (map snd hs) \<and>
     (\<forall>j < port_resv_cnt st. bits_of (t ! j) = taken (map snd hs) (port_resv_min st + j)))"

lemma holder_ok_cong:
  "port_resv_min st' = port_resv_min st \<Longrightarrow> port_resv_max st' = port_resv_max st \<Longrightarrow> holder_ok n st' h = holder_ok n st h"
  by (simp add: holder_ok_def)

definition port_request :: "nat \<Rightarrow> port_holder \<Rightarrow> bool" where
  "port_request n h \<longleftrightarrow> bitstr_wf (holder_nodes h) \<and> bs_bits (holder_nodes h) = n \<and> resv_port_cnt h \<noteq> 0"

text \<open>The ports that no holder has on a node of the request.\<close>

definition free_ports :: "port_state \<Rightarrow> port_holder list \<Rightarrow> nat set \<Rightarrow> nat set" where
  "free_ports st hs nodes = {p. port_resv_min st \<le> p \<and> p \<le> port_resv_max st \<and> nodes \<inter> taken hs p = {}}"

lemma taken_append: "taken (hs @ ks) p = taken hs p \<union> taken ks p"
  by (auto simp: taken_def)

lemma taken_one: "taken [h] p = (if p \<in> hports h then hnodes h else {})"
  by (auto simp: taken_def)

lemma apart_taken: "(\<forall>k \<in> set hs. apart k h) \<longleftrightarrow> (\<forall>p \<in> hports h. hnodes h \<inter> taken hs p = {})"
  by (fastforce simp: apart_def taken_def)

text \<open>The scan finds as many free ports as are wanted, if there are enough, without repetition.\<close>

lemma scan_finds:
  assumes "ports_inv n (st, hs)" and "port_request n h" and "port_resv_table st' = port_resv_table st" and "port_resv_cnt st' = port_resv_cnt st"
  shows "\<exists>ports pos'. scan_ports (holder_nodes h) (port_resv_table st') (port_resv_cnt st') (unat (resv_port_cnt h)) (port_resv_cnt st') pos [] =
      Some (ports, pos') \<and> distinct ports \<and>
    length ports = min (unat (resv_port_cnt h)) (card (free_ports st (map snd hs) (hnodes h))) \<and>
    (\<lambda>p. port_resv_min st + p) ` set ports \<subseteq> free_ports st (map snd hs) (hnodes h)"
proof -
  let ?w = "unat (resv_port_cnt h)" and ?c = "port_resv_cnt st" and ?m = "port_resv_min st"
  let ?F = "free_ports st (map snd hs) (hnodes h)"
  obtain t where t: "port_resv_table st = Some t" "length t = ?c" "table_ok n t" "?m \<le> port_resv_max st" "?c = port_resv_max st - ?m + 1"
      "\<forall>j < ?c. bits_of (t ! j) = taken (map snd hs) (?m + j)"
    using assms(1) by (auto simp: ports_inv_def)
  let ?P = "\<lambda>j. bits_of (holder_nodes h) \<inter> bits_of (t ! j) = {}"
  have "0 < ?w" using assms(2) by (simp add: port_request_def unat_gt_0)
  then obtain pos' where sc: "scan_ports (holder_nodes h) (port_resv_table st) ?c ?w ?c pos [] = Some (take ?w (filter ?P (visits ?c ?c pos)), pos')"
    using scan_ports_Some [OF t(1,2), of "holder_nodes h" ?c "[]" ?w pos] t(3,5) assms(2) by (auto simp: table_ok_def port_request_def)
  let ?V = "filter ?P (visits ?c ?c pos)"
  have iff: "j \<in> set ?V \<longleftrightarrow> ?m + j \<in> ?F" for j
  proof -
    have "?m + j \<le> port_resv_max st \<longleftrightarrow> j < ?c" using t(4,5) by auto
    then show ?thesis using t(6) visits_all(2) [of ?c pos] by (auto simp: free_ports_def hnodes_def)
  qed
  have "?F = (\<lambda>p. ?m + p) ` set ?V"
  proof (intro set_eqI iffI)
    fix p
    assume "p \<in> ?F"
    then have "p = ?m + (p - ?m)" "p - ?m \<in> set ?V" using iff [of "p - ?m"] by (auto simp: free_ports_def)
    then show "p \<in> (\<lambda>p. ?m + p) ` set ?V" by blast
  qed (use iff in auto)
  moreover have d: "distinct ?V" using visits_all(1) by simp
  ultimately have "card ?F = length ?V" by (simp add: card_image distinct_card del: set_filter)
  moreover have "(\<lambda>p. ?m + p) ` set (take ?w ?V) \<subseteq> ?F" using iff by (auto dest: in_set_takeD)
  ultimately show ?thesis using sc d assms(3,4) by (auto simp: min.commute intro!: distinct_take)
qed

lemma inv_reserve:
  assumes "ports_inv n (st, hs)" and "port_request n h" and "distinct ports" and "length ports = unat (resv_port_cnt h)"
    and "(\<lambda>p. port_resv_min st + p) ` set ports \<subseteq> free_ports st (map snd hs) (hnodes h)"
    and "port_resv_cnt st' = port_resv_cnt st" "port_resv_min st' = port_resv_min st" "port_resv_max st' = port_resv_max st"
  shows "\<exists>t'. reserve_ports (holder_nodes h) ports (port_resv_table st) = Some t' \<and>
    ports_inv n (st'\<lparr>port_resv_table := t'\<rparr>, hs @ [(pk, h\<lparr>resv_ports := s, resv_port_array := Some (map (\<lambda>p. p + port_resv_min st) ports)\<rparr>)])"
proof -
  let ?m = "port_resv_min st" and ?H = "map snd hs"
  let ?h = "h\<lparr>resv_ports := s, resv_port_array := Some (map (\<lambda>p. p + ?m) ports)\<rparr>"
  obtain t where t: "port_resv_table st = Some t" "length t = port_resv_cnt st" "?m \<le> port_resv_max st"
      "port_resv_cnt st = port_resv_max st - ?m + 1" "table_ok n t"
      "\<forall>h \<in> set ?H. holder_ok n st h" "sorted_wrt apart ?H" "\<forall>j < port_resv_cnt st. bits_of (t ! j) = taken ?H (?m + j)"
    using assms(1) by (auto simp: ports_inv_def)
  have b: "\<forall>p \<in> set ports. p < length t" using assms(5) t(2-4) by (force simp: free_ports_def)
  obtain t' where t': "reserve_ports (holder_nodes h) ports (Some t) = Some (Some t')" "table_ok n t'" "length t' = length t"
      "\<forall>j < length t. bits_of (t' ! j) = bits_of (t ! j) \<union> (if j \<in> set ports then bits_of (holder_nodes h) else {})"
    using reserve_ports_Some [OF t(5) _ _ b, of "holder_nodes h"] assms(2) by (auto simp: port_request_def)
  have hp: "hports ?h = (\<lambda>p. ?m + p) ` set ports" "hnodes ?h = hnodes h" by (auto simp: hports_def hnodes_def add.commute)
  have "\<forall>k \<in> set ?H. apart k ?h" unfolding apart_taken hp using assms(5) by (auto simp: free_ports_def)
  then have ap: "sorted_wrt apart (?H @ [?h])" using t(7) by (simp add: sorted_wrt_append)
  have ok: "holder_ok n st ?h" using assms(2,4,5) by (auto simp: holder_ok_def port_request_def free_ports_def add.commute)
  have "bits_of (t' ! j) = taken (?H @ [?h]) (?m + j)" if "j < port_resv_cnt st" for j
    using t'(4) t(2,8) that unfolding taken_append taken_one hp by (auto simp: hnodes_def)
  then have "ports_inv n (st'\<lparr>port_resv_table := Some t'\<rparr>, hs @ [(pk, ?h)])"
    using t(2-4,6) t'(2,3) ap ok assms(6-8) by (simp add: ports_inv_def holder_ok_def)
  then show ?thesis using t'(1) t(1) by auto
qed

lemma inv_release:
  assumes "ports_inv n (st, xs @ (pk, h) # ys)"
  shows "\<exists>t' h' a. resv_port_array h = Some a \<and> release_ports st h a = Some (t', h') \<and> resv_port_array h' = None \<and> hnodes h' = hnodes h \<and>
    (\<forall>st'. port_resv_cnt st' = port_resv_cnt st \<and> port_resv_min st' = port_resv_min st \<and> port_resv_max st' = port_resv_max st \<and>
       port_resv_table st' = t' \<longrightarrow> ports_inv n (st', xs @ ys))"
proof -
  let ?m = "port_resv_min st" and ?X = "map snd xs" and ?Y = "map snd ys"
  obtain t where t: "port_resv_table st = Some t" "length t = port_resv_cnt st" "?m \<le> port_resv_max st"
      "port_resv_cnt st = port_resv_max st - ?m + 1" "table_ok n t"
      "\<forall>h \<in> set (?X @ h # ?Y). holder_ok n st h" "sorted_wrt apart (?X @ h # ?Y)"
      "\<forall>j < port_resv_cnt st. bits_of (t ! j) = taken (?X @ h # ?Y) (?m + j)"
    using assms unfolding ports_inv_def prod.case map_append list.map snd_conv by blast
  obtain a where a: "resv_port_array h = Some a" "length a = unat (resv_port_cnt h)" "set a \<subseteq> {?m..port_resv_max st}"
      "bitstr_wf (holder_nodes h)" "bs_bits (holder_nodes h) = n"
    using t(6) by (auto simp: holder_ok_def)
  have b: "\<forall>p \<in> set a. ?m \<le> p \<and> p \<le> port_resv_max st \<and> p - ?m < length t" using a(3) t(2-4) by force
  obtain t' nodes where r: "release_ports st h a = Some (Some t', h\<lparr>holder_nodes := nodes, resv_port_array := None\<rparr>)"
      "bits_of nodes = bits_of (holder_nodes h)" "table_ok n t'" "length t' = length t"
      "\<forall>j < length t. bits_of (t' ! j) = bits_of (t ! j) - (if ?m + j \<in> set a then bits_of (holder_nodes h) else {})"
    using release_ports_Some [OF t(5) a(4,5) t(1) a(2) b] by blast
  have ap: "sorted_wrt apart (?X @ ?Y)" "\<forall>k \<in> set ?X. apart k h" "\<forall>k \<in> set ?Y. apart h k" using t(7) by (auto simp: sorted_wrt_append)
  then have "\<forall>k \<in> set (?X @ ?Y). apart k h" by (auto simp: apart_def Int_commute)
  then have dis: "\<forall>p \<in> set a. hnodes h \<inter> taken (?X @ ?Y) p = {}" unfolding apart_taken using a(1) by (simp add: hports_def)
  have "taken (?X @ h # ?Y) p = taken (?X @ ?Y) p \<union> (if p \<in> set a then hnodes h else {})" for p
    using taken_append [of ?X "[h] @ ?Y"] taken_append [of "[h]" ?Y] a(1) by (auto simp: taken_append taken_one hports_def)
  then have "bits_of (t' ! j) = taken (?X @ ?Y) (?m + j)" if "j < port_resv_cnt st" for j
    using r(5) t(2,8) that dis by (auto simp: hnodes_def)
  then have "ports_inv n (st', xs @ ys)" if "port_resv_cnt st' = port_resv_cnt st" "port_resv_min st' = ?m"
      "port_resv_max st' = port_resv_max st" "port_resv_table st' = Some t'" for st'
    using that t(2-4,6) r(3,4) ap(1) holder_ok_cong [of st' st n] by (auto simp: ports_inv_def)
  then show ?thesis using a(1) r(1,2) by (intro exI [of _ "Some t'"] exI [of _ "h\<lparr>holder_nodes := nodes, resv_port_array := None\<rparr>"] exI [of _ a])
    (simp add: hnodes_def)
qed


section \<open>Sequences of operations\<close>

datatype port_op = StepAlloc port_holder | PackAlloc port_holder | Release nat

inductive port_step :: "(nat list \<Rightarrow> c_string) \<Rightarrow> nat \<Rightarrow> port_op \<Rightarrow> port_state \<times> holders \<Rightarrow> port_state \<times> holders \<Rightarrow> bool"
  for ranged :: "nat list \<Rightarrow> c_string" and n :: nat where
  step_alloc: "port_request n h \<Longrightarrow> resv_port_alloc ranged st h = Some (rc, st', h') \<Longrightarrow>
     port_step ranged n (StepAlloc h) (st, hs) (st', if rc = SLURM_SUCCESS then hs @ [(False, h')] else hs)"
| pack_alloc: "port_request n h \<Longrightarrow> resv_port_alloc_jobpack ranged st h = Some (rc, st', h') \<Longrightarrow>
     port_step ranged n (PackAlloc h) (st, hs) (st', if rc = SLURM_SUCCESS then hs @ [(True, h')] else hs)"
| release: "i < length hs \<Longrightarrow> hs ! i = (pk, h) \<Longrightarrow>
     (if pk then resv_port_jobpack_free st h else resv_port_free st h) = Some (st', h') \<Longrightarrow>
     port_step ranged n (Release i) (st, hs) (st', take i hs @ drop (Suc i) hs)"

inductive_cases port_stepE: "port_step ranged n l (st, hs) s'"

text \<open>The port manager right after it was configured, before any step exists.\<close>

definition port_init :: "nat \<Rightarrow> port_state \<times> holders \<Rightarrow> bool" where
  "port_init n = (\<lambda>(st, hs). hs = [] \<and> port_resv_table st \<noteq> None \<and>
     (\<exists>expand_hosts mpi_params rc jobs. reserve_port_config expand_hosts n [] mpi_params initial_ports = Some (rc, st, jobs)))"

lemma alloc_table_Some:
  assumes "forM xs (\<lambda>i t. do { b \<leftarrow> bit_alloc (int n); Some (t @ [b]) }) t0 = Some t" and "table_ok n t0" and "\<forall>b \<in> set t0. bits_of b = {}"
  shows "length t = length t0 + length xs \<and> table_ok n t \<and> (\<forall>b \<in> set t. bits_of b = {})"
  using assms
proof (induction xs arbitrary: t0)
  case (Cons x xs)
  then obtain b where b: "bit_alloc (int n) = Some b" by (auto simp: bind_eq_Some_conv split: option.splits)
  then have "n \<le> 0x40000000" by (auto simp: bit_alloc_def assert_valid_size_def bind_eq_Some_conv assertC_def split: if_splits)
  then have "bitstr_wf b" "bs_bits b = n" "bits_of b = {}" using bit_alloc_Some [of n] b by (metis option.inject)+
  then have ok: "table_ok n (t0 @ [b])" "\<forall>b \<in> set (t0 @ [b]). bits_of b = {}" using Cons.prems(2,3) by (auto simp: table_ok_def)
  have "forM xs (\<lambda>i t. do { b \<leftarrow> bit_alloc (int n); Some (t @ [b]) }) (t0 @ [b]) = Some t" using Cons.prems(1) b by simp
  from Cons.IH [OF this ok] show ?case by simp
qed simp

lemma inv_init:
  assumes "port_init n s"
  shows "ports_inv n s"
proof -
  obtain st expand_hosts mpi rc jobs where s: "s = (st, [])" "port_resv_table st \<noteq> None"
      "reserve_port_config expand_hosts n [] mpi initial_ports = Some (rc, st, jobs)"
    using assms by (cases s) (auto simp: port_init_def)
  have c: "port_resv_min st \<le> port_resv_max st \<and> port_resv_cnt st = port_resv_max st - port_resv_min st + 1 \<and>
      (\<exists>t. forM [0..<port_resv_cnt st] (\<lambda>i t. do { b \<leftarrow> bit_alloc (int n); Some (t @ [b]) }) [] = Some t \<and> port_resv_table st = Some t)"
    using s(2,3) unfolding reserve_port_config_def
    by (auto simp: Let_def initial_ports_def bind_eq_Some_conv split: option.splits prod.splits if_splits)
  then obtain t where "port_resv_table st = Some t" "length t = port_resv_cnt st" "table_ok n t" "\<forall>b \<in> set t. bits_of b = {}"
    using alloc_table_Some [of "[0..<port_resv_cnt st]" n "[]"] by (auto simp: table_ok_def)
  then show ?thesis using c by (simp add: s(1) ports_inv_def taken_def)
qed


text \<open>The state up to the search positions and the counters of the packs.\<close>

definition same_table :: "port_state \<Rightarrow> port_state \<Rightarrow> bool" where
  "same_table st st' \<longleftrightarrow> port_resv_table st' = port_resv_table st \<and> port_resv_cnt st' = port_resv_cnt st \<and>
     port_resv_min st' = port_resv_min st \<and> port_resv_max st' = port_resv_max st"

lemma ports_inv_cong:
  assumes "same_table st st'"
  shows "ports_inv n (st', hs) = ports_inv n (st, hs)"
proof -
  have "holder_ok n st' = holder_ok n st" using assms by (auto simp: same_table_def holder_ok_def fun_eq_iff)
  then show ?thesis using assms by (simp add: ports_inv_def same_table_def)
qed

text \<open>What a successful reservation gives.\<close>

definition reserved :: "nat \<Rightarrow> bool \<Rightarrow> port_state \<Rightarrow> holders \<Rightarrow> port_holder \<Rightarrow> port_state \<Rightarrow> port_holder \<Rightarrow> bool" where
  "reserved n pk st hs h st' h' \<longleftrightarrow> ports_inv n (st', hs @ [(pk, h')]) \<and> holder_nodes h' = holder_nodes h \<and>
     resv_port_cnt h' = resv_port_cnt h \<and> resv_ports h' \<noteq> None \<and> port_resv_cnt st' = port_resv_cnt st \<and>
     port_resv_min st' = port_resv_min st \<and> port_resv_max st' = port_resv_max st \<and>
     card (hports h') = unat (resv_port_cnt h) \<and> hports h' \<subseteq> free_ports st (map snd hs) (hnodes h)"

lemma reserved_ports:
  assumes "ports_inv n (st, hs)" and "port_request n h" and "distinct ports" and "length ports = unat (resv_port_cnt h)"
    and "(\<lambda>p. port_resv_min st + p) ` set ports \<subseteq> free_ports st (map snd hs) (hnodes h)"
    and "same_table st st'"
  shows "\<exists>t'. reserve_ports (holder_nodes h) ports (port_resv_table st) = Some t' \<and>
    reserved n pk st hs h (st'\<lparr>port_resv_table := t'\<rparr>)
      (h\<lparr>resv_ports := Some s, resv_port_array := Some (map (\<lambda>p. p + port_resv_min st) ports)\<rparr>)"
proof -
  have "hports (h\<lparr>resv_ports := Some s, resv_port_array := Some (map (\<lambda>p. p + port_resv_min st) ports)\<rparr>) = (\<lambda>p. port_resv_min st + p) ` set ports"
    by (auto simp: hports_def add.commute)
  moreover have "card ((\<lambda>p. port_resv_min st + p) ` set ports) = unat (resv_port_cnt h)"
    using assms(3,4) by (simp add: card_image distinct_card)
  ultimately show ?thesis
    using inv_reserve [OF assms(1-5), of st' pk "Some s"] assms(5,6) by (auto simp: reserved_def same_table_def)
qed

lemma alloc_result:
  assumes "ports_inv n (st, hs)" and "port_request n h"
  shows "\<exists>rc st' h'. resv_port_alloc ranged st h = Some (rc, st', h') \<and>
    (if port_resv_cnt st < unat (resv_port_cnt h) + port_resv_cnt_jobpack st then rc = ESLURM_PORTS_INVALID \<and> same_table st st' \<and> h' = h
     else if card (free_ports st (map snd hs) (hnodes h)) < unat (resv_port_cnt h) then rc = ESLURM_PORTS_BUSY \<and> same_table st st' \<and> h' = h
     else rc = SLURM_SUCCESS \<and> reserved n False st hs h st' h')"
proof -
  let ?hp = "max (hport st) (port_resv_cnt_jobpack st)"
  let ?st = "st\<lparr>hport := ?hp, last_port_alloc := (if ?hp > 0 then ?hp else last_port_alloc st)\<rparr>"
  let ?w = "unat (resv_port_cnt h)"
  obtain ports pos where sc: "scan_ports (holder_nodes h) (port_resv_table ?st) (port_resv_cnt ?st) ?w (port_resv_cnt ?st) (last_port_alloc ?st) [] =
      Some (ports, pos)" "distinct ports" "length ports = min ?w (card (free_ports st (map snd hs) (hnodes h)))"
      "(\<lambda>p. port_resv_min st + p) ` set ports \<subseteq> free_ports st (map snd hs) (hnodes h)"
    using scan_finds [OF assms, of ?st "last_port_alloc ?st"] by auto
  let ?st2 = "?st\<lparr>last_port_alloc := pos\<rparr>"
  have same: "same_table st ?st" "same_table st ?st2" by (simp_all add: same_table_def)
  have "length ports = ?w" if "\<not> card (free_ports st (map snd hs) (hnodes h)) < ?w" using sc(3) that by simp
  from reserved_ports [OF assms sc(2) this sc(4) same(2), of False "ranged (map (\<lambda>p. p + port_resv_min st) ports)"]
  show ?thesis
    using sc(1,3) same unfolding resv_port_alloc_def by (auto simp: Let_def)
qed

lemma pack_alloc_result:
  assumes "ports_inv n (st, hs)" and "port_request n h"
  shows "\<exists>rc st' h'. resv_port_alloc_jobpack ranged st h = Some (rc, st', h') \<and>
    (if port_resv_cnt st < unat (resv_port_cnt h) then rc = ESLURM_PORTS_INVALID \<and> st' = st \<and> h' = h
     else if card (free_ports st (map snd hs) (hnodes h)) < unat (resv_port_cnt h) then rc = ESLURM_PORTS_BUSY \<and> same_table st st' \<and> h' = h
     else rc = SLURM_SUCCESS \<and> reserved n True st hs h st' h')"
proof -
  let ?w = "unat (resv_port_cnt h)"
  let ?st = "st\<lparr>port_resv_cnt_jobpack := port_resv_cnt_jobpack st + ?w\<rparr>"
  obtain ports pos where sc: "scan_ports (holder_nodes h) (port_resv_table ?st) (port_resv_cnt ?st) ?w (port_resv_cnt ?st) (last_port_alloc_jobpack ?st) [] =
      Some (ports, pos)" "distinct ports" "length ports = min ?w (card (free_ports st (map snd hs) (hnodes h)))"
      "(\<lambda>p. port_resv_min st + p) ` set ports \<subseteq> free_ports st (map snd hs) (hnodes h)"
    using scan_finds [OF assms, of ?st "last_port_alloc_jobpack ?st"] by auto
  let ?st2 = "?st\<lparr>last_port_alloc_jobpack := pos\<rparr>"
  have same: "same_table st ?st" "same_table st ?st2" by (simp_all add: same_table_def)
  have "length ports = ?w" if "\<not> card (free_ports st (map snd hs) (hnodes h)) < ?w" using sc(3) that by simp
  from reserved_ports [OF assms sc(2) this sc(4) same(2), of True "strip_brackets (ranged (map (\<lambda>p. p + port_resv_min st) ports))"]
  show ?thesis
    using sc(1,3) same unfolding resv_port_alloc_jobpack_def by (auto simp: Let_def)
qed

lemma release_result:
  assumes "ports_inv n (st, hs)" and "i < length hs" and "hs ! i = (pk, h)"
  shows "\<exists>st' h'. (if pk then resv_port_jobpack_free st h else resv_port_free st h) = Some (st', h') \<and>
    ports_inv n (st', take i hs @ drop (Suc i) hs) \<and> resv_port_array h' = None \<and> hnodes h' = hnodes h"
proof -
  have hs: "hs = take i hs @ (pk, h) # drop (Suc i) hs" using id_take_nth_drop [OF assms(2)] assms(3) by simp
  obtain t' h' a where r: "resv_port_array h = Some a" "release_ports st h a = Some (t', h')" "resv_port_array h' = None" "hnodes h' = hnodes h"
      "\<forall>st'. port_resv_cnt st' = port_resv_cnt st \<and> port_resv_min st' = port_resv_min st \<and> port_resv_max st' = port_resv_max st \<and>
         port_resv_table st' = t' \<longrightarrow> ports_inv n (st', take i hs @ drop (Suc i) hs)"
    using inv_release [of n st "take i hs" pk h "drop (Suc i) hs"] assms(1) hs by metis
  show ?thesis
  proof (cases pk)
    case True
    then show ?thesis using r by (simp add: resv_port_jobpack_free_def)
  next
    case False
    then show ?thesis using r by (simp add: resv_port_free_def)
  qed
qed

lemma inv_step:
  assumes "ports_inv n s" and "port_step ranged n l s s'"
  shows "ports_inv n s'"
  using assms(2,1)
proof cases
  case (step_alloc h st rc st' h' hs)
  then show ?thesis using alloc_result [of n st hs h ranged] assms(1) ports_inv_cong [of st st' n hs]
    by (auto simp: reserved_def SLURM_SUCCESS_def ESLURM_PORTS_BUSY_def ESLURM_PORTS_INVALID_def split: if_splits)
next
  case (pack_alloc h st rc st' h' hs)
  then show ?thesis using pack_alloc_result [of n st hs h ranged] assms(1) ports_inv_cong [of st st' n hs]
    by (auto simp: reserved_def SLURM_SUCCESS_def ESLURM_PORTS_BUSY_def ESLURM_PORTS_INVALID_def split: if_splits)
next
  case (release i hs pk h st st' h')
  then show ?thesis using release_result [of n st hs i pk h] assms(1) by auto
qed

interpretation pm: inductive_invariant "port_init n" "port_step ranged n" "ports_inv n" for n ranged
  by unfold_locales (auto intro: inv_init inv_step)


section \<open>Properties of the port manager\<close>

text \<open>Four nodes and the ports 1 to 3; requests for two ports on the first, second or third node.\<close>

definition sample_request :: "u64 \<Rightarrow> port_holder" where
  "sample_request w = \<lparr>resv_port_array = None, resv_port_cnt = 2, resv_ports = None,
     holder_nodes = \<lparr>bs_magic = BITSTR_MAGIC, bs_bits = 4, bs_words = [w]\<rparr>\<rparr>"

definition sample_holder :: "u64 \<Rightarrow> nat list \<Rightarrow> port_holder" where
  "sample_holder w ps = (sample_request w)\<lparr>resv_port_array := Some ps, resv_ports := Some []\<rparr>"

definition sample_table :: "u64 list \<Rightarrow> bitstr list option" where
  "sample_table ws = Some (map (\<lambda>w. \<lparr>bs_magic = BITSTR_MAGIC, bs_bits = 4, bs_words = [w]\<rparr>) ws)"

definition sample_ports0 :: port_state where
  "sample_ports0 = initial_ports\<lparr>port_resv_min := 1, port_resv_max := 3, port_resv_cnt := 3, port_resv_table := sample_table [0, 0, 0]\<rparr>"

definition sample_ports1 :: port_state where
  "sample_ports1 = sample_ports0\<lparr>port_resv_table := sample_table [0, 1, 1], last_port_alloc := 2\<rparr>"

definition sample_ports2 :: port_state where
  "sample_ports2 = sample_ports0\<lparr>port_resv_table := sample_table [0, 3, 3], last_port_alloc := 2,
     last_port_alloc_jobpack := 2, port_resv_cnt_jobpack := 2\<rparr>"

lemma sample_request_ok: "port_request 4 (sample_request w)"
  by (simp add: port_request_def sample_request_def bitstr_wf_def bitstr_words_def)

lemma sample_config:
  "reserve_port_config (\<lambda>s. None) 4 [] (Some [112, 111, 114, 116, 115, 61, 49, 45, 51]) initial_ports = Some (SLURM_SUCCESS, sample_ports0, [])"
  by code_simp

lemma sample_alloc1: "resv_port_alloc (\<lambda>ps. []) sample_ports0 (sample_request 1) = Some (SLURM_SUCCESS, sample_ports1, sample_holder 1 [2, 3])"
  by code_simp

lemma sample_alloc2:
  "resv_port_alloc_jobpack (\<lambda>ps. []) sample_ports1 (sample_request 2) = Some (SLURM_SUCCESS, sample_ports2, sample_holder 2 [2, 3])"
  by code_simp


lemma sample_reach:
  "reach (port_init 4) (port_step (\<lambda>ps. []) 4) (sample_ports1, [(False, sample_holder 1 [2, 3])])"
  "reach (port_init 4) (port_step (\<lambda>ps. []) 4) (sample_ports2, [(False, sample_holder 1 [2, 3]), (True, sample_holder 2 [2, 3])])"
proof -
  have "port_init 4 (sample_ports0, [])"
    using sample_config by (auto simp: port_init_def sample_ports0_def sample_table_def)
  then have "reach (port_init 4) (port_step (\<lambda>ps. []) 4) (sample_ports0, [])" by (rule reach_init)
  moreover have "port_step (\<lambda>ps. []) 4 (StepAlloc (sample_request 1)) (sample_ports0, []) (sample_ports1, [(False, sample_holder 1 [2, 3])])"
    using step_alloc [OF sample_request_ok sample_alloc1, of "[]"] by simp
  ultimately show r: "reach (port_init 4) (port_step (\<lambda>ps. []) 4) (sample_ports1, [(False, sample_holder 1 [2, 3])])" by (rule reach_step)
  have "port_step (\<lambda>ps. []) 4 (PackAlloc (sample_request 2)) (sample_ports1, [(False, sample_holder 1 [2, 3])])
      (sample_ports2, [(False, sample_holder 1 [2, 3]), (True, sample_holder 2 [2, 3])])"
    using pack_alloc [OF sample_request_ok sample_alloc2, of "[(False, sample_holder 1 [2, 3])]"] by simp
  with r show "reach (port_init 4) (port_step (\<lambda>ps. []) 4) (sample_ports2, [(False, sample_holder 1 [2, 3]), (True, sample_holder 2 [2, 3])])"
    by (rule reach_step)
qed

text \<open>
  C12: Whatever sequence of reservations and releases by steps and pack jobs follows the
  configuration, two different holders of the same port have no node in common.
\<close>

theorem ports_exclusive:
  assumes "reach (port_init n) (port_step ranged n) (st, hs)" and "i < j" and "j < length hs"
    and "p \<in> hports (snd (hs ! i))" and "p \<in> hports (snd (hs ! j))"
  shows "bits_of (holder_nodes (snd (hs ! i))) \<inter> bits_of (holder_nodes (snd (hs ! j))) = {}"
proof -
  have "sorted_wrt apart (map snd hs)" using pm.reachable [OF assms(1)] by (auto simp: ports_inv_def)
  then have "apart (snd (hs ! i)) (snd (hs ! j))" using assms(2,3) by (auto simp: sorted_wrt_iff_nth_less)
  then show ?thesis using assms(4,5) by (auto simp: apart_def hnodes_def)
qed

theorem ports_exclusive_witness:
  "bits_of (holder_nodes (sample_holder 1 [2, 3])) \<inter> bits_of (holder_nodes (sample_holder 2 [2, 3])) = {}"
  using ports_exclusive [OF sample_reach(2), of 0 1 2] by (simp add: hports_def sample_holder_def)

text \<open>
  C13: In every reachable state a reservation for a step returns: it is refused as invalid if more
  ports are wanted than exist beyond those counted for packs, as busy if fewer are free on all nodes
  of the step, and otherwise it takes exactly as many ports as wanted, all of them free on these
  nodes. A refused reservation leaves the table as it was. The same holds for a pack job, which is
  refused as invalid only if it wants more ports than exist.
\<close>

theorem port_alloc_exact:
  assumes "reach (port_init n) (port_step ranged n) (st, hs)" and "port_request n h"
  shows "(\<exists>rc st' h'. resv_port_alloc ranged st h = Some (rc, st', h') \<and>
      (if port_resv_cnt st < unat (resv_port_cnt h) + port_resv_cnt_jobpack st then rc = ESLURM_PORTS_INVALID \<and> same_table st st' \<and> h' = h
       else if card (free_ports st (map snd hs) (hnodes h)) < unat (resv_port_cnt h) then rc = ESLURM_PORTS_BUSY \<and> same_table st st' \<and> h' = h
       else rc = SLURM_SUCCESS \<and> holder_nodes h' = holder_nodes h \<and> card (hports h') = unat (resv_port_cnt h) \<and>
         hports h' \<subseteq> free_ports st (map snd hs) (hnodes h))) \<and>
    (\<exists>rc st' h'. resv_port_alloc_jobpack ranged st h = Some (rc, st', h') \<and>
      (if port_resv_cnt st < unat (resv_port_cnt h) then rc = ESLURM_PORTS_INVALID \<and> same_table st st' \<and> h' = h
       else if card (free_ports st (map snd hs) (hnodes h)) < unat (resv_port_cnt h) then rc = ESLURM_PORTS_BUSY \<and> same_table st st' \<and> h' = h
       else rc = SLURM_SUCCESS \<and> holder_nodes h' = holder_nodes h \<and> card (hports h') = unat (resv_port_cnt h) \<and>
         hports h' \<subseteq> free_ports st (map snd hs) (hnodes h)))"
proof -
  note inv = pm.reachable [OF assms(1)]
  have same: "same_table st st" by (simp add: same_table_def)
  obtain rc1 st1 h1 where a: "resv_port_alloc ranged st h = Some (rc1, st1, h1)"
      "if port_resv_cnt st < unat (resv_port_cnt h) + port_resv_cnt_jobpack st then rc1 = ESLURM_PORTS_INVALID \<and> same_table st st1 \<and> h1 = h
       else if card (free_ports st (map snd hs) (hnodes h)) < unat (resv_port_cnt h) then rc1 = ESLURM_PORTS_BUSY \<and> same_table st st1 \<and> h1 = h
       else rc1 = SLURM_SUCCESS \<and> reserved n False st hs h st1 h1"
    using alloc_result [OF inv assms(2), of ranged] by blast
  obtain rc2 st2 h2 where b: "resv_port_alloc_jobpack ranged st h = Some (rc2, st2, h2)"
      "if port_resv_cnt st < unat (resv_port_cnt h) then rc2 = ESLURM_PORTS_INVALID \<and> st2 = st \<and> h2 = h
       else if card (free_ports st (map snd hs) (hnodes h)) < unat (resv_port_cnt h) then rc2 = ESLURM_PORTS_BUSY \<and> same_table st st2 \<and> h2 = h
       else rc2 = SLURM_SUCCESS \<and> reserved n True st hs h st2 h2"
    using pack_alloc_result [OF inv assms(2), of ranged] by blast
  show ?thesis
  proof (rule conjI, goal_cases)
    case 1
    show ?case using a by (intro exI [of _ rc1] exI [of _ st1] exI [of _ h1]) (simp add: reserved_def split: if_split_asm)
  next
    case 2
    show ?case using b same by (intro exI [of _ rc2] exI [of _ st2] exI [of _ h2]) (simp add: reserved_def split: if_split_asm)
  qed
qed

theorem port_alloc_exact_witness:
  "\<exists>rc st' h'. resv_port_alloc (\<lambda>ps. []) sample_ports1 (sample_request 2) = Some (rc, st', h') \<and> holder_nodes h' = holder_nodes (sample_request 2)"
  using port_alloc_exact [OF sample_reach(1) sample_request_ok, of 2] by (auto split: if_splits)

text \<open>
  A pack job that is refused because its ports are busy is counted all the same: the number of
  ports reserved for packs grows although the table does not change, and steps for which enough ports
  are free are then refused as invalid.
\<close>

theorem busy_pack_counted:
  assumes "resv_port_alloc_jobpack ranged st job = Some (ESLURM_PORTS_BUSY, st', job')"
  shows "port_resv_table st' = port_resv_table st \<and>
    port_resv_cnt_jobpack st' = port_resv_cnt_jobpack st + unat (resv_port_cnt job) \<and>
    (port_resv_cnt st < unat (resv_port_cnt step) + port_resv_cnt_jobpack st + unat (resv_port_cnt job) \<longrightarrow>
       (\<exists>st''. resv_port_alloc ranged st' step = Some (ESLURM_PORTS_INVALID, st'', step)))"
proof -
  have "port_resv_table st' = port_resv_table st \<and> port_resv_cnt st' = port_resv_cnt st \<and>
      port_resv_cnt_jobpack st' = port_resv_cnt_jobpack st + unat (resv_port_cnt job)"
    using assms unfolding resv_port_alloc_jobpack_def
    by (auto simp: Let_def bind_eq_Some_conv SLURM_SUCCESS_def ESLURM_PORTS_BUSY_def ESLURM_PORTS_INVALID_def split: if_splits)
  then show ?thesis by (simp add: resv_port_alloc_def Let_def)
qed

theorem busy_pack_counted_witness:
  "(\<exists>st' job'. resv_port_alloc_jobpack (\<lambda>ps. []) sample_ports1 (sample_request 1) = Some (ESLURM_PORTS_BUSY, st', job') \<and>
     (\<exists>st''. resv_port_alloc (\<lambda>ps. []) st' (sample_request 4) = Some (ESLURM_PORTS_INVALID, st'', sample_request 4))) \<and>
   (\<exists>st'' h. resv_port_alloc (\<lambda>ps. []) sample_ports1 (sample_request 4) = Some (SLURM_SUCCESS, st'', h))"
proof -
  have busy: "resv_port_alloc_jobpack (\<lambda>ps. []) sample_ports1 (sample_request 1) =
      Some (ESLURM_PORTS_BUSY, sample_ports1\<lparr>port_resv_cnt_jobpack := 2\<rparr>, sample_request 1)"
    by code_simp
  have "resv_port_alloc (\<lambda>ps. []) sample_ports1 (sample_request 4) =
      Some (SLURM_SUCCESS, sample_ports1\<lparr>port_resv_table := sample_table [4, 5, 1], last_port_alloc := 1\<rparr>, sample_holder 4 [1, 2])"
    by code_simp
  moreover have "port_resv_cnt sample_ports1 < unat (resv_port_cnt (sample_request 4)) + port_resv_cnt_jobpack sample_ports1 + unat (resv_port_cnt (sample_request 1))"
    by (simp add: sample_ports1_def sample_ports0_def sample_request_def initial_ports_def)
  ultimately show ?thesis using busy busy_pack_counted [OF busy, of "sample_request 4"] by blast
qed

text \<open>
  C35: Ports reserved twice for a pack job, once when its nodes are allocated and again when it is
  launched, are not given back: after the job released its ports, as many ports as it has nodes remain
  taken on all its nodes, although no step or job holds them.
\<close>

theorem second_pack_reservation_leaks:
  assumes "reach (port_init n) (port_step ranged n) (st, [])" and "port_request n (job\<lparr>resv_port_cnt := ucast node_cnt\<rparr>)"
    and "2 * unat (ucast node_cnt :: u16) \<le> port_resv_cnt st"
  shows "\<exists>st1 job1 s st2 job2 st3 job3 t. set_resv_ports_jobpack ranged node_cnt st job = Some (st1, job1) \<and>
    resv_ports_jobpack ranged node_cnt st1 job1 = Some (Some s, st2, job2) \<and>
    resv_port_jobpack_free st2 job2 = Some (st3, job3) \<and> resv_port_array job3 = None \<and> port_resv_table st3 = Some t \<and>
    unat (ucast node_cnt :: u16) \<le> card {j. j < port_resv_cnt st3 \<and> bits_of (holder_nodes job) \<subseteq> bits_of (t ! j)}"
proof -
  let ?w = "ucast node_cnt :: u16"
  let ?h = "job\<lparr>resv_port_cnt := ?w\<rparr>"
  note inv = pm.reachable [OF assms(1)]
  have range: "card {port_resv_min st..port_resv_max st} = port_resv_cnt st" using inv by (auto simp: ports_inv_def)
  have "free_ports st (map snd []) (hnodes ?h) = {port_resv_min st..port_resv_max st}" by (auto simp: free_ports_def taken_def)
  then obtain st1 job1 where a: "resv_port_alloc_jobpack ranged st ?h = Some (SLURM_SUCCESS, st1, job1)" "reserved n True st [] ?h st1 job1"
    using pack_alloc_result [OF inv assms(2), of ranged] assms(3) range by auto
  let ?h1 = "job1\<lparr>resv_port_cnt := ?w\<rparr>"
  have r1: "ports_inv n (st1, [(True, job1)])" "holder_nodes job1 = holder_nodes job" "?h1 = job1" "card (hports job1) = unat ?w"
      "port_resv_cnt st1 = port_resv_cnt st" "port_resv_min st1 = port_resv_min st" "port_resv_max st1 = port_resv_max st"
      "hports job1 \<subseteq> {port_resv_min st..port_resv_max st}"
    using a(2) by (auto simp: reserved_def free_ports_def)
  have req: "port_request n job1" using assms(2) a(2) by (simp add: port_request_def reserved_def)
  have "{port_resv_min st..port_resv_max st} - hports job1 \<subseteq> free_ports st1 (map snd [(True, job1)]) (hnodes job1)"
    using r1(6,7) by (auto simp: free_ports_def taken_def)
  moreover have "finite (free_ports st1 (map snd [(True, job1)]) (hnodes job1))"
    by (rule finite_subset [of _ "{port_resv_min st1..port_resv_max st1}"]) (auto simp: free_ports_def)
  ultimately have "card ({port_resv_min st..port_resv_max st} - hports job1) \<le> card (free_ports st1 (map snd [(True, job1)]) (hnodes job1))"
    by (intro card_mono)
  moreover have "card ({port_resv_min st..port_resv_max st} - hports job1) = port_resv_cnt st - unat ?w"
    using r1(4,8) range by (subst card_Diff_subset) (auto intro: finite_subset)
  ultimately have "unat ?w \<le> card (free_ports st1 (map snd [(True, job1)]) (hnodes job1))" using assms(3) by linarith
  moreover have "unat (resv_port_cnt job1) = unat ?w" using a(2) by (simp add: reserved_def)
  ultimately obtain st2 job2 where b: "resv_port_alloc_jobpack ranged st1 job1 = Some (SLURM_SUCCESS, st2, job2)"
      "ports_inv n (st2, [(True, job1), (True, job2)])" "resv_ports job2 \<noteq> None"
    using pack_alloc_result [OF r1(1) req, of ranged] r1(5) assms(3) by (auto simp: reserved_def)
  obtain st3 job3 where c: "resv_port_jobpack_free st2 job2 = Some (st3, job3)" "ports_inv n (st3, [(True, job1)])" "resv_port_array job3 = None"
    using release_result [OF b(2), of 1 True job2] by auto
  obtain t where t: "port_resv_table st3 = Some t" "port_resv_cnt st3 = port_resv_max st3 - port_resv_min st3 + 1"
      "port_resv_min st3 \<le> port_resv_max st3" "hports job1 \<subseteq> {port_resv_min st3..port_resv_max st3}"
      "\<forall>j < port_resv_cnt st3. bits_of (t ! j) = taken [job1] (port_resv_min st3 + j)"
    using c(2) by (auto simp: ports_inv_def holder_ok_def hports_def)
  let ?J = "{j. j < port_resv_cnt st3 \<and> bits_of (holder_nodes job) \<subseteq> bits_of (t ! j)}"
  have "hports job1 \<subseteq> (\<lambda>j. port_resv_min st3 + j) ` ?J"
  proof
    fix p
    assume p: "p \<in> hports job1"
    then have "port_resv_min st3 \<le> p" "p \<le> port_resv_max st3" using t(4) by auto
    then have "p = port_resv_min st3 + (p - port_resv_min st3)" "p - port_resv_min st3 < port_resv_cnt st3" using t(2) by auto
    moreover from this have "p - port_resv_min st3 \<in> ?J" using t(5) p r1(2) by (simp add: taken_one hnodes_def)
    ultimately show "p \<in> (\<lambda>j. port_resv_min st3 + j) ` ?J" by blast
  qed
  then have "card (hports job1) \<le> card ((\<lambda>j. port_resv_min st3 + j) ` ?J)" by (intro card_mono) auto
  then have "unat ?w \<le> card ?J" using r1(4) card_image_le [of ?J "\<lambda>j. port_resv_min st3 + j"] by simp
  then show ?thesis
    using a(1) b(1,3) c(1,3) t(1) r1(3) unfolding set_resv_ports_jobpack_def resv_ports_jobpack_def by auto
qed


theorem second_pack_reservation_leaks_witness:
  "\<exists>st1 job1 s st2 job2 st3 job3 t. set_resv_ports_jobpack (\<lambda>ps. []) 1 sample_ports0 (sample_request 1) = Some (st1, job1) \<and>
    resv_ports_jobpack (\<lambda>ps. []) 1 st1 job1 = Some (Some s, st2, job2) \<and>
    resv_port_jobpack_free st2 job2 = Some (st3, job3) \<and> resv_port_array job3 = None \<and> port_resv_table st3 = Some t \<and>
    1 \<le> card {j. j < port_resv_cnt st3 \<and> bits_of (holder_nodes (sample_request 1)) \<subseteq> bits_of (t ! j)}"
proof -
  have "port_init 4 (sample_ports0, [])"
    using sample_config by (auto simp: port_init_def sample_ports0_def sample_table_def)
  then have r: "reach (port_init 4) (port_step (\<lambda>ps. []) 4) (sample_ports0, [])" by (rule reach_init)
  have "port_request 4 ((sample_request 1)\<lparr>resv_port_cnt := ucast (1 :: u32)\<rparr>)" "2 * unat (ucast (1 :: u32) :: u16) \<le> port_resv_cnt sample_ports0"
    by (simp_all add: port_request_def sample_request_def bitstr_wf_def bitstr_words_def sample_ports0_def)
  from second_pack_reservation_leaks [OF r this] show ?thesis by simp
qed

end
