(* ===== verification/Spec2Isabelle.thy ===== *)
theory Spec2Isabelle
  imports Prelude Bitstring Hweight Bitstring_Count Bitstring_Search Transition Locks Pack Pack_Codec
    Run_Length Step_Layout Step_Layout_Dist Step_Layout_Plane Step_Layout_Create Step_Layout_Use
    Step_Layout_Codec Bitstring_Fmt Job_Resources Job_Resources_Cores
    Job_Resources_Nodes Job_Resources_Build Job_Resources_Cluster Job_Resources_Extract Job_Resources_Copy
    Job_Resources_Codec Linked_List Linked_List_Nodes Linked_List_Refine Linked_List_Properties
    Port_Manager Port_Reservations
begin

text \<open>
  Verification of components of SLURM with job packs: the C sources under src/src and the public
  headers under src/slurm. Paths below are relative to src/.

  \<^bold>\<open>The program.\<close> The controller daemon slurmctld keeps tables of nodes, jobs and partitions, guarded
  by a family of read and write locks (src/slurmctld/locks.c). It gives jobs nodes and cores, which it
  records in a \<^verbatim>\<open>job_resources\<close> structure (src/common/job_resources.c) made of run-length encoded
  node shapes and bitmaps (src/common/bitstring.c). For each step of a job it distributes the tasks over
  the nodes (src/common/slurm_step_layout.c) and reserves communication ports, also for all members of
  a job pack together (src/slurmctld/port_mgr.c). Nearly all of its tables and queues are lists with iterators
  (src/common/list.c). Commands and daemons exchange all of this in messages
  serialised by src/common/pack.c.

  \<^bold>\<open>Conventions.\<close> Functions that can abort (\<^verbatim>\<open>xassert\<close>, \<^verbatim>\<open>fatal\<close>), read through NULL, index
  outside an array, divide by zero or fail to return have type option, and \<^term>\<open>None\<close> stands for all of
  these; a theorem that a result is \<^term>\<open>Some x\<close> for some \<open>x\<close> therefore includes absence of such faults. A pointer
  that may be NULL is an option inside the result. Allocation succeeds, as \<^verbatim>\<open>xmalloc\<close> ends the program
  otherwise. Integers whose width matters are words: the wire format, bitmap words, the 16-bit
  task and CPU counts, the 32-bit counters of ports and buffers. Loop indices are natural numbers or
  integers; where a sum could leave the range of \<^verbatim>\<open>int\<close> the model tests it and is \<^term>\<open>None\<close> there. Log
  output is left out, except where it decides between values returned.

  \<^bold>\<open>Shared theories.\<close>
  \<^item> Prelude: types, the option monad, arrays that may be NULL, words as big-endian bytes, lemma
    collections \<open>abort_simps\<close> and \<open>abs_simps\<close>.
  \<^item> Transition: the locale \<open>inductive_invariant\<close>, invariants of step relations, interpreted for
    the locks and for the port table; and the locale \<open>functional_refinement\<close>, sequences of calls against a
    specification, interpreted for the lists.
  \<^item> Run_Length: the locale \<open>run_encoder\<close>, one-pass run-length encoders; interpreted for the CPU
    counts and for the node shapes.

  \<^bold>\<open>Bitmaps\<close> (src/common/bitstring.c, bitstring.h). A bitmap is its array of 64-bit words, the first two
  being the magic number and the size, as in the code. \<open>bits_of\<close> maps it to the set of its positions and \<open>bitstr_wf\<close>
  is the invariant. Bitstring has allocation, single bits, ranges and the word-parallel boolean
  operations, with the locale \<open>bitmap\<close> as the interface for the clients; Hweight proves the population count
  equal to the number of set bits; Bitstring_Count has counts, ranks and selection;
  Bitstring_Search has first and last bits, runs, gaps and rotation; Bitstring_Fmt has the range text, pair
  arrays, hexadecimal and binary masks and their readers. The lemmas show that each operation
  implements its set operation and keeps the invariant, that searches are sound and complete, that
  the formats are read back, and where the code departs from its comments.

  \<^bold>\<open>Locks\<close> (src/slurmctld/locks.c, locks.h; theory Locks). Each function is a sequence of atomic program
  points separated at the mutex and condition variable calls, and \<open>lock_step\<close> interleaves any number of threads.
  Reachable states satisfy mutual exclusion of writers, preference of waiting
  writers, absence of deadlock as long as the termination flag is not raised, and the counters equal
  the number of holders. The flag itself can leave the mutex locked for ever.

  \<^bold>\<open>Messages\<close> (src/common/pack.c, pack.h). Pack has the buffer with its size, position and
  bytes, the growth of the buffer and its limits; Pack_Codec has the readers, the locales \<open>codec\<close>, \<open>packer\<close> and
  \<open>safe_unpacker\<close>, and their interpretations for every leaf type. What is packed is read back, and no contents of a buffer
  make a reader leave it.

  \<^bold>\<open>Step layouts\<close> (src/common/slurm_step_layout.c). Step_Layout holds the data and the creation with its
  four distributions; Step_Layout_Dist and Step_Layout_Plane treat their loops through the locale
  \<open>task_cycles\<close>, interpreted for block, cyclic and plane; Step_Layout_Create composes them; Step_Layout_Use has search, copy and the layouts made
  without an allocation; Step_Layout_Codec the wire format and the names. The lemmas show that creation
  returns and gives each task to exactly one node, how even each distribution is, and that layouts survive
  transmission. Loops whose end is not syntactically evident are \<open>while_option\<close>, with termination proved;
  no fuel is used.

  \<^bold>\<open>Resources of a job\<close> (src/common/job_resources.c, the core offsets of src/common/node_conf.c).
  Job_Resources holds the structure, its invariant \<open>jr_ok\<close> and the functions; the
  other theories show: Job_Resources_Cores, that the offsets of cores are a bijection; Job_Resources_Nodes, the
  operations on one node; Job_Resources_Build, that building establishes the invariant and encodes the
  counts; Job_Resources_Cluster, that jobs are sets of cores of the cluster; Job_Resources_Extract, the removal of
  a node; Job_Resources_Copy, copies; Job_Resources_Codec, the wire format, which is read back, and what a
  message that ends too early does.

  \<^bold>\<open>Lists\<close> (src/common/list.c). Linked_List has nodes, links and iterators in memory, as in the code: a
  pointer to a node is an address, a pointer to a link the head or the \<^verbatim>\<open>next\<close> field of a node, and every
  access to a node that is not allocated is \<^term>\<open>None\<close>. Linked_List_Nodes relates the nodes of a list to a sequence and its
  iterators to positions, and treats insertion and removal of one node; Linked_List_Refine shows that all
  operations refine those on sequences with cursors; Linked_List_Properties draws the conclusions: any
  sequence of calls, memory given back, iterators that keep their place, sorting, and two lists side by side.
  A call is one step, since it holds the mutex of its list; \<^verbatim>\<open>list_transfer\<close> and \<^verbatim>\<open>list_append_list\<close> are
  sequences of such steps. The loops are partial functions, with termination proved for every list that represents a
  sequence. The library function \<^verbatim>\<open>qsort\<close> is a parameter.

  \<^bold>\<open>Ports\<close> (src/slurmctld/port_mgr.c and the two callers for job packs in node_scheduler.c and
  job_scheduler.c). Port_Manager is the model; Port_Reservations defines the states reachable by any sequence
  of reservations and releases, and shows that holders of a port have no node in common, when a
  reservation succeeds, and two defects in the accounting for packs.

  \<^bold>\<open>Parameters.\<close> Functions of the host list library (\<^verbatim>\<open>hostlist_*\<close>) and the node table
  lookups \<^verbatim>\<open>node_name2bitmap\<close> and \<^verbatim>\<open>bitmap2node_name\<close>, whose data come from configuration
  files, are arguments of the functions that call them.

  \<^bold>\<open>Not modelled.\<close> Scheduling proper, job, node and partition management (job_mgr.c, node_scheduler.c,
  step_mgr.c and neighbours) work on large mutable tables linked by pointers, plugins and the clock, and
  of them only the functions named above are modelled. The plugins, slurmd, slurmstepd, the
  database daemon and the client commands are mostly system calls, process control, sockets and
  formatting. In the modelled files, logging, the packing of floating point numbers, the BlueGene
  variants chosen by the build, and the mutex around the state save files are left out.
\<close>

end
